(* ===== verification/Prelude.thy ===== *)
theory Prelude
  imports Main "HOL-Library.Word"
begin

unbundle bit_operations_syntax

text \<open>
  Shared vocabulary of the development.

  \<^item> Results. A C function that may run into undefined behaviour returns a value of
    \<open>'a res\<close>: \<open>Inl\<close> names the fault, \<open>Inr\<close> carries the value. A theorem that a
    function returns \<open>Inr\<close> is therefore a memory-safety theorem.
  \<^item> Memory blocks. A malloc'ed or stack buffer is the list of its cells; a cell that was
    never written is \<open>None\<close>. A pointer into a block (\<open>buff + i\<close>) is the suffix
    \<open>drop i\<close> of the block, so a read or a write past its end is a fault.
  \<^item> Byte order. The host is a little-endian LP64 machine (Linux on x86-64). A struct field
    is loaded least significant byte first and then converted with \<open>ntohs\<close>, \<open>ntohl\<close> or
    \<open>ntohll\<close>, the last one being the macro of \<open>src/os/linux_endian.h\<close>.
\<close>

section \<open>Faults and results\<close>

datatype fault =
    OutOfBounds      \<comment> \<open>access outside of an allocated block\<close>
  | Uninitialised    \<comment> \<open>use of a byte that was never written\<close>
  | NullDeref        \<comment> \<open>a NULL pointer is dereferenced\<close>
  | UseAfterFree     \<comment> \<open>an object is accessed or freed after it was freed\<close>
  | AssertFailed     \<comment> \<open>an \<open>assert\<close> of the source does not hold\<close>
  | BadShift         \<comment> \<open>a shift by a negative or too large amount\<close>
  | Diverges         \<comment> \<open>a loop that never ends\<close>

type_synonym 'a res = "fault + 'a"

type_synonym byte = "8 word"

named_theorems res_simps \<open>equations and case rules for the result type\<close>

definition res_bind :: "'a res \<Rightarrow> ('a \<Rightarrow> 'b res) \<Rightarrow> 'b res" where
  "res_bind r f = (case r of Inl e \<Rightarrow> Inl e | Inr x \<Rightarrow> f x)"

lemma res_bind_simps [simp, res_simps]:
  "res_bind (Inl e) f = Inl e"
  "res_bind (Inr x) f = f x"
  by (simp_all add: res_bind_def)

lemma res_bind_eq_Inr [res_simps]:
  "res_bind r f = Inr y \<longleftrightarrow> (\<exists>x. r = Inr x \<and> f x = Inr y)"
  by (cases r) simp_all

lemma res_bind_eq_Inl [res_simps]:
  "res_bind r f = Inl e \<longleftrightarrow> r = Inl e \<or> (\<exists>x. r = Inr x \<and> f x = Inl e)"
  by (cases r) simp_all

lemma res_bind_assoc: "res_bind (res_bind r f) g = res_bind r (\<lambda>x. res_bind (f x) g)"
  by (cases r) simp_all

lemma res_bind_cong [fundef_cong]:
  "r = r' \<Longrightarrow> (\<And>x. r' = Inr x \<Longrightarrow> f x = g x) \<Longrightarrow> res_bind r f = res_bind r' g"
  by (cases r') simp_all

text \<open>Partial correctness: what holds of the value if there is no fault.\<close>

definition res_all :: "('a \<Rightarrow> bool) \<Rightarrow> 'a res \<Rightarrow> bool" where
  "res_all P r \<longleftrightarrow> (\<forall>x. r = Inr x \<longrightarrow> P x)"

lemma res_all_simps [simp]: "res_all P (Inl e)" "res_all P (Inr x) = P x"
  by (simp_all add: res_all_def)

lemma res_all_bind [intro!]:
  "(\<And>x. r = Inr x \<Longrightarrow> res_all P (f x)) \<Longrightarrow> res_all P (res_bind r f)"
  by (auto simp: res_all_def res_simps)

lemma res_allD: "res_all P r \<Longrightarrow> r = Inr x \<Longrightarrow> P x"
  by (simp add: res_all_def)

text \<open>A \<open>for\<close> loop over a list of values with the state \<open>s\<close>, left at the first fault.\<close>

fun res_fold :: "('a \<Rightarrow> 's \<Rightarrow> 's res) \<Rightarrow> 'a list \<Rightarrow> 's \<Rightarrow> 's res" where
  "res_fold f [] s = Inr s"
| "res_fold f (x # xs) s = res_bind (f x s) (res_fold f xs)"

lemma res_fold_append: "res_fold f (xs @ ys) s = res_bind (res_fold f xs s) (res_fold f ys)"
  by (induction xs arbitrary: s) (auto simp: res_bind_def split: sum.splits)

lemma res_fold_map: "res_fold f (map h xs) s = res_fold (\<lambda>x. f (h x)) xs s"
  by (induction xs arbitrary: s) (auto simp: res_bind_def split: sum.splits)

lemma res_fold_cong:
  "(\<And>x s. x \<in> set xs \<Longrightarrow> f x s = g x s) \<Longrightarrow> res_fold f xs s = res_fold g xs s"
  by (induction xs arbitrary: s) (auto simp: res_bind_def split: sum.splits)

text \<open>A loop whose every step is a pure one.\<close>

lemma res_fold_pure:
  "(\<And>x s. x \<in> set xs \<Longrightarrow> f x s = Inr (g x s)) \<Longrightarrow> res_fold f xs s = Inr (fold g xs s)"
  by (induction xs arbitrary: s) auto

section \<open>Memory blocks\<close>

type_synonym block = "byte option list"

text \<open>\<open>malloc n\<close> gives \<open>n\<close> cells that were never written, \<open>calloc 1 n\<close> gives \<open>n\<close> zero bytes.\<close>

definition block_alloc :: "nat \<Rightarrow> block" where
  "block_alloc n = replicate n None"

definition block_zero :: "nat \<Rightarrow> block" where
  "block_zero n = replicate n (Some 0)"

definition block_read :: "block \<Rightarrow> nat \<Rightarrow> byte res" where
  "block_read m i =
     (if i < length m then (case m ! i of None \<Rightarrow> Inl Uninitialised | Some b \<Rightarrow> Inr b)
      else Inl OutOfBounds)"

fun block_reads :: "block \<Rightarrow> nat \<Rightarrow> nat \<Rightarrow> byte list res" where
  "block_reads m i 0 = Inr []"
| "block_reads m i (Suc n) =
     res_bind (block_read m i) (\<lambda>b. res_bind (block_reads m (Suc i) n) (\<lambda>bs. Inr (b # bs)))"

text \<open>The two halves of \<open>memcpy\<close>: the cells read at the source pointer (copying a cell that was
  never written is not a use of it), and the cells written at an offset of the destination.\<close>

definition block_copy :: "block \<Rightarrow> nat \<Rightarrow> block res" where
  "block_copy src n = (if n \<le> length src then Inr (take n src) else Inl OutOfBounds)"

definition block_write :: "block \<Rightarrow> nat \<Rightarrow> block \<Rightarrow> block res" where
  "block_write dst off cells =
     (if off + length cells \<le> length dst
      then Inr (take off dst @ cells @ drop (off + length cells) dst)
      else Inl OutOfBounds)"

definition bytes :: "byte list \<Rightarrow> block" where
  "bytes bs = map Some bs"

lemma length_bytes [simp]: "length (bytes bs) = length bs"
  by (simp add: bytes_def)

lemma bytes_simps [simp]:
  "bytes [] = []" "bytes (b # bs) = Some b # bytes bs" "bytes (as @ bs) = bytes as @ bytes bs"
  by (simp_all add: bytes_def)

lemma take_bytes [simp]: "take n (bytes bs) = bytes (take n bs)"
  by (simp add: bytes_def take_map)

lemma drop_bytes [simp]: "drop n (bytes bs) = bytes (drop n bs)"
  by (simp add: bytes_def drop_map)

lemma bytes_inject [simp]: "bytes as = bytes bs \<longleftrightarrow> as = bs"
  by (simp add: bytes_def inj_map_eq_map)

lemma block_copy_append [simp]: "n = length xs \<Longrightarrow> block_copy (xs @ ys) n = Inr xs"
  by (simp add: block_copy_def)

lemma block_copy_eq_Inr: "block_copy m n = Inr c \<longleftrightarrow> n \<le> length m \<and> c = take n m"
  by (auto simp: block_copy_def)

lemma block_read_bytes: "i < length bs \<Longrightarrow> block_read (bytes bs @ m) i = Inr (bs ! i)"
  by (simp add: block_read_def nth_append) (simp add: bytes_def)

lemma block_read_drop: "i + k < length m \<Longrightarrow> block_read (drop i m) k = block_read m (i + k)"
  by (auto simp: block_read_def)

lemma block_reads_bytes:
  "i + n \<le> length bs \<Longrightarrow> block_reads (bytes bs @ m) i n = Inr (take n (drop i bs))"
proof (induction n arbitrary: i)
  case 0
  then show ?case by simp
next
  case (Suc n)
  then have "drop i bs = bs ! i # drop (Suc i) bs"
    by (simp add: Cons_nth_drop_Suc)
  with Suc show ?case
    by (simp add: block_read_bytes)
qed

lemma block_write_length: "block_write d off c = Inr d' \<Longrightarrow> length d' = length d"
  by (auto simp: block_write_def split: if_splits)

text \<open>A pointer-and-length argument is usable when the block has that many initialised bytes.\<close>

definition readable :: "block \<Rightarrow> nat \<Rightarrow> bool" where
  "readable m n \<longleftrightarrow> n \<le> length m \<and> None \<notin> set (take n m)"

lemma readable_iff_bytes: "readable m n \<longleftrightarrow> (\<exists>bs. length bs = n \<and> (\<exists>rest. m = bytes bs @ rest))"
proof
  assume r: "readable m n"
  define bs where "bs = map the (take n m)"
  have "map (\<lambda>c. Some (the c)) (take n m) = take n m"
    using r by (intro map_idI) (metis option.collapse readable_def)
  then have "bytes bs = take n m"
    by (simp add: bs_def bytes_def comp_def)
  then have "m = bytes bs @ drop n m" by simp
  moreover have "length bs = n"
    using r by (simp add: bs_def readable_def)
  ultimately show "\<exists>bs. length bs = n \<and> (\<exists>rest. m = bytes bs @ rest)" by blast
next
  assume "\<exists>bs. length bs = n \<and> (\<exists>rest. m = bytes bs @ rest)"
  then show "readable m n" by (auto simp: readable_def bytes_def)
qed

lemma readable_bytes [simp]: "n \<le> length bs \<Longrightarrow> readable (bytes bs @ rest) n"
  by (auto simp: readable_def bytes_def take_map)

section \<open>Widths\<close>

text \<open>Conversions between unsigned types keep the value modulo the target's width.\<close>

lemma unat_ucast_mod: "unat (ucast (w :: 'a::len word) :: 'b::len word) = unat w mod 2 ^ LENGTH('b)"
  by (simp add: unsigned_ucast_eq take_bit_eq_mod)

lemma unat_ucast_less [simp]:
  "unat (w :: 'a::len word) < 2 ^ LENGTH('b) \<Longrightarrow> unat (ucast w :: 'b::len word) = unat w"
  by (simp add: unat_ucast_mod)

lemma unat_ucast_up [simp]:
  assumes "LENGTH('a) \<le> LENGTH('b)"
  shows "unat (ucast (w :: 'a::len word) :: 'b::len word) = unat w"
proof -
  have "unat w < 2 ^ LENGTH('a)" by (rule unsigned_less)
  also have "(2 :: nat) ^ LENGTH('a) \<le> 2 ^ LENGTH('b)" using assms by simp
  finally show ?thesis by simp
qed

lemma unat_plus_less:
  "unat (a :: 'a::len word) + unat b < 2 ^ LENGTH('a) \<Longrightarrow> unat (a + b) = unat a + unat b"
  by (simp add: unat_word_ariths)

lemma unat_lt_16: "unat (w :: 16 word) < 65536"
  using unsigned_less [of w] by simp

lemma unat_lt_32: "unat (w :: 32 word) < 4294967296"
  using unsigned_less [of w] by simp

lemma unat_lt_8: "unat (w :: 8 word) < 256"
  using unsigned_less [of w] by simp

lemma unat_of_nat_8: "m < 2 ^ 8 \<Longrightarrow> unat (of_nat m :: 8 word) = m"
  by (simp add: unat_of_nat)

lemma unat_of_nat_16: "m < 2 ^ 16 \<Longrightarrow> unat (of_nat m :: 16 word) = m"
  by (simp add: unat_of_nat)

lemma unat_of_nat_32: "m < 2 ^ 32 \<Longrightarrow> unat (of_nat m :: 32 word) = m"
  by (simp add: unat_of_nat)

lemma unat_of_nat_64: "m < 2 ^ 64 \<Longrightarrow> unat (of_nat m :: 64 word) = m"
  by (simp add: unat_of_nat)

section \<open>Byte order\<close>

text \<open>\<open>load_le\<close> reads a word from its bytes, least significant first; \<open>store_le\<close> lists the
  bytes of a word in that order.\<close>

fun load_le :: "byte list \<Rightarrow> 'a::len word" where
  "load_le [] = 0"
| "load_le (b # bs) = ucast b OR push_bit 8 (load_le bs)"

definition store_le :: "nat \<Rightarrow> 'a::len word \<Rightarrow> byte list" where
  "store_le n x = map (\<lambda>i. ucast (drop_bit (8 * i) x)) [0..<n]"

definition ntohs :: "16 word \<Rightarrow> 16 word" where
  "ntohs x = load_le (rev (store_le 2 x))"

definition htons :: "16 word \<Rightarrow> 16 word" where
  "htons x = load_le (rev (store_le 2 x))"

definition ntohl :: "32 word \<Rightarrow> 32 word" where
  "ntohl x = load_le (rev (store_le 4 x))"

definition htonl :: "32 word \<Rightarrow> 32 word" where
  "htonl x = load_le (rev (store_le 4 x))"

definition ntohll :: "64 word \<Rightarrow> 64 word" where
  "ntohll x =
     (if 1 = ntohl 1 then x
      else push_bit 32 (ucast (ntohl (ucast (x AND 0xFFFFFFFF)))) OR ucast (ntohl (ucast (drop_bit 32 x))))"

definition htonll :: "64 word \<Rightarrow> 64 word" where
  "htonll x =
     (if 1 = htonl 1 then x
      else push_bit 32 (ucast (htonl (ucast (x AND 0xFFFFFFFF)))) OR ucast (htonl (ucast (drop_bit 32 x))))"

lemma length_store_le [simp]: "length (store_le n x) = n"
  by (simp add: store_le_def)

lemma bit_load_le:
  "bit (load_le bs :: 'a::len word) k \<longleftrightarrow>
     k < LENGTH('a) \<and> k div 8 < length bs \<and> bit (bs ! (k div 8)) (k mod 8)"
proof (induction bs arbitrary: k)
  case Nil
  then show ?case by simp
next
  case (Cons b bs)
  show ?case
  proof (cases "k < 8")
    case True
    then show ?thesis by (auto simp: bit_simps)
  next
    case False
    then obtain j where j: "k = j + 8"
      by (metis add.commute le_Suc_ex not_less)
    have "(j + 8) div 8 = Suc (j div 8)" by simp
    moreover have "(j + 8) mod 8 = j mod 8" by simp
    moreover have "bit b (j + 8) = False"
      by (simp add: bit_word.rep_eq)
    ultimately show ?thesis
      using Cons[of j] j by (auto simp: bit_simps)
  qed
qed

lemma nth_store_le:
  "i < n \<Longrightarrow> store_le n x ! i = ucast (drop_bit (8 * i) x)"
  by (simp add: store_le_def)

lemma load_store_le [simp]:
  "LENGTH('a) = 8 * n \<Longrightarrow> load_le (store_le n x) = (x :: 'a::len word)"
  by (rule bit_word_eqI) (auto simp: bit_load_le nth_store_le bit_simps)

lemma store_load_le:
  "8 * length bs \<le> LENGTH('a) \<Longrightarrow> store_le (length bs) (load_le bs :: 'a::len word) = bs"
proof (rule nth_equalityI)
  fix i
  assume len: "8 * length bs \<le> LENGTH('a)" and "i < length (store_le (length bs) (load_le bs :: 'a word))"
  then have i: "i < length bs" by simp
  show "store_le (length bs) (load_le bs :: 'a word) ! i = bs ! i"
    using len i by (intro bit_word_eqI) (auto simp: bit_load_le nth_store_le bit_simps)
qed simp

text \<open>Network order is the reverse: most significant byte first.\<close>

definition load_be :: "byte list \<Rightarrow> 'a::len word" where
  "load_be bs = load_le (rev bs)"

definition store_be :: "nat \<Rightarrow> 'a::len word \<Rightarrow> byte list" where
  "store_be n x = rev (store_le n x)"

lemma length_store_be [simp]: "length (store_be n x) = n"
  by (simp add: store_be_def)

lemma load_store_be [simp]:
  "LENGTH('a) = 8 * n \<Longrightarrow> load_be (store_be n x) = (x :: 'a::len word)"
  by (simp add: load_be_def store_be_def)

lemma store_load_be:
  "8 * length bs \<le> LENGTH('a) \<Longrightarrow> store_be (length bs) (load_be bs :: 'a::len word) = bs"
  using store_load_le [of "rev bs", where 'a = 'a] by (simp add: load_be_def store_be_def)

lemma ntohs_load: "length bs = 2 \<Longrightarrow> ntohs (load_le bs) = load_be bs"
  using store_load_le [of bs, where 'a = 16] by (simp add: ntohs_def load_be_def)

lemma ntohl_load: "length bs = 4 \<Longrightarrow> ntohl (load_le bs) = load_be bs"
  using store_load_le [of bs, where 'a = 32] by (simp add: ntohl_def load_be_def)

lemma load_le_append:
  "load_le (as @ bs) = (load_le as :: 'a::len word) OR push_bit (8 * length as) (load_le bs)"
  by (induction as) (simp_all add: push_bit_or or.assoc push_bit_add [symmetric] add.commute)

lemma ucast_load_le:
  "8 * length bs \<le> LENGTH('a) \<Longrightarrow> ucast (load_le bs :: 'a::len word) = (load_le bs :: 'b::len word)"
  by (rule bit_word_eqI) (auto simp: bit_simps bit_load_le)

lemma not_one_ntohl: "(1 = ntohl 1) = False" "(1 = htonl 1) = False"
  by (simp_all add: ntohl_def htonl_def store_le_def upt_rec)

lemma ntohll_load:
  assumes "length bs = 8"
  shows "ntohll (load_le bs) = load_be bs"
proof -
  obtain lo hi where bs: "bs = lo @ hi" and len: "length lo = 4" "length hi = 4"
    using assms by (intro that [of "take 4 bs" "drop 4 bs"]) auto
  have lo: "ucast ((load_le bs :: 64 word) AND 0xFFFFFFFF) = (load_le lo :: 32 word)"
  proof (rule bit_word_eqI)
    fix n assume n: "n < LENGTH(32)"
    then have "bit (0xFFFFFFFF :: 64 word) n"
      using bit_mask_iff [of 32 n, where 'a = "64 word"] by (simp add: mask_eq_exp_minus_1)
    with n show "bit (ucast ((load_le bs :: 64 word) AND 0xFFFFFFFF) :: 32 word) n = bit (load_le lo :: 32 word) n"
      using len by (auto simp: bit_simps bit_load_le bs nth_append)
  qed
  have hi: "ucast (drop_bit 32 (load_le bs :: 64 word)) = (load_le hi :: 32 word)"
  proof (rule bit_word_eqI)
    fix n assume "n < LENGTH(32)"
    moreover have "(32 + n) div 8 = n div 8 + 4" "(32 + n) mod 8 = n mod 8"
      by presburger+
    ultimately show "bit (ucast (drop_bit 32 (load_le bs :: 64 word)) :: 32 word) n = bit (load_le hi :: 32 word) n"
      using len by (auto simp: bit_simps bit_load_le bs nth_append)
  qed
  have "ntohll (load_le bs) = push_bit 32 (ucast (load_be lo :: 32 word)) OR ucast (load_be hi :: 32 word)"
    using len by (simp add: ntohll_def not_one_ntohl lo hi ntohl_load)
  also have "\<dots> = load_le (rev hi @ rev lo)"
    using len by (simp add: load_le_append load_be_def ucast_load_le or.commute)
  finally show ?thesis
    by (simp add: load_be_def bs)
qed

lemma htons_ntohs: "htons = ntohs"
  by (rule ext) (simp add: htons_def ntohs_def)

lemma htonl_ntohl: "htonl = ntohl"
  by (rule ext) (simp add: htonl_def ntohl_def)

lemma htonll_ntohll: "htonll = ntohll"
  by (rule ext) (simp add: htonll_def ntohll_def htonl_ntohl)

text \<open>Storing a converted field puts its bytes in network order.\<close>

lemma store_htons: "store_le 2 (htons x) = store_be 2 x"
  using store_load_le [of "rev (store_le 2 x)", where 'a = 16]
  by (simp add: htons_def store_be_def)

lemma store_htonl: "store_le 4 (htonl x) = store_be 4 x"
  using store_load_le [of "rev (store_le 4 x)", where 'a = 32]
  by (simp add: htonl_def store_be_def)

lemma store_htonll: "store_le 8 (htonll x) = store_be 8 x"
proof -
  have "ntohll x = load_be (store_le 8 x)"
    using ntohll_load [of "store_le 8 x"] by simp
  then show ?thesis
    using store_load_be [of "store_le 8 x", where 'a = 64]
      store_load_le [of "rev (store_le 8 x)", where 'a = 64]
    by (simp add: htonll_ntohll load_be_def store_be_def)
qed

lemmas byte_order =
  ntohs_load ntohl_load ntohll_load store_htons store_htonl store_htonll

text \<open>A struct field of \<open>n\<close> bytes at offset \<open>i\<close> of a block.\<close>

definition load_field :: "block \<Rightarrow> nat \<Rightarrow> nat \<Rightarrow> 'a::len word res" where
  "load_field m i n = res_bind (block_reads m i n) (\<lambda>bs. Inr (load_le bs))"

lemma load_field_bytes:
  "i + n \<le> length bs \<Longrightarrow> load_field (bytes bs @ m) i n = Inr (load_le (take n (drop i bs)))"
  by (simp add: load_field_def block_reads_bytes)

section \<open>C strings\<close>

text \<open>A C string is the list of its characters, without the terminator. Case is that of the C locale.\<close>

definition tolower :: "byte \<Rightarrow> byte" where
  "tolower b = (if 65 \<le> b \<and> b \<le> 90 then b + 32 else b)"

definition strcasecmp_eq :: "byte list \<Rightarrow> string \<Rightarrow> bool" where
  "strcasecmp_eq a s \<longleftrightarrow> map tolower a = map (\<lambda>c. tolower (of_char c)) s"

definition isspace :: "byte \<Rightarrow> bool" where
  "isspace b \<longleftrightarrow> 9 \<le> b \<and> b \<le> 13 \<or> b = 32"

definition isdigit :: "byte \<Rightarrow> bool" where
  "isdigit b \<longleftrightarrow> 48 \<le> b \<and> b \<le> 57"

text \<open>The number that \<open>strtol\<close> and \<open>strtoul\<close> read: white space, a sign, digits.\<close>

definition digits_value :: "byte list \<Rightarrow> int" where
  "digits_value ds = foldl (\<lambda>v d. 10 * v + int (unat d - 48)) 0 ds"

definition number_parts :: "byte list \<Rightarrow> bool \<times> byte list" where
  "number_parts s =
     (case dropWhile isspace s of
        c # cs \<Rightarrow>
          if c = 45 then (True, takeWhile isdigit cs)
          else if c = 43 then (False, takeWhile isdigit cs)
          else (False, takeWhile isdigit (c # cs))
      | [] \<Rightarrow> (False, []))"

text \<open>\<open>atoi s\<close> is \<open>(int) strtol (s, NULL, 10)\<close>: limited to the range of \<open>long\<close>, then reduced to 32 bits.\<close>

definition atoi :: "byte list \<Rightarrow> int" where
  "atoi s =
     (let (neg, ds) = number_parts s;
          v = (if neg then - digits_value ds else digits_value ds)
      in signed_take_bit 31 (max (- (2 ^ 63)) (min (2 ^ 63 - 1) v)))"

text \<open>The exit code of \<open>stdlib.h\<close>; \<open>EXIT_SUCCESS\<close> is 0.\<close>

definition EXIT_FAILURE :: int where "EXIT_FAILURE = 1"

text \<open>The decimal digits of a number.\<close>

fun decimal :: "nat \<Rightarrow> byte list" where
  "decimal n = (if n < 10 then [of_nat (48 + n)] else decimal (n div 10) @ [of_nat (48 + n mod 10)])"

declare decimal.simps [simp del]

lemma digit_byte:
  assumes "n < 10"
  shows "isdigit (of_nat (48 + n))" and "unat (of_nat (48 + n) :: byte) = 48 + n"
proof -
  show u: "unat (of_nat (48 + n) :: byte) = 48 + n" using assms by (intro unat_of_nat_8) simp
  show "isdigit (of_nat (48 + n))"
    using assms unfolding isdigit_def word_le_nat_alt u by simp
qed

lemma decimal_digits: "list_all isdigit (decimal n)"
proof (induction n rule: decimal.induct)
  case (1 n)
  then show ?case
    using digit_byte(1) [of n] digit_byte(1) [of "n mod 10"]
    by (subst decimal.simps) (simp del: of_nat_add)
qed

lemma digits_value_decimal: "digits_value (decimal n) = int n"
proof (induction n rule: decimal.induct)
  case (1 n)
  show ?case
  proof (cases "n < 10")
    case True
    then show ?thesis
      using digit_byte(2) [of n] by (subst decimal.simps) (simp add: digits_value_def del: of_nat_add)
  next
    case False
    have "int n = 10 * int (n div 10) + int (n mod 10)" by presburger
    then show ?thesis
      using 1 False digit_byte(2) [of "n mod 10"]
      by (subst decimal.simps) (simp add: digits_value_def del: of_nat_add of_nat_mod)
  qed
qed

lemma decimal_nonempty: "decimal n \<noteq> []"
  by (subst decimal.simps) simp

lemma number_parts_digits:
  assumes "list_all isdigit ds"
  shows "number_parts ds = (False, ds)"
proof (cases ds)
  case (Cons c cs)
  then have "isdigit c" using assms by simp
  then have "\<not> isspace c" "c \<noteq> 45" "c \<noteq> 43"
    by (auto simp: isdigit_def isspace_def word_le_nat_alt)
  then show ?thesis
    using assms Cons by (simp add: number_parts_def takeWhile_eq_all_conv list_all_iff)
qed (simp add: number_parts_def)

lemma atoi_decimal:
  assumes "n < 2 ^ 31"
  shows "atoi (decimal n) = int n"
proof -
  have "signed_take_bit 31 (int n) = int n"
    using assms by (intro signed_take_bit_int_eq_self) auto
  then show ?thesis
    using assms by (simp add: atoi_def number_parts_digits [OF decimal_digits] digits_value_decimal)
qed

end
