(* ===== verification/Request.thy ===== *)
theory Request
  imports Prelude
begin

text \<open>
  The request object: \<open>src/request.h\<close>, \<open>src/request.c\<close> and \<open>src/constants.c\<close>.

  A chain of payload nodes linked by \<open>next\<close> is the list of its nodes, NULL being the empty list.
  Each heap object carries a ghost bit that is cleared when it is freed (\<open>opt_live\<close>, \<open>pl_live\<close>),
  so that freeing or reading it again through another pointer is a fault. The lemmas show when
  \<open>ff_request_vectorise_payload\<close> writes inside its buffer and that it rebuilds the message
  from any set of chunks that covers it, and when \<open>ff_request_free\<close> is safe.
\<close>

section \<open>Data\<close>

definition HTTP_METHODS :: "string list" where
  "HTTP_METHODS =
     [''GET'', ''HEAD'', ''POST'', ''PUT'', ''DELETE'', ''CONNECT'', ''OPTIONS'', ''TRACE'', ''PATCH'']"

definition FF_REQUEST_MAX_OPTIONS :: nat where
  "FF_REQUEST_MAX_OPTIONS = 20"

datatype ff_request_state =
    FF_REQUEST_STATE_RECEIVING
  | FF_REQUEST_STATE_RECEIVED
  | FF_REQUEST_STATE_RECEIVING_FAIL
  | FF_REQUEST_STATE_DECRYPTING
  | FF_REQUEST_STATE_DECRYPTED
  | FF_REQUEST_STATE_DECRYPTING_FAILED
  | FF_REQUEST_STATE_PARSING_OPTIONS
  | FF_REQUEST_STATE_PARSED_OPTIONS
  | FF_REQUEST_STATE_PARSING_OPTIONS_FAILED
  | FF_REQUEST_STATE_SENDING
  | FF_REQUEST_STATE_SENT

text \<open>The source gives \<open>SENT\<close> and \<open>SENDING_FAILED\<close> the same value, 10: they are one state.\<close>

definition FF_REQUEST_STATE_SENDING_FAILED :: ff_request_state where
  "FF_REQUEST_STATE_SENDING_FAILED = FF_REQUEST_STATE_SENT"

text \<open>The version enumeration has a negative member, so it is a signed int.\<close>

definition FF_VERSION_RAW :: int where "FF_VERSION_RAW = -1"
definition FF_VERSION_1 :: int where "FF_VERSION_1 = 1"

definition FF_REQUEST_OPTION_TYPE_EOL :: byte where "FF_REQUEST_OPTION_TYPE_EOL = 0"
definition FF_REQUEST_OPTION_TYPE_ENCRYPTION_MODE :: byte where "FF_REQUEST_OPTION_TYPE_ENCRYPTION_MODE = 1"
definition FF_REQUEST_OPTION_TYPE_ENCRYPTION_IV :: byte where "FF_REQUEST_OPTION_TYPE_ENCRYPTION_IV = 2"
definition FF_REQUEST_OPTION_TYPE_ENCRYPTION_TAG :: byte where "FF_REQUEST_OPTION_TYPE_ENCRYPTION_TAG = 3"
definition FF_REQUEST_OPTION_TYPE_HTTPS :: byte where "FF_REQUEST_OPTION_TYPE_HTTPS = 4"
definition FF_REQUEST_OPTION_TYPE_KEY_DERIVE_MODE :: byte where "FF_REQUEST_OPTION_TYPE_KEY_DERIVE_MODE = 5"
definition FF_REQUEST_OPTION_TYPE_KEY_DERIVE_SALT :: byte where "FF_REQUEST_OPTION_TYPE_KEY_DERIVE_SALT = 6"
definition FF_REQUEST_OPTION_TYPE_BREAK :: byte where "FF_REQUEST_OPTION_TYPE_BREAK = 7"
definition FF_REQUEST_OPTION_TYPE_TIMESTAMP :: byte where "FF_REQUEST_OPTION_TYPE_TIMESTAMP = 8"

lemmas option_type_defs =
  FF_REQUEST_OPTION_TYPE_EOL_def FF_REQUEST_OPTION_TYPE_ENCRYPTION_MODE_def
  FF_REQUEST_OPTION_TYPE_ENCRYPTION_IV_def FF_REQUEST_OPTION_TYPE_ENCRYPTION_TAG_def
  FF_REQUEST_OPTION_TYPE_HTTPS_def FF_REQUEST_OPTION_TYPE_KEY_DERIVE_MODE_def
  FF_REQUEST_OPTION_TYPE_KEY_DERIVE_SALT_def FF_REQUEST_OPTION_TYPE_BREAK_def
  FF_REQUEST_OPTION_TYPE_TIMESTAMP_def

record ff_request_option_node =
  opt_type :: byte
  opt_length :: "16 word"
  opt_value :: block
  opt_live :: bool

record ff_request_payload_node =
  pl_offset :: "16 word"
  pl_length :: "16 word"
  pl_value :: block
  pl_live :: bool

type_synonym sockaddr = "byte list"

record ff_request =
  state :: ff_request_state
  version :: int
  source :: sockaddr
  received_at :: int
  request_id :: "64 word"
  options_length :: "8 word"
  options :: "ff_request_option_node list"
  payload_contains_options :: bool
  payload_length :: "64 word"
  received_length :: "64 word"
  payload :: "ff_request_payload_node list"

text \<open>The sizes of the two packed wire structs.\<close>

definition header_size :: nat where "header_size = 20"
definition option_header_size :: nat where "option_header_size = 3"

section \<open>Operations\<close>

definition ff_request_option_node_alloc :: ff_request_option_node where
  "ff_request_option_node_alloc = \<lparr>opt_type = 0, opt_length = 0, opt_value = [], opt_live = True\<rparr>"

text \<open>\<open>malloc(buff_size * sizeof(buff))\<close> allocates eight cells (the size of a pointer) per byte;
  only the first \<open>buff_size\<close> are written.\<close>

definition load_buff :: "32 word \<Rightarrow> block \<Rightarrow> block res" where
  "load_buff buff_size buff =
     res_bind (block_copy buff (unat buff_size)) (\<lambda>cells.
     block_write (block_alloc (unat buff_size * 8)) 0 cells)"

definition ff_request_option_load_buff ::
  "ff_request_option_node \<Rightarrow> 32 word \<Rightarrow> block \<Rightarrow> ff_request_option_node res" where
  "ff_request_option_load_buff node buff_size buff =
     res_bind (load_buff buff_size buff) (\<lambda>buff_copy. Inr (node\<lparr>opt_value := buff_copy\<rparr>))"

definition ff_request_option_node_free :: "ff_request_option_node \<Rightarrow> ff_request_option_node res" where
  "ff_request_option_node_free node =
     (if opt_live node then Inr (node\<lparr>opt_live := False\<rparr>) else Inl UseAfterFree)"

definition ff_request_payload_node_alloc :: ff_request_payload_node where
  "ff_request_payload_node_alloc = \<lparr>pl_offset = 0, pl_length = 0, pl_value = [], pl_live = True\<rparr>"

definition ff_request_payload_load_buff ::
  "ff_request_payload_node \<Rightarrow> 32 word \<Rightarrow> block \<Rightarrow> ff_request_payload_node res" where
  "ff_request_payload_load_buff node buff_size buff =
     res_bind (load_buff buff_size buff) (\<lambda>buff_copy. Inr (node\<lparr>pl_value := buff_copy\<rparr>))"

definition ff_request_payload_node_free :: "ff_request_payload_node \<Rightarrow> ff_request_payload_node res" where
  "ff_request_payload_node_free node =
     (if pl_live node then Inr (node\<lparr>pl_live := False\<rparr>) else Inl UseAfterFree)"

definition ff_request_alloc :: ff_request where
  "ff_request_alloc =
     \<lparr>state = FF_REQUEST_STATE_RECEIVING, version = 0, source = replicate 16 0, received_at = 0,
      request_id = 0, options_length = 0, options = [], payload_contains_options = False,
      payload_length = 0, received_length = 0, payload = []\<rparr>"

text \<open>\<open>request->options[i]\<close>: the slot must exist and its node must not have been freed.\<close>

definition option_at :: "ff_request \<Rightarrow> nat \<Rightarrow> ff_request_option_node res" where
  "option_at request i =
     (if i < length (options request)
      then (let node = options request ! i in if opt_live node then Inr node else Inl UseAfterFree)
      else Inl OutOfBounds)"

fun free_options_loop :: "ff_request \<Rightarrow> nat list \<Rightarrow> unit res" where
  "free_options_loop request [] = Inr ()"
| "free_options_loop request (i # idxs) =
     res_bind (option_at request i) (\<lambda>node.
     res_bind (ff_request_option_node_free node) (\<lambda>_. free_options_loop request idxs))"

fun free_payload_loop :: "ff_request_payload_node list \<Rightarrow> unit res" where
  "free_payload_loop [] = Inr ()"
| "free_payload_loop (node # nodes) =
     res_bind (ff_request_payload_node_free node) (\<lambda>_. free_payload_loop nodes)"

definition ff_request_free :: "ff_request \<Rightarrow> unit res" where
  "ff_request_free request =
     res_bind (free_options_loop request [0..<unat (options_length request)]) (\<lambda>_.
     free_payload_loop (payload request))"

fun vectorise_loop :: "ff_request_payload_node list \<Rightarrow> block \<Rightarrow> block res" where
  "vectorise_loop [] dst = Inr dst"
| "vectorise_loop (node # nodes) dst =
     (if \<not> pl_live node then Inl UseAfterFree
      else
        res_bind (block_copy (pl_value node) (unat (pl_length node))) (\<lambda>cells.
        res_bind (block_write dst (unat (pl_offset node)) cells) (\<lambda>dst'.
        res_bind (ff_request_payload_node_free node) (\<lambda>_. vectorise_loop nodes dst'))))"

definition ff_request_vectorise_payload :: "ff_request \<Rightarrow> ff_request res" where
  "ff_request_vectorise_payload request =
     (case payload request of
        [] \<Rightarrow> Inl NullDeref
      | node # nodes \<Rightarrow>
          if \<not> pl_live node then Inl UseAfterFree
          else if nodes = [] then Inr request
          else
            res_bind (vectorise_loop (node # nodes) (block_alloc (unat (payload_length request)))) (\<lambda>dst.
            Inr (request\<lparr>payload :=
              [ff_request_payload_node_alloc
                 \<lparr>pl_length := ucast (payload_length request), pl_offset := 0, pl_value := dst\<rparr>]\<rparr>)))"

section \<open>Loading a buffer\<close>

lemma load_buff_eq_Inr:
  "load_buff n buff = Inr c \<longleftrightarrow>
     unat n \<le> length buff \<and> c = take (unat n) buff @ block_alloc (unat n * 7)"
  by (auto simp: load_buff_def block_copy_def block_write_def block_alloc_def res_simps)

lemma load_buff_bytes:
  "unat n = length bs \<Longrightarrow> load_buff n (bytes bs @ rest) = Inr (bytes bs @ block_alloc (length bs * 7))"
  by (simp add: load_buff_eq_Inr)

section \<open>Freeing a request\<close>

text \<open>What \<open>ff_request_free\<close> needs: every option slot it visits is filled with a live node and
  every payload node of the chain is live.\<close>

definition options_live :: "ff_request \<Rightarrow> bool" where
  "options_live request \<longleftrightarrow>
     unat (options_length request) = length (options request) \<and> list_all opt_live (options request)"

lemma free_options_loop_safe:
  "free_options_loop request idxs = Inr () \<longleftrightarrow>
     (\<forall>i\<in>set idxs. i < length (options request) \<and> opt_live (options request ! i))"
  by (induction idxs) (auto simp: option_at_def ff_request_option_node_free_def Let_def res_simps)

lemma free_payload_loop_safe: "free_payload_loop nodes = Inr () \<longleftrightarrow> list_all pl_live nodes"
  by (induction nodes) (auto simp: ff_request_payload_node_free_def res_simps)

lemma options_live_free:
  "options_live request \<Longrightarrow> free_options_loop request [0..<unat (options_length request)] = Inr ()"
  by (auto simp: free_options_loop_safe options_live_def list_all_length)

lemma ff_request_free_safe:
  "options_live request \<Longrightarrow>
     ff_request_free request = Inr () \<longleftrightarrow> list_all pl_live (payload request)"
  by (simp add: ff_request_free_def options_live_free free_payload_loop_safe)

section \<open>Reassembly\<close>

text \<open>The byte range a node covers, and when a node carries that range of a message.\<close>

definition span :: "ff_request_payload_node \<Rightarrow> nat set" where
  "span node = {unat (pl_offset node) ..< unat (pl_offset node) + unat (pl_length node)}"

definition chunk_of :: "byte list \<Rightarrow> ff_request_payload_node \<Rightarrow> bool" where
  "chunk_of msg node \<longleftrightarrow>
     pl_live node \<and>
     unat (pl_offset node) + unat (pl_length node) \<le> length msg \<and>
     unat (pl_length node) \<le> length (pl_value node) \<and>
     take (unat (pl_length node)) (pl_value node)
       = bytes (take (unat (pl_length node)) (drop (unat (pl_offset node)) msg))"

lemma card_span [simp]: "card (span node) = unat (pl_length node)"
  by (simp add: span_def)

lemma finite_span [simp]: "finite (span node)"
  by (simp add: span_def)

text \<open>The copy loop stays inside its buffer exactly when every node does.\<close>

lemma vectorise_loop_safe:
  "(\<exists>v. vectorise_loop nodes dst = Inr v) \<longleftrightarrow>
     (\<forall>node\<in>set nodes. pl_live node \<and> unat (pl_length node) \<le> length (pl_value node) \<and>
        unat (pl_offset node) + unat (pl_length node) \<le> length dst)"
proof (induction nodes arbitrary: dst)
  case Nil
  then show ?case by simp
next
  case (Cons node nodes)
  show ?case
  proof (cases "pl_live node \<and> unat (pl_length node) \<le> length (pl_value node) \<and>
      unat (pl_offset node) + unat (pl_length node) \<le> length dst")
    case True
    then obtain dst' where "block_write dst (unat (pl_offset node))
        (take (unat (pl_length node)) (pl_value node)) = Inr dst'" and "length dst' = length dst"
      by (simp add: block_write_def)
    with True Cons show ?thesis
      by (simp add: block_copy_def ff_request_payload_node_free_def)
  next
    case False
    then show ?thesis
      by (auto simp: block_copy_def block_write_def split: if_splits)
  qed
qed

lemma vectorise_loop_chunks:
  assumes "list_all (chunk_of msg) nodes" and "length dst = length msg"
  shows "\<exists>v. vectorise_loop nodes dst = Inr v \<and> length v = length msg \<and>
    (\<forall>j<length msg. v ! j = (if j \<in> \<Union>(span ` set nodes) then Some (msg ! j) else dst ! j))"
  using assms
proof (induction nodes arbitrary: dst)
  case Nil
  then show ?case by simp
next
  case (Cons node nodes)
  let ?off = "unat (pl_offset node)" and ?len = "unat (pl_length node)"
  let ?cells = "bytes (take ?len (drop ?off msg))"
  let ?dst' = "take ?off dst @ ?cells @ drop (?off + ?len) dst"
  from Cons.prems have c: "pl_live node" "?off + ?len \<le> length msg" "?len \<le> length (pl_value node)"
      "take ?len (pl_value node) = ?cells"
    by (auto simp: chunk_of_def)
  have step: "vectorise_loop (node # nodes) dst = vectorise_loop nodes ?dst'"
    using c Cons.prems(2) by (simp add: block_copy_def block_write_def ff_request_payload_node_free_def)
  have len': "length ?dst' = length msg"
    using c Cons.prems(2) by simp
  have nth': "?dst' ! j = (if j \<in> span node then Some (msg ! j) else dst ! j)" if "j < length msg" for j
    using that c(2) Cons.prems(2) by (auto simp: span_def nth_append bytes_def)
  obtain v where v: "vectorise_loop nodes ?dst' = Inr v" "length v = length msg"
      "\<forall>j<length msg. v ! j = (if j \<in> \<Union>(span ` set nodes) then Some (msg ! j) else ?dst' ! j)"
    using Cons.IH [OF _ len'] Cons.prems(1) by auto
  show ?case
    unfolding step using v nth' by (intro exI [of _ v]) auto
qed

text \<open>Disjoint ranges inside a message of as many bytes as they have together cover it.\<close>

lemma card_disjoint_spans:
  "sorted_wrt (\<lambda>a b. span a \<inter> span b = {}) nodes \<Longrightarrow>
     card (\<Union>(span ` set nodes)) = (\<Sum>node\<leftarrow>nodes. unat (pl_length node))"
proof (induction nodes)
  case Nil
  then show ?case by simp
next
  case (Cons node nodes)
  then have "span node \<inter> \<Union>(span ` set nodes) = {}" by auto
  with Cons show ?case by (simp add: card_Un_disjoint)
qed

lemma disjoint_spans_cover:
  assumes "sorted_wrt (\<lambda>a b. span a \<inter> span b = {}) nodes"
    and "list_all (chunk_of msg) nodes"
    and "(\<Sum>node\<leftarrow>nodes. unat (pl_length node)) = length msg"
  shows "\<Union>(span ` set nodes) = {..<length msg}"
proof (rule card_subset_eq)
  show "\<Union>(span ` set nodes) \<subseteq> {..<length msg}"
    using assms(2) by (fastforce simp: span_def chunk_of_def list_all_iff)
  show "card (\<Union>(span ` set nodes)) = card {..<length msg}"
    using assms(1,3) by (simp add: card_disjoint_spans)
qed simp

lemma vectorise_covered:
  assumes ne: "payload request \<noteq> []"
    and chunks: "list_all (chunk_of msg) (payload request)"
    and cover: "\<Union>(span ` set (payload request)) = {..<length msg}"
    and len: "unat (payload_length request) = length msg" and small: "length msg < 2 ^ 16"
  shows "\<exists>node. ff_request_vectorise_payload request = Inr (request\<lparr>payload := [node]\<rparr>) \<and>
    pl_live node \<and> pl_offset node = 0 \<and> unat (pl_length node) = length msg \<and>
    take (length msg) (pl_value node) = bytes msg"
proof (cases "\<exists>node. payload request = [node]")
  case True
  then obtain node where node: "payload request = [node]" ..
  with chunks cover have c: "chunk_of msg node" and s: "span node = {..<length msg}" by simp_all
  have len_node: "unat (pl_length node) = length msg"
    using arg_cong [OF s, of card] by simp
  with c have "unat (pl_offset node) = 0"
    by (simp add: chunk_of_def)
  moreover have "request\<lparr>payload := [node]\<rparr> = request"
    using node by (cases request) simp
  ultimately show ?thesis
    using len_node c node
    by (intro exI [of _ node]) (simp add: ff_request_vectorise_payload_def chunk_of_def unat_eq_zero)
next
  case False
  with ne obtain node nodes where nodes: "payload request = node # nodes" "nodes \<noteq> []"
    by (metis list.exhaust)
  let ?n = "unat (payload_length request)"
  obtain v where v: "vectorise_loop (payload request) (block_alloc ?n) = Inr v" "length v = length msg"
      "\<forall>j<length msg. v ! j = Some (msg ! j)"
    using vectorise_loop_chunks [OF chunks, of "block_alloc ?n"] cover len
    by (auto simp: block_alloc_def)
  then have "v = bytes msg"
    by (intro nth_equalityI) (simp_all add: bytes_def)
  moreover have "unat (ucast (payload_length request) :: 16 word) = length msg"
    using len small by (simp add: unat_ucast_less)
  ultimately show ?thesis
    using v nodes chunks
    by (intro exI [of _ "\<lparr>pl_offset = 0, pl_length = ucast (payload_length request),
        pl_value = bytes msg, pl_live = True\<rparr>"])
      (simp add: ff_request_vectorise_payload_def chunk_of_def ff_request_payload_node_alloc_def)
qed

end
