(* ===== verification/Parser.thy ===== *)
theory Parser
  imports Request
begin

text \<open>
  The packet parser: \<open>src/parser.c\<close>, \<open>src/parser_p.h\<close> and the wire structs of \<open>src/request.h\<close>.

  Every function takes the pointer-and-length pair of the source: \<open>buff_size\<close> is what the
  caller claims, \<open>buff\<close> is the memory behind the pointer. Local variables of type
  \<open>size_t\<close> are natural numbers (they stay below \<open>2 ^ 33\<close>); every narrower integer keeps its
  width, so that the truncations and wrap-arounds of the source are those of the model.
\<close>

section \<open>Recognising raw HTTP\<close>

text \<open>\<open>strncmp (s, buff, strlen (s)) == 0\<close> for a literal \<open>s\<close>: it stops at the first difference.\<close>

fun strncmp_eq :: "string \<Rightarrow> block \<Rightarrow> nat \<Rightarrow> bool res" where
  "strncmp_eq [] buff i = Inr True"
| "strncmp_eq (c # s) buff i =
     res_bind (block_read buff i) (\<lambda>b. if of_char c = b then strncmp_eq s buff (Suc i) else Inr False)"

fun raw_http_loop :: "string list \<Rightarrow> 32 word \<Rightarrow> block \<Rightarrow> bool res" where
  "raw_http_loop [] buff_size buff = Inr False"
| "raw_http_loop (m # methods) buff_size buff =
     (if unat buff_size < length m then Inr False
      else res_bind (strncmp_eq m buff 0) (\<lambda>is_raw_http.
        if is_raw_http then Inr True else raw_http_loop methods buff_size buff))"

definition ff_request_is_raw_http :: "32 word \<Rightarrow> block \<Rightarrow> bool res" where
  "ff_request_is_raw_http buff_size buff =
     (if buff_size = 0 then Inr False else raw_http_loop HTTP_METHODS buff_size buff)"

section \<open>The wire structs\<close>

record raw_ff_request_header =
  h_version :: "16 word"
  h_request_id :: "64 word"
  h_total_length :: "32 word"
  h_chunk_offset :: "32 word"
  h_chunk_length :: "16 word"

definition load_header :: "block \<Rightarrow> raw_ff_request_header res" where
  "load_header buff =
     res_bind (load_field buff 0 2) (\<lambda>v.
     res_bind (load_field buff 2 8) (\<lambda>r.
     res_bind (load_field buff 10 4) (\<lambda>t.
     res_bind (load_field buff 14 4) (\<lambda>c.
     res_bind (load_field buff 18 2) (\<lambda>l.
     Inr \<lparr>h_version = v, h_request_id = r, h_total_length = t, h_chunk_offset = c, h_chunk_length = l\<rparr>)))))"

record raw_ff_request_option_header =
  oh_type :: byte
  oh_length :: "16 word"

definition load_option_header :: "block \<Rightarrow> nat \<Rightarrow> raw_ff_request_option_header res" where
  "load_option_header buff i =
     res_bind (block_read buff i) (\<lambda>t.
     res_bind (load_field buff (i + 1) 2) (\<lambda>l.
     Inr \<lparr>oh_type = t, oh_length = l\<rparr>))"

definition ff_request_parse_id :: "32 word \<Rightarrow> block \<Rightarrow> 64 word res" where
  "ff_request_parse_id buff_size buff =
     res_bind (ff_request_is_raw_http buff_size buff) (\<lambda>is_raw_http.
     if is_raw_http then Inr 0
     else res_bind (load_field buff 2 8) (\<lambda>r. Inr (ntohll r)))"

section \<open>Options\<close>

text \<open>
  The option loop. \<open>Inl opts\<close> is the jump to \<open>error\<close> with the nodes allocated so far,
  \<open>Inr (b, opts, i)\<close> the regular exit with the value given to \<open>payload_contains_options\<close>.
\<close>

function parse_options_loop ::
  "nat \<Rightarrow> 32 word \<Rightarrow> block \<Rightarrow> ff_request_option_node list \<Rightarrow> 8 word \<Rightarrow> 32 word \<Rightarrow>
   (ff_request_option_node list + (bool \<times> ff_request_option_node list \<times> 32 word)) res" where
  "parse_options_loop current_options_size buff_size buff opts options_i i =
     (if current_options_size + unat options_i \<ge> FF_REQUEST_MAX_OPTIONS then Inr (Inl opts)
      else if unat buff_size < unat i + option_header_size then Inr (Inl opts)
      else
        res_bind (load_option_header buff (unat i)) (\<lambda>option_header.
        let option_length = ntohs (oh_length option_header);
            i' = i + of_nat option_header_size
        in if oh_type option_header = FF_REQUEST_OPTION_TYPE_BREAK then
             (if option_length \<noteq> 0 then Inr (Inl opts) else Inr (Inr (True, opts, i')))
           else if oh_type option_header = FF_REQUEST_OPTION_TYPE_EOL then
             (if option_length \<noteq> 0 then Inr (Inl opts) else Inr (Inr (False, opts, i')))
           else if buff_size < i' + ucast option_length then Inr (Inl opts)
           else if unat options_i \<ge> FF_REQUEST_MAX_OPTIONS then Inl OutOfBounds
           else
             res_bind
               (ff_request_option_load_buff
                  (ff_request_option_node_alloc
                     \<lparr>opt_type := oh_type option_header, opt_length := option_length\<rparr>)
                  (ucast option_length) (drop (unat i') buff)) (\<lambda>node.
             parse_options_loop current_options_size buff_size buff (opts @ [node])
               (options_i + 1) (i' + ucast option_length))))"
  by pat_completeness auto
termination
proof (relation "measure (\<lambda>(c, n, b, opts, k, i). 20 - unat k)", goal_cases)
  case 1
  then show ?case by simp
next
  case (2 c n b opts k i)
  then have "unat k < 20"
    by (simp add: FF_REQUEST_MAX_OPTIONS_def)
  then have "unat (k + 1) = Suc (unat k)"
    by (simp add: unat_plus_less)
  with \<open>unat k < 20\<close> show ?case by simp
qed

declare parse_options_loop.simps [simp del]

fun free_option_nodes :: "ff_request_option_node list \<Rightarrow> unit res" where
  "free_option_nodes [] = Inr ()"
| "free_option_nodes (node # nodes) =
     res_bind (ff_request_option_node_free node) (\<lambda>_. free_option_nodes nodes)"

definition ff_request_parse_options :: "ff_request \<Rightarrow> 32 word \<Rightarrow> block \<Rightarrow> (ff_request \<times> nat) res" where
  "ff_request_parse_options request buff_size buff =
     (let current_options_size = unat (options_length request) in
      res_bind (parse_options_loop current_options_size buff_size buff [] 0 0) (\<lambda>r.
        case r of
          Inl opts \<Rightarrow> res_bind (free_option_nodes opts) (\<lambda>_. Inr (request, 0))
        | Inr (contains, opts, i) \<Rightarrow>
            let request = request\<lparr>payload_contains_options := contains\<rparr> in
            if opts = [] then Inr (request, unat i)
            else Inr (request\<lparr>options_length := of_nat (current_options_size + length opts),
                              options := take current_options_size (options request) @ opts\<rparr>,
                      unat i)))"

section \<open>Chunks\<close>

definition receiving_fail :: "ff_request \<Rightarrow> ff_request" where
  "receiving_fail request = request\<lparr>state := FF_REQUEST_STATE_RECEIVING_FAIL\<rparr>"

definition ff_request_parse_raw_http :: "ff_request \<Rightarrow> 32 word \<Rightarrow> block \<Rightarrow> ff_request res" where
  "ff_request_parse_raw_http request buff_size buff =
     res_bind (ff_request_payload_load_buff
                 (ff_request_payload_node_alloc\<lparr>pl_length := ucast buff_size\<rparr>) buff_size buff) (\<lambda>node.
     Inr (request\<lparr>version := FF_VERSION_RAW, state := FF_REQUEST_STATE_RECEIVED,
                  payload_length := ucast buff_size, received_length := ucast buff_size,
                  payload := [node]\<rparr>))"

text \<open>The operands are 16-bit fields promoted to \<open>int\<close>: the sums do not wrap.\<close>

definition overlaps_existing_node :: "ff_request_payload_node \<Rightarrow> ff_request_payload_node \<Rightarrow> bool" where
  "overlaps_existing_node node current_node \<longleftrightarrow>
     unat (pl_offset node) < unat (pl_offset current_node) + unat (pl_length current_node) \<and>
     unat (pl_offset current_node) \<le> unat (pl_offset node) + unat (pl_length node)"

fun overlap_loop :: "ff_request_payload_node \<Rightarrow> ff_request_payload_node list \<Rightarrow> bool res" where
  "overlap_loop node [] = Inr False"
| "overlap_loop node (current_node # nodes) =
     (if \<not> pl_live current_node then Inl UseAfterFree
      else if overlaps_existing_node node current_node then Inr True
      else overlap_loop node nodes)"

text \<open>Lines 201 to 253: the node is built from the rest of the packet and linked at the end of
  the chain.\<close>

definition add_chunk :: "ff_request \<Rightarrow> 32 word \<Rightarrow> 16 word \<Rightarrow> 32 word \<Rightarrow> block \<Rightarrow> ff_request res" where
  "add_chunk request chunk_offset chunk_length buff_size buff =
     res_bind (ff_request_payload_load_buff
                 (ff_request_payload_node_alloc\<lparr>pl_offset := ucast chunk_offset, pl_length := chunk_length\<rparr>)
                 buff_size buff) (\<lambda>node.
     res_bind
       (if payload request = [] then
          Inr (Some (request\<lparr>payload := [node], received_length := ucast (pl_length node)\<rparr>))
        else
          res_bind (overlap_loop node (payload request)) (\<lambda>overlaps.
          Inr (if overlaps then None
               else Some (request\<lparr>payload := payload request @ [node],
                                  received_length := received_length request + ucast (pl_length node)\<rparr>))))
       (\<lambda>added.
        Inr (case added of
               None \<Rightarrow> receiving_fail request
             | Some request \<Rightarrow>
                 if received_length request = payload_length request
                 then request\<lparr>state := FF_REQUEST_STATE_RECEIVED\<rparr> else request)))"

definition ff_request_parse_data_chunk :: "ff_request \<Rightarrow> 32 word \<Rightarrow> block \<Rightarrow> ff_request res" where
  "ff_request_parse_data_chunk request buff_size buff =
     (if unat buff_size < header_size then Inr (receiving_fail request)
      else
        res_bind (load_header buff) (\<lambda>header.
        let i = header_size;
            chunk_version = ntohs (h_version header);
            chunk_request_id = ntohll (h_request_id header);
            total_length = ntohl (h_total_length header);
            chunk_offset = ntohl (h_chunk_offset header);
            chunk_length = ntohs (h_chunk_length header)
        in if version request \<noteq> FF_VERSION_1 then Inr (receiving_fail request)
           else if int (unat chunk_version) \<noteq> version request then Inr (receiving_fail request)
           else if chunk_request_id \<noteq> request_id request then Inr (receiving_fail request)
           else if ucast total_length \<noteq> payload_length request then Inr (receiving_fail request)
           else if ucast (chunk_offset + ucast chunk_length) > payload_length request
             then Inr (receiving_fail request)
           else if unat buff_size < i + option_header_size then Inr (receiving_fail request)
           else
             res_bind
               (if h_chunk_offset header = 0 then
                  res_bind (ff_request_parse_options request (of_nat (unat buff_size - i)) (drop i buff))
                    (\<lambda>(request, options_i).
                    Inr (if options_i = 0 then (receiving_fail request, None)
                         else (request, Some (i + options_i))))
                else
                  res_bind (load_option_header buff i) (\<lambda>option_header.
                  Inr (if oh_type option_header \<noteq> FF_REQUEST_OPTION_TYPE_EOL
                       then (receiving_fail request, None)
                       else (request, Some (i + option_header_size)))))
               (\<lambda>(request, parsed).
                case parsed of
                  None \<Rightarrow> Inr request
                | Some i \<Rightarrow>
                    if unat buff_size < i + unat chunk_length then Inr (receiving_fail request)
                    else add_chunk request chunk_offset chunk_length
                           (of_nat (unat buff_size - i)) (drop i buff))))"

definition ff_request_parse_first_chunk :: "ff_request \<Rightarrow> 32 word \<Rightarrow> block \<Rightarrow> ff_request res" where
  "ff_request_parse_first_chunk request buff_size buff =
     res_bind (ff_request_is_raw_http buff_size buff) (\<lambda>is_raw_http.
     if is_raw_http then ff_request_parse_raw_http request buff_size buff
     else if unat buff_size < header_size then Inr (receiving_fail request)
     else
       res_bind (load_header buff) (\<lambda>header.
       ff_request_parse_data_chunk
         (request\<lparr>version := int (unat (ntohs (h_version header))),
                  request_id := ntohll (h_request_id header),
                  payload_length := ucast (ntohl (h_total_length header))\<rparr>)
         buff_size buff))"

definition ff_request_parse_chunk :: "ff_request \<Rightarrow> 32 word \<Rightarrow> block \<Rightarrow> ff_request res" where
  "ff_request_parse_chunk request buff_size buff =
     (if version request = 0 then ff_request_parse_first_chunk request buff_size buff
      else ff_request_parse_data_chunk request buff_size buff)"

section \<open>Options in the payload\<close>

text \<open>
  The local variable \<open>payload\<close> aliases \<open>request->payload\<close>. On the error path the node is
  freed while the request still points to it; on the success path the request has been given
  the new node before the old one is freed.
\<close>

definition ff_request_parse_options_from_payload :: "ff_request \<Rightarrow> ff_request res" where
  "ff_request_parse_options_from_payload request =
     (case payload request of
        [] \<Rightarrow> Inl AssertFailed
      | node # nodes \<Rightarrow>
          if \<not> pl_live node then Inl UseAfterFree
          else if nodes \<noteq> [] then Inl AssertFailed
          else
            let request = request\<lparr>state := FF_REQUEST_STATE_PARSING_OPTIONS\<rparr>;
                error = (\<lambda>request. res_bind (ff_request_payload_node_free node) (\<lambda>freed.
                  Inr (request\<lparr>state := FF_REQUEST_STATE_PARSING_OPTIONS_FAILED, payload := [freed]\<rparr>)))
            in if \<not> payload_contains_options request
               then Inr (request\<lparr>state := FF_REQUEST_STATE_PARSED_OPTIONS\<rparr>)
               else
                 res_bind (ff_request_parse_options request (ucast (pl_length node)) (pl_value node))
                   (\<lambda>(request, opts_len).
                   if opts_len = 0
                   then Inr (request\<lparr>state := FF_REQUEST_STATE_PARSING_OPTIONS_FAILED\<rparr>)
                   else if unat (pl_length node) \<le> opts_len then error request
                   else if payload_contains_options request then error request
                   else
                     let new_length = of_nat (unat (pl_length node) - opts_len) :: 16 word in
                     res_bind (ff_request_payload_load_buff
                                 (ff_request_payload_node_alloc\<lparr>pl_length := new_length\<rparr>)
                                 (ucast new_length) (drop opts_len (pl_value node))) (\<lambda>new_payload.
                     res_bind (ff_request_payload_node_free node) (\<lambda>_.
                     Inr (request\<lparr>state := FF_REQUEST_STATE_PARSED_OPTIONS, payload := [new_payload],
                                  payload_length := ucast (pl_length new_payload)\<rparr>)))))"

section \<open>Loading from a packet\<close>

lemma strncmp_eq_bytes:
  "i + length s \<le> length bs \<Longrightarrow>
     strncmp_eq s (bytes bs @ rest) i = Inr (map of_char s = take (length s) (drop i bs))"
proof (induction s arbitrary: i)
  case Nil
  then show ?case by simp
next
  case (Cons c s)
  then have "drop i bs = bs ! i # drop (Suc i) bs"
    by (simp add: Cons_nth_drop_Suc)
  with Cons show ?case by (simp add: block_read_bytes)
qed

lemma raw_http_loop_bytes:
  "unat n \<le> length bs \<Longrightarrow>
     \<exists>r. raw_http_loop ms n (bytes bs @ rest) = Inr r \<and>
       (r \<longrightarrow> (\<exists>m\<in>set ms. length m \<le> unat n \<and> map of_char m = take (length m) bs))"
  by (induction ms) (auto simp: strncmp_eq_bytes)

lemma is_raw_http_bytes:
  assumes "unat n \<le> length bs"
  shows "\<exists>r. ff_request_is_raw_http n (bytes bs @ rest) = Inr r \<and>
    (r \<longrightarrow> (\<exists>m\<in>set HTTP_METHODS. length m \<le> unat n \<and> map of_char m = take (length m) bs))"
  using raw_http_loop_bytes [OF assms, of HTTP_METHODS rest]
  by (cases "n = 0") (auto simp: ff_request_is_raw_http_def)

lemma load_header_bytes:
  "20 \<le> length bs \<Longrightarrow> load_header (bytes bs @ rest) =
     Inr \<lparr>h_version = load_le (take 2 bs), h_request_id = load_le (take 8 (drop 2 bs)),
          h_total_length = load_le (take 4 (drop 10 bs)), h_chunk_offset = load_le (take 4 (drop 14 bs)),
          h_chunk_length = load_le (take 2 (drop 18 bs))\<rparr>"
  by (simp add: load_header_def load_field_bytes)

lemma load_option_header_bytes:
  "i + 3 \<le> length bs \<Longrightarrow> load_option_header (bytes bs @ rest) i =
     Inr \<lparr>oh_type = bs ! i, oh_length = load_le (take 2 (drop (i + 1) bs))\<rparr>"
  by (simp add: load_option_header_def load_field_bytes block_read_bytes)

section \<open>The wire format\<close>

definition wire_header :: "16 word \<Rightarrow> 64 word \<Rightarrow> 32 word \<Rightarrow> 32 word \<Rightarrow> 16 word \<Rightarrow> byte list" where
  "wire_header v r t c l = store_be 2 v @ store_be 8 r @ store_be 4 t @ store_be 4 c @ store_be 2 l"

fun wire_option :: "byte \<times> byte list \<Rightarrow> byte list" where
  "wire_option (t, val) = t # store_be 2 (of_nat (length val) :: 16 word) @ val"

definition wire_options :: "(byte \<times> byte list) list \<Rightarrow> byte \<Rightarrow> byte list" where
  "wire_options opts t = concat (map wire_option opts) @ [t, 0, 0]"

lemma length_wire_header [simp]: "length (wire_header v r t c l) = 20"
  by (simp add: wire_header_def)

lemma store_le_eq_zero_iff: "load_le (store_be 4 (c :: 32 word)) = (0 :: 32 word) \<longleftrightarrow> c = 0"
proof
  assume "load_le (store_be 4 c) = (0 :: 32 word)"
  then have "store_le 4 (load_le (store_be 4 c) :: 32 word) = store_le 4 (0 :: 32 word)"
    by simp
  then have "store_be 4 c = store_le 4 (0 :: 32 word)"
    using store_load_le [of "store_be 4 c", where 'a = 32] by simp
  also have "\<dots> = store_be 4 (0 :: 32 word)"
    by (simp add: store_be_def store_le_def upt_rec)
  finally have "load_be (store_be 4 c) = (load_be (store_be 4 (0 :: 32 word)) :: 32 word)"
    by simp
  then show "c = 0" by simp
qed (simp add: store_be_def store_le_def upt_rec)

lemma load_header_wire:
  obtains h where "load_header (bytes (wire_header v r t c l) @ rest) = Inr h"
    "ntohs (h_version h) = v" "ntohll (h_request_id h) = r" "ntohl (h_total_length h) = t"
    "ntohl (h_chunk_offset h) = c" "ntohs (h_chunk_length h) = l" "h_chunk_offset h = 0 \<longleftrightarrow> c = 0"
  by (rule that [OF load_header_bytes])
    (simp_all add: wire_header_def byte_order store_le_eq_zero_iff)

text \<open>A packet of version 1 starts with a zero byte, so it is never taken for raw HTTP.\<close>

lemma version_1_not_raw:
  assumes "unat n \<le> length (0 # bs)"
  shows "ff_request_is_raw_http n (bytes (0 # bs) @ rest) = Inr False"
proof -
  obtain r where r: "ff_request_is_raw_http n (bytes (0 # bs) @ rest) = Inr r"
      "r \<longrightarrow> (\<exists>m\<in>set HTTP_METHODS. length m \<le> unat n \<and> map of_char m = take (length m) (0 # bs))"
    using is_raw_http_bytes [OF assms] by blast
  have "\<not> r"
    using r(2) by (auto simp: HTTP_METHODS_def)
  with r show ?thesis by simp
qed

end
