(* ===== verification/Parser_Options.thy ===== *)
theory Parser_Options
  imports Parser
begin

text \<open>
  The option loop of \<open>ff_request_parse_options\<close>: it never faults on a readable buffer, never
  runs past it, never stores more than its local array holds, and reads back the options a
  sender wrote.
\<close>

section \<open>Safety of the option loop\<close>

text \<open>A parsed option: a live node whose value holds \<open>opt_length\<close> initialised bytes.\<close>

definition option_ok :: "ff_request_option_node \<Rightarrow> bool" where
  "option_ok node \<longleftrightarrow> opt_live node \<and> readable (opt_value node) (unat (opt_length node))"

lemma option_load_buff_bytes:
  assumes "i + unat l \<le> length bs"
  obtains node where
    "ff_request_option_load_buff (ff_request_option_node_alloc\<lparr>opt_type := t, opt_length := l\<rparr>)
       (ucast l) (drop i (bytes bs @ rest)) = Inr node"
    "node = \<lparr>opt_type = t, opt_length = l,
       opt_value = bytes (take (unat l) (drop i bs)) @ block_alloc (unat l * 7), opt_live = True\<rparr>"
    "option_ok node"
proof
  let ?val = "take (unat l) (drop i bs)"
  let ?node = "\<lparr>opt_type = t, opt_length = l,
       opt_value = bytes ?val @ block_alloc (unat l * 7), opt_live = True\<rparr>"
  have len: "length ?val = unat l" using assms by simp
  have "bytes (drop i bs) = bytes ?val @ bytes (drop (unat l) (drop i bs))"
    by (simp only: append_take_drop_id flip: bytes_simps)
  then have "load_buff (ucast l) (drop i (bytes bs @ rest)) = Inr (bytes ?val @ block_alloc (unat l * 7))"
    using assms len load_buff_bytes [of "ucast l" ?val "bytes (drop (unat l) (drop i bs)) @ rest"]
    by simp
  then show "ff_request_option_load_buff (ff_request_option_node_alloc\<lparr>opt_type := t, opt_length := l\<rparr>)
       (ucast l) (drop i (bytes bs @ rest)) = Inr ?node"
    by (simp add: ff_request_option_load_buff_def ff_request_option_node_alloc_def)
  show "option_ok ?node"
    using len by (simp add: option_ok_def)
qed simp

lemma free_option_nodes_safe: "free_option_nodes nodes = Inr () \<longleftrightarrow> list_all opt_live nodes"
  by (induction nodes) (auto simp: ff_request_option_node_free_def res_simps)

definition options_result_ok ::
  "nat \<Rightarrow> nat \<Rightarrow> nat \<Rightarrow> ff_request_option_node list + (bool \<times> ff_request_option_node list \<times> 32 word) \<Rightarrow> bool" where
  "options_result_ok c n i r \<longleftrightarrow>
     (case r of
        Inl opts \<Rightarrow> list_all option_ok opts
      | Inr (_, opts, i') \<Rightarrow>
          list_all option_ok opts \<and> c + length opts < FF_REQUEST_MAX_OPTIONS \<and>
          i + option_header_size \<le> unat i' \<and> unat i' \<le> n)"

lemma parse_options_loop_safe:
  assumes "unat n \<le> length bs" and "unat n < 2 ^ 31"
    and "unat i \<le> unat n" and "unat k = length opts" and "list_all option_ok opts"
  shows "\<exists>r. parse_options_loop c n (bytes bs @ rest) opts k i = Inr r \<and> options_result_ok c (unat n) (unat i) r"
  using assms
proof (induction c n "bytes bs @ rest" opts k i rule: parse_options_loop.induct)
  case (1 c n opts k i)
  note loop = parse_options_loop.simps [of c n "bytes bs @ rest" opts k i]
  show ?case
  proof (cases "c + unat k < 20 \<and> unat i + 3 \<le> unat n")
    case False
    then show ?thesis
      using 1 by (auto simp: loop FF_REQUEST_MAX_OPTIONS_def option_header_size_def options_result_ok_def)
  next
    case True
    let ?h = "\<lparr>oh_type = bs ! unat i, oh_length = load_le (take 2 (drop (unat i + 1) bs))\<rparr>"
    let ?l = "ntohs (oh_length ?h)" and ?i = "i + 3"
    have h: "load_option_header (bytes bs @ rest) (unat i) = Inr ?h"
      using True 1 by (intro load_option_header_bytes) simp
    have i3: "unat ?i = unat i + 3"
      using True 1 by (subst unat_plus_less) simp_all
    have il: "unat (?i + ucast ?l) = unat i + 3 + unat ?l"
      using True 1(3) i3 unat_lt_16 [of ?l] by (subst unat_plus_less) simp_all
    have stop: "options_result_ok c (unat n) (unat i) (Inr (b, opts, ?i))" for b
      using True 1 i3 by (simp add: options_result_ok_def FF_REQUEST_MAX_OPTIONS_def option_header_size_def)
    show ?thesis
    proof (cases "oh_type ?h = FF_REQUEST_OPTION_TYPE_BREAK \<or> oh_type ?h = FF_REQUEST_OPTION_TYPE_EOL \<or> n < ?i + ucast ?l")
      case stops: True
      then show ?thesis
        using True 1 h stop [of True] stop [of False]
        by (auto simp: loop FF_REQUEST_MAX_OPTIONS_def option_header_size_def Let_def options_result_ok_def)
    next
      case go: False
      then have fits: "unat i + 3 + unat ?l \<le> unat n"
        using il by (simp add: word_less_nat_alt)
      obtain node where node: "ff_request_option_load_buff
          (ff_request_option_node_alloc\<lparr>opt_type := oh_type ?h, opt_length := ?l\<rparr>)
          (ucast ?l) (drop (unat ?i) (bytes bs @ rest)) = Inr node" "option_ok node"
        by (rule option_load_buff_bytes [of "unat ?i" ?l bs "oh_type ?h" rest])
          (use fits 1 i3 in auto)
      have k1: "unat (k + 1) = Suc (unat k)"
        using True by (simp add: unat_plus_less)
      have step: "parse_options_loop c n (bytes bs @ rest) opts k i =
          parse_options_loop c n (bytes bs @ rest) (opts @ [node]) (k + 1) (?i + ucast ?l)"
        using True go h node(1) by (simp add: loop FF_REQUEST_MAX_OPTIONS_def option_header_size_def Let_def)
      have "\<exists>r. parse_options_loop c n (bytes bs @ rest) (opts @ [node]) (k + 1) (?i + ucast ?l) = Inr r \<and>
          options_result_ok c (unat n) (unat (?i + ucast ?l)) r"
        using 1(1) [of ?h ?l ?i node] True go h node 1(2-) fits il k1
        by (simp add: FF_REQUEST_MAX_OPTIONS_def option_header_size_def)
      then show ?thesis
        unfolding step using il by (auto simp: options_result_ok_def split: sum.splits)
    qed
  qed
qed

section \<open>Reading back what a sender wrote\<close>

definition option_node :: "byte \<times> byte list \<Rightarrow> ff_request_option_node" where
  "option_node o' = \<lparr>opt_type = fst o', opt_length = of_nat (length (snd o')),
     opt_value = bytes (snd o') @ block_alloc (length (snd o') * 7), opt_live = True\<rparr>"

definition wire_option_ok :: "byte \<times> byte list \<Rightarrow> bool" where
  "wire_option_ok o' \<longleftrightarrow>
     fst o' \<noteq> FF_REQUEST_OPTION_TYPE_EOL \<and> fst o' \<noteq> FF_REQUEST_OPTION_TYPE_BREAK \<and>
     length (snd o') < 2 ^ 16"

lemma length_wire_option: "length (wire_option o') = 3 + length (snd o')"
  by (cases o') simp

lemma wire_options_simps:
  "wire_options [] t = [t, 0, 0]"
  "wire_options (w # ws) t = wire_option w @ wire_options ws t"
  by (simp_all add: wire_options_def)

lemma load_option_header_wire:
  assumes "unat i = length pre"
  shows "load_option_header (bytes (pre @ t # store_be 2 (l :: 16 word) @ post) @ rest) (unat i)
    = Inr \<lparr>oh_type = t, oh_length = load_le (store_be 2 l)\<rparr>"
  using assms
  by (subst load_option_header_bytes) (simp_all add: nth_append)

lemma parse_options_loop_terminator:
  assumes "c + unat k < FF_REQUEST_MAX_OPTIONS" and "unat i = length pre" and "length pre + 3 \<le> unat n"
    and "t = FF_REQUEST_OPTION_TYPE_EOL \<or> t = FF_REQUEST_OPTION_TYPE_BREAK"
  shows "parse_options_loop c n (bytes (pre @ [t, 0, 0] @ post) @ rest) opts k i
    = Inr (Inr (t = FF_REQUEST_OPTION_TYPE_BREAK, opts, i + 3))"
proof -
  have zero: "[0, 0] = store_be 2 (0 :: 16 word)"
    by (simp add: store_be_def store_le_def upt_rec)
  have "ntohs (load_le (store_be 2 (0 :: 16 word))) = 0"
    by (simp add: ntohs_load)
  then show ?thesis
    using assms load_option_header_wire [of i pre t 0 post rest]
    by (subst parse_options_loop.simps)
      (auto simp: zero option_header_size_def Let_def option_type_defs)
qed

lemma parse_options_loop_option:
  assumes "c + unat k < FF_REQUEST_MAX_OPTIONS" and "unat i = length pre" and "unat n < 2 ^ 31"
    and "length pre + length (wire_option w) \<le> unat n" and "wire_option_ok w"
  shows "parse_options_loop c n (bytes (pre @ wire_option w @ post) @ rest) opts k i
    = parse_options_loop c n (bytes (pre @ wire_option w @ post) @ rest) (opts @ [option_node w]) (k + 1)
        (i + of_nat (length (wire_option w)))"
proof -
  obtain t val where w: "w = (t, val)" by (cases w)
  let ?l = "of_nat (length val) :: 16 word" and ?bs = "pre @ wire_option w @ post" and ?i = "i + 3 :: 32 word"
  have l: "unat ?l = length val"
    using assms(5) w by (simp add: wire_option_ok_def unat_of_nat_16)
  have hdr: "load_option_header (bytes ?bs @ rest) (unat i) = Inr \<lparr>oh_type = t, oh_length = load_le (store_be 2 ?l)\<rparr>"
    using load_option_header_wire [of i pre t ?l "val @ post" rest] assms(2) w by simp
  have i3: "unat ?i = length pre + 3"
    using assms w by (subst unat_plus_less) simp_all
  have il: "unat (?i + ucast ?l) = length pre + 3 + length val"
    using assms i3 l w by (subst unat_plus_less) simp_all
  have "take (length val) (drop (length pre + 3) ?bs) = val"
    using w by (simp add: store_be_def store_le_def upt_rec)
  then have node: "ff_request_option_load_buff
      (ff_request_option_node_alloc\<lparr>opt_type := t, opt_length := ?l\<rparr>)
      (ucast ?l) (drop (unat ?i) (bytes ?bs @ rest)) = Inr (option_node w)"
    using option_load_buff_bytes [of "unat ?i" ?l ?bs t rest] i3 l w
    by (fastforce simp: option_node_def)
  have "\<not> n < ?i + ucast ?l"
    using il assms(4) w by (simp add: word_less_nat_alt)
  moreover have "?i + ucast ?l = i + of_nat (length (wire_option w))"
    using w l by (simp add: word_unat_eq_iff unat_word_ariths unat_of_nat mod_simps add.assoc)
  moreover have "ntohs (load_le (store_be 2 ?l)) = ?l"
    by (simp add: ntohs_load)
  ultimately show ?thesis
    using assms hdr node w
    by (subst parse_options_loop.simps)
      (simp add: option_header_size_def Let_def wire_option_ok_def add.assoc)
qed

lemma parse_options_loop_wire:
  assumes "c + unat k + length ws < FF_REQUEST_MAX_OPTIONS" and "unat i = length pre" and "unat n < 2 ^ 31"
    and "length pre + length (wire_options ws t) \<le> unat n" and "list_all wire_option_ok ws"
    and "t = FF_REQUEST_OPTION_TYPE_EOL \<or> t = FF_REQUEST_OPTION_TYPE_BREAK"
  shows "parse_options_loop c n (bytes (pre @ wire_options ws t @ post) @ rest) opts k i
    = Inr (Inr (t = FF_REQUEST_OPTION_TYPE_BREAK, opts @ map option_node ws,
                i + of_nat (length (wire_options ws t))))"
  using assms
proof (induction ws arbitrary: opts k i pre)
  case Nil
  then show ?case
    using parse_options_loop_terminator [of c k i pre n t post rest opts]
    by (simp add: wire_options_simps)
next
  case (Cons w ws)
  let ?i = "i + of_nat (length (wire_option w)) :: 32 word"
  have k1: "unat (k + 1) = Suc (unat k)"
    using Cons.prems(1) by (subst unat_plus_less) (simp_all add: FF_REQUEST_MAX_OPTIONS_def)
  have len: "length (wire_option w) + length pre < 2 ^ 31"
    using Cons.prems by (simp add: wire_options_simps)
  then have i': "unat ?i = length (pre @ wire_option w)"
    using Cons.prems(2) by (subst unat_plus_less) (simp_all add: unat_of_nat)
  have "parse_options_loop c n (bytes (pre @ wire_options (w # ws) t @ post) @ rest) opts k i
      = parse_options_loop c n (bytes (pre @ wire_option w @ (wire_options ws t @ post)) @ rest)
          (opts @ [option_node w]) (k + 1) ?i"
    using Cons.prems parse_options_loop_option [of c k i pre n w "wire_options ws t @ post" rest opts]
    by (simp add: wire_options_simps)
  also have "\<dots> = parse_options_loop c n (bytes ((pre @ wire_option w) @ wire_options ws t @ post) @ rest)
          (opts @ [option_node w]) (k + 1) ?i"
    by simp
  also have "\<dots> = Inr (Inr (t = FF_REQUEST_OPTION_TYPE_BREAK, (opts @ [option_node w]) @ map option_node ws,
      ?i + of_nat (length (wire_options ws t))))"
    using Cons.prems k1 by (intro Cons.IH [OF _ i']) (simp_all add: wire_options_simps)
  finally show ?case
    by (simp add: wire_options_simps add.assoc)
qed

end
