(* ===== verification/Parser_Chunks.thy ===== *)
theory Parser_Chunks
  imports Parser_Options
begin

text \<open>
  Chunk parsing: the invariant of a request under construction, that every packet keeps it
  without a fault, and the exact effect of a chunk.
\<close>

section \<open>The invariant of a request being received\<close>

definition node_ok :: "ff_request_payload_node \<Rightarrow> bool" where
  "node_ok node \<longleftrightarrow> pl_live node \<and> readable (pl_value node) (unat (pl_length node))"

definition options_ok :: "ff_request \<Rightarrow> bool" where
  "options_ok request \<longleftrightarrow>
     unat (options_length request) = length (options request) \<and>
     list_all option_ok (options request) \<and> length (options request) < FF_REQUEST_MAX_OPTIONS"

abbreviation disjoint_spans :: "ff_request_payload_node list \<Rightarrow> bool" where
  "disjoint_spans nodes \<equiv> sorted_wrt (\<lambda>a b. span a \<inter> span b = {}) nodes"

definition payload_ok :: "ff_request \<Rightarrow> bool" where
  "payload_ok request \<longleftrightarrow>
     list_all node_ok (payload request) \<and> disjoint_spans (payload request) \<and>
     unat (received_length request) = (\<Sum>node\<leftarrow>payload request. unat (pl_length node))"

definition request_ok :: "ff_request \<Rightarrow> bool" where
  "request_ok request \<longleftrightarrow> options_ok request \<and> payload_ok request"

lemma request_ok_alloc: "request_ok ff_request_alloc"
  by (simp add: request_ok_def options_ok_def payload_ok_def ff_request_alloc_def FF_REQUEST_MAX_OPTIONS_def)

lemma request_ok_state [simp]:
  "request_ok (request\<lparr>state := s\<rparr>) = request_ok request"
  "request_ok (receiving_fail request) = request_ok request"
  by (simp_all add: request_ok_def options_ok_def payload_ok_def receiving_fail_def)

lemma request_ok_header [simp]:
  "request_ok (request\<lparr>version := v, request_id := r, payload_length := p\<rparr>) = request_ok request"
  by (simp add: request_ok_def options_ok_def payload_ok_def)

lemma options_ok_live: "options_ok request \<Longrightarrow> options_live request"
  by (auto simp: options_ok_def options_live_def option_ok_def list_all_iff)

lemma request_ok_free: "request_ok request \<Longrightarrow> ff_request_free request = Inr ()"
  by (auto simp: ff_request_free_safe options_ok_live request_ok_def payload_ok_def node_ok_def list_all_iff)

section \<open>Parsing options keeps the invariant\<close>

lemma parse_options_safe:
  assumes ok: "options_ok request" and n: "unat n \<le> length bs" "unat n < 2 ^ 31"
  obtains request' m where "ff_request_parse_options request n (bytes bs @ rest) = Inr (request', m)"
    "m \<le> unat n" "options_ok request'"
    "\<exists>ol os b. request' = request\<lparr>options_length := ol, options := os, payload_contains_options := b\<rparr>"
proof -
  let ?c = "unat (options_length request)"
  obtain r where loop: "parse_options_loop ?c n (bytes bs @ rest) [] 0 0 = Inr r"
      and r: "options_result_ok ?c (unat n) 0 r"
    using parse_options_loop_safe [of n bs 0 0 "[]" ?c rest] n by auto
  show thesis
  proof (cases r)
    case (Inl opts)
    then have "free_option_nodes opts = Inr ()"
      using r by (auto simp: options_result_ok_def free_option_nodes_safe option_ok_def list_all_iff)
    then have "ff_request_parse_options request n (bytes bs @ rest) = Inr (request, 0)"
      using loop Inl by (simp add: ff_request_parse_options_def)
    moreover have "\<exists>ol os b. request = request\<lparr>options_length := ol, options := os, payload_contains_options := b\<rparr>"
      by (intro exI [of _ "options_length request"] exI [of _ "options request"]
          exI [of _ "payload_contains_options request"]) simp
    ultimately show thesis
      using ok by (intro that [of request 0]) simp_all
  next
    case (Inr p)
    obtain b opts i where p: "p = (b, opts, i)" by (cases p)
    have props: "list_all option_ok opts" "?c + length opts < 20" "unat i \<le> unat n"
      using r Inr p by (simp_all add: options_result_ok_def FF_REQUEST_MAX_OPTIONS_def)
    let ?request = "if opts = [] then request\<lparr>payload_contains_options := b\<rparr>
      else request\<lparr>payload_contains_options := b, options_length := of_nat (?c + length opts),
                   options := take ?c (options request) @ opts\<rparr>"
    have "ff_request_parse_options request n (bytes bs @ rest) = Inr (?request, unat i)"
      using loop Inr p by (simp add: ff_request_parse_options_def Let_def)
    moreover have "options_ok ?request"
      using ok props unat_of_nat_8 [of "?c + length opts"]
      by (auto simp: options_ok_def FF_REQUEST_MAX_OPTIONS_def simp del: of_nat_add)
    moreover have "\<exists>ol os b. ?request = request\<lparr>options_length := ol, options := os, payload_contains_options := b\<rparr>"
      by (cases request) auto
    ultimately show thesis
      using props by (intro that [of ?request "unat i"])
  qed
qed

section \<open>Adding a chunk\<close>

text \<open>The node that \<open>parse_data_chunk\<close> builds: the offset loses its upper 16 bits.\<close>

definition chunk_node :: "32 word \<Rightarrow> 16 word \<Rightarrow> 32 word \<Rightarrow> block \<Rightarrow> ff_request_payload_node" where
  "chunk_node chunk_offset chunk_length n buff =
     \<lparr>pl_offset = ucast chunk_offset, pl_length = chunk_length,
      pl_value = take (unat n) buff @ block_alloc (unat n * 7), pl_live = True\<rparr>"

lemma overlap_loop_eq:
  "list_all pl_live nodes \<Longrightarrow>
     overlap_loop node nodes = Inr (\<exists>cur\<in>set nodes. overlaps_existing_node node cur)"
  by (induction nodes) auto

lemma overlaps_disjoint:
  "\<not> overlaps_existing_node node cur \<Longrightarrow> span cur \<inter> span node = {}"
  by (auto simp: overlaps_existing_node_def span_def)

lemma add_chunk_eq:
  assumes "payload_ok request" and "unat n \<le> length buff"
  shows "add_chunk request c l n buff = Inr
    (if \<exists>cur\<in>set (payload request). overlaps_existing_node (chunk_node c l n buff) cur
     then receiving_fail request
     else let request = request\<lparr>payload := payload request @ [chunk_node c l n buff],
                                received_length := received_length request + ucast l\<rparr>
          in if received_length request = payload_length request
             then request\<lparr>state := FF_REQUEST_STATE_RECEIVED\<rparr> else request)"
proof -
  have live: "list_all pl_live (payload request)"
    using assms(1) by (auto simp: payload_ok_def node_ok_def list_all_iff)
  have node: "ff_request_payload_load_buff
      (ff_request_payload_node_alloc\<lparr>pl_offset := ucast c, pl_length := l\<rparr>) n buff = Inr (chunk_node c l n buff)"
    using assms(2) load_buff_eq_Inr [of n buff "take (unat n) buff @ block_alloc (unat n * 7)"]
    by (simp add: ff_request_payload_load_buff_def ff_request_payload_node_alloc_def chunk_node_def)
  have zero: "payload request = [] \<Longrightarrow> received_length request = 0"
    using assms(1) by (simp add: payload_ok_def unat_eq_zero)
  show ?thesis
    using zero by (simp add: add_chunk_def node overlap_loop_eq [OF live] Let_def)
      (simp add: chunk_node_def)
qed

lemma disjoint_spans_sum: "disjoint_spans nodes \<Longrightarrow> (\<Sum>node\<leftarrow>nodes. unat (pl_length node)) < 2 ^ 17"
proof -
  assume "disjoint_spans nodes"
  then have "(\<Sum>node\<leftarrow>nodes. unat (pl_length node)) = card (\<Union>(span ` set nodes))"
    by (simp add: card_disjoint_spans)
  also have "\<dots> \<le> card {..<131071 :: nat}"
  proof (rule card_mono)
    show "\<Union>(span ` set nodes) \<subseteq> {..<131071}"
    proof clarify
      fix j node assume "j \<in> span node"
      then show "j < 131071"
        using unat_lt_16 [of "pl_offset node"] unat_lt_16 [of "pl_length node"] by (simp add: span_def)
    qed
  qed simp
  finally show ?thesis by simp
qed

lemma payload_ok_append:
  assumes ok: "payload_ok request" and node: "node_ok node"
    and disj: "\<forall>cur\<in>set (payload request). \<not> overlaps_existing_node node cur"
  shows "payload_ok (request\<lparr>payload := payload request @ [node],
    received_length := received_length request + ucast (pl_length node)\<rparr>)"
proof -
  have "disjoint_spans (payload request @ [node])"
    using ok disj by (auto simp: payload_ok_def sorted_wrt_append overlaps_disjoint)
  moreover from this have "(\<Sum>n\<leftarrow>payload request. unat (pl_length n)) + unat (pl_length node) < 2 ^ 17"
    using disjoint_spans_sum [of "payload request @ [node]"] by simp
  then have "unat (received_length request + ucast (pl_length node))
      = unat (received_length request) + unat (pl_length node)"
    using ok by (subst unat_plus_less) (simp_all add: payload_ok_def)
  ultimately show ?thesis
    using ok node by (simp add: payload_ok_def)
qed

lemma add_chunk_safe:
  assumes ok: "request_ok request" and len: "unat l \<le> unat n" "unat n \<le> length bs"
  obtains request' where "add_chunk request c l n (bytes bs @ rest) = Inr request'" "request_ok request'"
proof (cases "\<exists>cur\<in>set (payload request). overlaps_existing_node (chunk_node c l n (bytes bs @ rest)) cur")
  case True
  have "payload_ok request" using ok by (simp add: request_ok_def)
  then show ?thesis
    using True ok len add_chunk_eq [of request n "bytes bs @ rest" c l]
    by (intro that [of "receiving_fail request"]) simp_all
next
  case False
  let ?node = "chunk_node c l n (bytes bs @ rest)"
  let ?request = "request\<lparr>payload := payload request @ [?node],
    received_length := received_length request + ucast l\<rparr>"
  have "node_ok ?node"
    using len by (simp add: node_ok_def chunk_node_def)
  then have "payload_ok ?request"
    using payload_ok_append [of request ?node] ok False by (simp add: request_ok_def chunk_node_def)
  then have "request_ok ?request"
    using ok by (simp add: request_ok_def options_ok_def)
  then have "request_ok (if received_length ?request = payload_length ?request
     then ?request\<lparr>state := FF_REQUEST_STATE_RECEIVED\<rparr> else ?request)"
    by (simp only: request_ok_state simp_thms split: if_splits)
  moreover have "add_chunk request c l n (bytes bs @ rest) = Inr
    (if received_length ?request = payload_length ?request
     then ?request\<lparr>state := FF_REQUEST_STATE_RECEIVED\<rparr> else ?request)"
    using ok len False add_chunk_eq [of request n "bytes bs @ rest" c l] by (simp add: request_ok_def Let_def)
  ultimately show ?thesis
    by (intro that)
qed

section \<open>No packet makes the parser fault\<close>

lemma drop_bytes_append: "k \<le> length bs \<Longrightarrow> drop k (bytes bs @ rest) = bytes (drop k bs) @ rest"
  by simp

lemma parse_data_chunk_safe:
  assumes ok: "request_ok request" and n: "unat n \<le> length bs" "unat n < 2 ^ 31"
  obtains request' where "ff_request_parse_data_chunk request n (bytes bs @ rest) = Inr request'"
    "request_ok request'"
proof (cases "unat n < 23")
  case True
  have "\<exists>r. ff_request_parse_data_chunk request n (bytes bs @ rest) = Inr r \<and> request_ok r"
  proof (cases "unat n < 20")
    case True
    then show ?thesis
      using ok by (simp add: ff_request_parse_data_chunk_def header_size_def)
  next
    case False
    then show ?thesis
      using True n ok
      by (auto simp: ff_request_parse_data_chunk_def header_size_def option_header_size_def
          load_header_bytes Let_def)
  qed
  with that show thesis by blast
next
  case False
  let ?buff = "bytes bs @ rest" and ?n = "of_nat (unat n - 20) :: 32 word"
  have n20: "unat ?n = unat n - 20"
    using n by (intro unat_of_nat_32) simp
  obtain h where h: "load_header ?buff = Inr h"
    using False n by (simp add: load_header_bytes)
  let ?c = "ntohl (h_chunk_offset h)" and ?l = "ntohs (h_chunk_length h)"
  have add: "\<exists>r. (if unat n < i + unat ?l then Inr (receiving_fail q)
      else add_chunk q ?c ?l (of_nat (unat n - i)) (drop i ?buff)) = Inr r \<and> request_ok r"
    if q: "request_ok q" and i: "i \<le> unat n" for q i
  proof (cases "unat n < i + unat ?l")
    case True
    then show ?thesis using q by simp
  next
    case False
    have ni: "unat (of_nat (unat n - i) :: 32 word) = unat n - i"
      using n by (intro unat_of_nat_32) simp
    obtain r where "add_chunk q ?c ?l (of_nat (unat n - i)) (bytes (drop i bs) @ rest) = Inr r" "request_ok r"
      by (rule add_chunk_safe [OF q, of ?l "of_nat (unat n - i)" "drop i bs" ?c rest])
        (use ni False n in \<open>simp_all del: of_nat_diff\<close>)
    then show ?thesis
      using False n i by (simp add: drop_bytes_append)
  qed
  obtain request1 m where opts: "ff_request_parse_options request ?n (bytes (drop 20 bs) @ rest) = Inr (request1, m)"
      "m \<le> unat ?n" "options_ok request1"
      and frame: "\<exists>ol os b. request1 = request\<lparr>options_length := ol, options := os, payload_contains_options := b\<rparr>"
    by (rule parse_options_safe [of request ?n "drop 20 bs" rest])
      (use ok n n20 in \<open>auto simp: request_ok_def\<close>)
  have ok1: "request_ok request1"
    using ok opts(3) frame by (auto simp: request_ok_def payload_ok_def)
  obtain oh where oh: "load_option_header ?buff 20 = Inr oh"
    using False n by (simp add: load_option_header_bytes)
  have "\<exists>r. ff_request_parse_data_chunk request n ?buff = Inr r \<and> request_ok r"
    using False n ok h opts oh ok1 add [OF ok1, of "20 + m"] add [OF ok, of 23] n20
    by (simp add: ff_request_parse_data_chunk_def header_size_def option_header_size_def Let_def drop_bytes_append)
  with that show thesis by blast
qed

lemma parse_raw_http_safe:
  assumes ok: "request_ok request" and n: "unat n \<le> length bs" "unat n < 2 ^ 16"
  obtains request' where "ff_request_parse_raw_http request n (bytes bs @ rest) = Inr request'"
    "request_ok request'"
proof
  let ?node = "chunk_node 0 (ucast n) n (bytes bs @ rest)"
  let ?request = "request\<lparr>version := FF_VERSION_RAW, state := FF_REQUEST_STATE_RECEIVED,
    payload_length := ucast n, received_length := ucast n, payload := [?node]\<rparr>"
  show "ff_request_parse_raw_http request n (bytes bs @ rest) = Inr ?request"
    using n load_buff_eq_Inr [of n "bytes bs @ rest" "take (unat n) (bytes bs @ rest) @ block_alloc (unat n * 7)"]
    by (simp add: ff_request_parse_raw_http_def ff_request_payload_load_buff_def
        ff_request_payload_node_alloc_def chunk_node_def)
  show "request_ok ?request"
    using ok n by (simp add: request_ok_def options_ok_def payload_ok_def node_ok_def chunk_node_def)
qed

lemma parse_chunk_safe:
  assumes ok: "request_ok request" and n: "unat n \<le> length bs" "unat n < 2 ^ 16"
  obtains request' where "ff_request_parse_chunk request n (bytes bs @ rest) = Inr request'"
    "request_ok request'"
proof (cases "version request = 0")
  case False
  obtain r where "ff_request_parse_data_chunk request n (bytes bs @ rest) = Inr r" "request_ok r"
    using parse_data_chunk_safe [OF ok n(1)] n(2) by auto
  then show thesis
    using False by (intro that [of r]) (simp_all add: ff_request_parse_chunk_def)
next
  case True
  obtain raw where raw: "ff_request_is_raw_http n (bytes bs @ rest) = Inr raw"
    using is_raw_http_bytes [OF n(1)] by blast
  show thesis
  proof (cases "raw \<or> unat n < 20")
    case stop: True
    obtain r where "ff_request_parse_raw_http request n (bytes bs @ rest) = Inr r" "request_ok r"
      using parse_raw_http_safe [OF ok n] by blast
    then show thesis
      using raw stop True ok
      by (intro that [of "if raw then r else receiving_fail request"])
        (auto simp: ff_request_parse_chunk_def ff_request_parse_first_chunk_def header_size_def)
  next
    case False
    obtain h where h: "load_header (bytes bs @ rest) = Inr h"
      using False n by (simp add: load_header_bytes)
    let ?request = "request\<lparr>version := int (unat (ntohs (h_version h))),
      request_id := ntohll (h_request_id h), payload_length := ucast (ntohl (h_total_length h))\<rparr>"
    obtain r where "ff_request_parse_data_chunk ?request n (bytes bs @ rest) = Inr r" "request_ok r"
      using parse_data_chunk_safe [of ?request n bs rest] ok n by auto
    then show thesis
      using False True raw h
      by (intro that [of r]) (simp_all add: ff_request_parse_chunk_def ff_request_parse_first_chunk_def header_size_def)
  qed
qed

end
