(* ===== verification/Parser_Wire.thy ===== *)
theory Parser_Wire
  imports Parser_Chunks
begin

text \<open>
  The exact effect of a well-formed packet: its options are appended to the request's and its
  chunk is added, or the request fails because it would hold too many options. The request
  never holds \<open>FF_REQUEST_MAX_OPTIONS\<close> options: the loop gives up before it reads the
  terminator that follows the last one.
\<close>

section \<open>Too many options\<close>

lemma parse_options_loop_too_many:
  assumes "c + unat k < FF_REQUEST_MAX_OPTIONS" "c + unat k + length ws \<ge> FF_REQUEST_MAX_OPTIONS"
    and "unat i = length pre" and "unat n < 2 ^ 31"
    and "length pre + length (wire_options ws t) \<le> unat n" and "list_all wire_option_ok ws"
  shows "\<exists>opts'. parse_options_loop c n (bytes (pre @ wire_options ws t @ post) @ rest) opts k i = Inr (Inl opts')"
  using assms
proof (induction ws arbitrary: opts k i pre)
  case Nil
  then show ?case by simp
next
  case (Cons w ws)
  let ?i = "i + of_nat (length (wire_option w)) :: 32 word"
  have k1: "unat (k + 1) = Suc (unat k)"
    using Cons.prems(1) by (subst unat_plus_less) (simp_all add: FF_REQUEST_MAX_OPTIONS_def)
  have "length (wire_option w) + length pre < 2 ^ 31"
    using Cons.prems by (simp add: wire_options_simps)
  then have i': "unat ?i = length (pre @ wire_option w)"
    using Cons.prems(3) by (subst unat_plus_less) (simp_all add: unat_of_nat)
  have step: "parse_options_loop c n (bytes (pre @ wire_options (w # ws) t @ post) @ rest) opts k i
      = parse_options_loop c n (bytes ((pre @ wire_option w) @ wire_options ws t @ post) @ rest)
          (opts @ [option_node w]) (k + 1) ?i"
    using Cons.prems parse_options_loop_option [of c k i pre n w "wire_options ws t @ post" rest opts]
    by (simp add: wire_options_simps)
  show ?case
  proof (cases "c + unat (k + 1) < FF_REQUEST_MAX_OPTIONS")
    case True
    show ?thesis
      unfolding step using Cons.prems k1 True
      by (intro Cons.IH [OF _ _ i']) (simp_all add: wire_options_simps)
  next
    case False
    then show ?thesis
      unfolding step by (subst parse_options_loop.simps) simp
  qed
qed

section \<open>The effect of a well-formed packet\<close>

definition add_options :: "(byte \<times> byte list) list \<Rightarrow> byte \<Rightarrow> ff_request \<Rightarrow> ff_request" where
  "add_options ws t request =
     request\<lparr>payload_contains_options := (t = FF_REQUEST_OPTION_TYPE_BREAK),
             options_length := options_length request + of_nat (length ws),
             options := options request @ map option_node ws\<rparr>"

lemma parse_options_wire:
  assumes "options_ok request" and "unat n < 2 ^ 31" and "length (wire_options ws t) \<le> unat n"
    and "list_all wire_option_ok ws"
    and "t = FF_REQUEST_OPTION_TYPE_EOL \<or> t = FF_REQUEST_OPTION_TYPE_BREAK"
    and "unat n \<le> length (wire_options ws t @ post)"
  shows "ff_request_parse_options request n (bytes (wire_options ws t @ post) @ rest) =
    (if length (options request) + length ws < FF_REQUEST_MAX_OPTIONS
     then Inr (add_options ws t request, length (wire_options ws t))
     else Inr (request, 0))"
proof (cases "length (options request) + length ws < FF_REQUEST_MAX_OPTIONS")
  case True
  let ?c = "unat (options_length request)"
  have c: "?c = length (options request)"
    using assms(1) by (simp add: options_ok_def)
  have "parse_options_loop ?c n (bytes (wire_options ws t @ post) @ rest) [] 0 0 =
      Inr (Inr (t = FF_REQUEST_OPTION_TYPE_BREAK, map option_node ws, of_nat (length (wire_options ws t))))"
    using parse_options_loop_wire [of ?c 0 ws 0 "[]" n t post rest "[]"] assms True c by simp
  moreover have "unat (of_nat (length (wire_options ws t)) :: 32 word) = length (wire_options ws t)"
    using assms(2,3) by (intro unat_of_nat_32) simp
  moreover have "(of_nat (?c + length ws) :: 8 word) = options_length request + of_nat (length ws)"
    by simp
  ultimately show ?thesis
    using True c by (cases "ws = []") (simp_all add: ff_request_parse_options_def add_options_def Let_def)
next
  case False
  let ?c = "unat (options_length request)" and ?buff = "bytes (wire_options ws t @ post) @ rest"
  have c: "?c = length (options request)" "?c < FF_REQUEST_MAX_OPTIONS"
    using assms(1) by (simp_all add: options_ok_def)
  obtain opts where opts: "parse_options_loop ?c n ?buff [] 0 0 = Inr (Inl opts)"
    using parse_options_loop_too_many [of ?c 0 ws 0 "[]" n t post rest "[]"] assms False c by auto
  have "\<exists>r. parse_options_loop ?c n ?buff [] 0 0 = Inr r \<and> options_result_ok ?c (unat n) 0 r"
    using parse_options_loop_safe [of n "wire_options ws t @ post" 0 0 "[]" ?c rest] assms(2,6) by simp
  with opts have "list_all option_ok opts"
    by (auto simp: options_result_ok_def)
  then have "free_option_nodes opts = Inr ()"
    by (auto simp: free_option_nodes_safe option_ok_def list_all_iff)
  with opts False show ?thesis
    by (simp add: ff_request_parse_options_def)
qed

definition data_packet ::
  "64 word \<Rightarrow> 32 word \<Rightarrow> 32 word \<Rightarrow> 16 word \<Rightarrow> (byte \<times> byte list) list \<Rightarrow> byte \<Rightarrow> byte list \<Rightarrow> byte list" where
  "data_packet r tot c l ws t data = wire_header 1 r tot c l @ wire_options ws t @ data"

text \<open>The range check of the source adds offset and length in 32 bits. It is exact when the sum
  does not wrap.\<close>

lemma unat_chunk_end:
  "unat c + unat (l :: 16 word) < 2 ^ 32 \<Longrightarrow> unat (c + ucast l :: 32 word) = unat c + unat l"
  by (subst unat_plus_less) simp_all

text \<open>Only the first chunk may carry options; the others have an empty option list.\<close>

definition packet_options_ok :: "32 word \<Rightarrow> (byte \<times> byte list) list \<Rightarrow> byte \<Rightarrow> bool" where
  "packet_options_ok c ws t \<longleftrightarrow>
     list_all wire_option_ok ws \<and>
     (if c = 0 then t = FF_REQUEST_OPTION_TYPE_EOL \<or> t = FF_REQUEST_OPTION_TYPE_BREAK
      else ws = [] \<and> t = FF_REQUEST_OPTION_TYPE_EOL)"

lemma length_wire_options: "length (wire_options ws t) = 3 + (\<Sum>w\<leftarrow>ws. 3 + length (snd w))"
  by (simp add: wire_options_def length_concat comp_def length_wire_option)

lemma parse_data_chunk_wire:
  assumes ok: "options_ok request"
    and req: "version request = 1" "request_id request = r" "payload_length request = ucast tot"
    and len: "unat (c + ucast l) \<le> unat tot" "unat l \<le> length data"
    and opts: "packet_options_ok c ws t"
    and n: "unat n = length (data_packet r tot c l ws t data)" "unat n < 2 ^ 31"
  shows "ff_request_parse_data_chunk request n (bytes (data_packet r tot c l ws t data) @ rest) =
    (if c = 0 \<and> length (options request) + length ws \<ge> FF_REQUEST_MAX_OPTIONS
     then Inr (receiving_fail request)
     else add_chunk (if c = 0 then add_options ws t request else request) c l
            (of_nat (length data)) (bytes data @ rest))"
proof -
  let ?tail = "wire_options ws t @ data"
  obtain h where h: "load_header (bytes (data_packet r tot c l ws t data) @ rest) = Inr h"
      "ntohs (h_version h) = 1" "ntohll (h_request_id h) = r" "ntohl (h_total_length h) = tot"
      "ntohl (h_chunk_offset h) = c" "ntohs (h_chunk_length h) = l" "h_chunk_offset h = 0 \<longleftrightarrow> c = 0"
    using load_header_wire [of 1 r tot c l "bytes ?tail @ rest"] by (auto simp: data_packet_def)
  have size: "unat n = 20 + length (wire_options ws t) + length data" "3 \<le> length (wire_options ws t)"
      "wire_options ws t \<noteq> []"
    using n(1) by (simp_all add: data_packet_def length_wire_options) (simp add: wire_options_def)
  have fits: "\<not> (ucast (c + ucast l) :: 64 word) > ucast tot"
    using len by (simp add: word_less_nat_alt)
  have n20: "unat (of_nat (unat n - 20) :: 32 word) = unat n - 20"
    using n(2) by (intro unat_of_nat_32) simp
  have drop20: "drop 20 (bytes (data_packet r tot c l ws t data) @ rest) = bytes ?tail @ rest"
    by (simp add: data_packet_def)
  show ?thesis
  proof (cases "c = 0")
    case True
    let ?m = "length (wire_options ws t)"
    have o': "ff_request_parse_options request (of_nat (unat n - 20)) (bytes ?tail @ rest) =
        (if length (options request) + length ws < FF_REQUEST_MAX_OPTIONS
         then Inr (add_options ws t request, ?m) else Inr (request, 0))"
      using ok n(2) size opts True n20
      by (intro parse_options_wire) (simp_all add: packet_options_ok_def del: of_nat_diff)
    have "drop (20 + ?m) (bytes (data_packet r tot c l ws t data) @ rest) = bytes data @ rest"
      by (simp add: data_packet_def)
    moreover have "unat n - (20 + ?m) = length data"
      using size by simp
    ultimately show ?thesis
      using True h req fits len size o' drop20
      by (simp add: ff_request_parse_data_chunk_def header_size_def option_header_size_def
          FF_VERSION_1_def Let_def del: of_nat_diff drop_append)
  next
    case False
    then have wst: "ws = []" "t = FF_REQUEST_OPTION_TYPE_EOL"
      using opts by (simp_all add: packet_options_ok_def)
    have "drop 23 (bytes (data_packet r tot c l ws t data) @ rest) = bytes data @ rest"
      using wst by (simp add: data_packet_def wire_options_simps)
    moreover have "unat n - 23 = length data"
      using size wst by (simp add: wire_options_simps)
    moreover have "load_option_header (bytes (data_packet r tot c l ws t data) @ rest) 20
        = Inr \<lparr>oh_type = t, oh_length = load_le [0, 0]\<rparr>"
      using wst by (subst load_option_header_bytes) (simp_all add: data_packet_def wire_options_simps nth_append)
    ultimately show ?thesis
      using False h req fits len size wst
      by (simp add: ff_request_parse_data_chunk_def header_size_def option_header_size_def
          FF_VERSION_1_def Let_def del: of_nat_diff drop_append)
  qed
qed

end
