(* ===== verification/Reassembly.thy ===== *)
theory Reassembly
  imports Parser_Wire
begin

text \<open>
  Reassembly of a fragmented request, the purpose of the FF protocol: what the parser and
  \<open>ff_request_vectorise_payload\<close> rebuild from the packets of one message, in whatever order and
  multiplicity they arrive, and that packets delivered in order complete it. The message is
  shorter than \<open>2 ^ 16\<close> bytes, the range of the 16-bit offset and length fields of a node.
\<close>

section \<open>Delivering packets\<close>

text \<open>
  The server's use of the parser: each packet of a request is parsed into the same object until
  it leaves the state \<open>RECEIVING\<close>; a failed request is dropped, a complete one is handed on.
\<close>

fun receive_packets :: "ff_request \<Rightarrow> (32 word \<times> block) list \<Rightarrow> ff_request res" where
  "receive_packets request [] = Inr request"
| "receive_packets request ((n, buff) # packets) =
     res_bind (ff_request_parse_chunk request n buff) (\<lambda>request'.
     if state request' = FF_REQUEST_STATE_RECEIVING then receive_packets request' packets
     else Inr request')"

text \<open>A packet that carries bytes \<open>c\<close> to \<open>c + l\<close> of a message and \<open>k\<close> options, followed by any
  memory.\<close>

definition chunk_packet :: "64 word \<Rightarrow> byte list \<Rightarrow> nat \<Rightarrow> nat \<Rightarrow> (byte \<times> byte list) list \<Rightarrow> byte \<Rightarrow> byte list" where
  "chunk_packet r msg c l ws t =
     data_packet r (of_nat (length msg)) (of_nat c) (of_nat l) ws t (take l (drop c msg))"

definition carries :: "64 word \<Rightarrow> byte list \<Rightarrow> nat \<Rightarrow> nat \<Rightarrow> nat \<Rightarrow> 32 word \<times> block \<Rightarrow> bool" where
  "carries r msg c l k p \<longleftrightarrow>
     (\<exists>ws t rest. length ws = k \<and> c + l \<le> length msg \<and> packet_options_ok (of_nat c) ws t \<and>
        unat (fst p) = length (chunk_packet r msg c l ws t) \<and> unat (fst p) < 2 ^ 16 \<and>
        snd p = bytes (chunk_packet r msg c l ws t) @ rest)"

definition reassembling :: "64 word \<Rightarrow> byte list \<Rightarrow> ff_request \<Rightarrow> bool" where
  "reassembling r msg request \<longleftrightarrow>
     request_ok request \<and> list_all (chunk_of msg) (payload request) \<and>
     (if version request = 0 then payload request = []
      else version request = 1 \<and> request_id request = r \<and> payload_length request = of_nat (length msg))"

definition start_request :: "64 word \<Rightarrow> byte list \<Rightarrow> ff_request \<Rightarrow> ff_request" where
  "start_request r msg request =
     (if version request = 0
      then request\<lparr>version := 1, request_id := r, payload_length := of_nat (length msg)\<rparr> else request)"

lemma reassembling_alloc: "reassembling r msg ff_request_alloc"
  by (simp add: reassembling_def request_ok_alloc) (simp add: ff_request_alloc_def)

lemma start_request_props:
  assumes "reassembling r msg request"
  shows "request_ok (start_request r msg request)" "version (start_request r msg request) = 1"
    "request_id (start_request r msg request) = r"
    "payload_length (start_request r msg request) = of_nat (length msg)"
    "payload (start_request r msg request) = payload request"
    "state (start_request r msg request) = state request"
    "received_length (start_request r msg request) = received_length request"
    "options (start_request r msg request) = options request"
  using assms by (auto simp: start_request_def reassembling_def split: if_splits)

lemma ucast_of_nat_32: "m < 2 ^ 32 \<Longrightarrow> (ucast (of_nat m :: 32 word) :: 64 word) = of_nat m"
  by (simp add: word_unat_eq_iff unat_of_nat)

lemma parse_chunk_carries:
  assumes re: "reassembling r msg request" and small: "length msg < 2 ^ 16"
    and p: "c + l \<le> length msg" "packet_options_ok (of_nat c) ws t"
      "unat n = length (chunk_packet r msg c l ws t)" "unat n < 2 ^ 16"
  shows "ff_request_parse_chunk request n (bytes (chunk_packet r msg c l ws t) @ rest) =
    (let request = start_request r msg request in
     if c = 0 \<and> length (options request) + length ws \<ge> FF_REQUEST_MAX_OPTIONS
     then Inr (receiving_fail request)
     else add_chunk (if c = 0 then add_options ws t request else request) (of_nat c) (of_nat l)
            (of_nat l) (bytes (take l (drop c msg)) @ rest))"
proof -
  let ?buff = "bytes (chunk_packet r msg c l ws t) @ rest" and ?request = "start_request r msg request"
  have c0: "(of_nat c :: 32 word) = 0 \<longleftrightarrow> c = 0"
    using p small by (simp add: word_unat_eq_iff unat_of_nat)
  have data: "ff_request_parse_data_chunk ?request n ?buff =
    (if c = 0 \<and> length (options ?request) + length ws \<ge> FF_REQUEST_MAX_OPTIONS
     then Inr (receiving_fail ?request)
     else add_chunk (if c = 0 then add_options ws t ?request else ?request) (of_nat c) (of_nat l)
            (of_nat l) (bytes (take l (drop c msg)) @ rest))"
    using parse_data_chunk_wire [of ?request r "of_nat (length msg)" "of_nat c" "of_nat l"
        "take l (drop c msg)" ws t n rest]
      start_request_props [OF re] p small c0
    by (simp add: chunk_packet_def request_ok_def ucast_of_nat_32 unat_of_nat_32 unat_of_nat_16 unat_chunk_end)
  show ?thesis
  proof (cases "version request = 0")
    case False
    then show ?thesis
      using data by (simp add: ff_request_parse_chunk_def start_request_def)
  next
    case True
    obtain h where h: "load_header ?buff = Inr h" "ntohs (h_version h) = 1"
        "ntohll (h_request_id h) = r" "ntohl (h_total_length h) = of_nat (length msg)"
      using load_header_wire [of 1 r "of_nat (length msg)" "of_nat c" "of_nat l"
          "bytes (wire_options ws t @ take l (drop c msg)) @ rest"]
      by (auto simp: chunk_packet_def data_packet_def)
    have "chunk_packet r msg c l ws t = 0 # tl (chunk_packet r msg c l ws t)"
      by (simp add: chunk_packet_def data_packet_def wire_header_def store_be_def store_le_def upt_rec)
    then have "ff_request_is_raw_http n ?buff = Inr False"
      using version_1_not_raw [of n "tl (chunk_packet r msg c l ws t)" rest] p(3) by (metis order_refl)
    then show ?thesis
      using True h data p small
      by (simp add: ff_request_parse_chunk_def ff_request_parse_first_chunk_def start_request_def header_size_def
          chunk_packet_def data_packet_def ucast_of_nat_32)
  qed
qed

lemma option_node_ok: "wire_option_ok w \<Longrightarrow> option_ok (option_node w)"
  by (simp add: option_ok_def option_node_def wire_option_ok_def unat_of_nat_16)

lemma add_options_props:
  assumes "request_ok request" and "length (options request) + length ws < FF_REQUEST_MAX_OPTIONS"
    and "list_all wire_option_ok ws"
  shows "request_ok (add_options ws t request)"
proof -
  have "unat (options_length request + of_nat (length ws)) = length (options request) + length ws"
    using assms(1,2) by (subst unat_plus_less)
      (simp_all add: request_ok_def options_ok_def FF_REQUEST_MAX_OPTIONS_def unat_of_nat)
  then show ?thesis
    using assms by (auto simp: request_ok_def options_ok_def payload_ok_def add_options_def list_all_iff option_node_ok)
qed

lemma add_options_frame [simp]:
  "version (add_options ws t request) = version request"
  "request_id (add_options ws t request) = request_id request"
  "payload_length (add_options ws t request) = payload_length request"
  "payload (add_options ws t request) = payload request"
  "state (add_options ws t request) = state request"
  "received_length (add_options ws t request) = received_length request"
  by (simp_all add: add_options_def)

definition message_node :: "byte list \<Rightarrow> nat \<Rightarrow> nat \<Rightarrow> ff_request_payload_node" where
  "message_node msg c l =
     \<lparr>pl_offset = of_nat c, pl_length = of_nat l,
      pl_value = bytes (take l (drop c msg)) @ block_alloc (l * 7), pl_live = True\<rparr>"

lemma chunk_node_message:
  "c + l \<le> length msg \<Longrightarrow> length msg < 2 ^ 16 \<Longrightarrow>
     chunk_node (of_nat c) (of_nat l) (of_nat l) (bytes (take l (drop c msg)) @ rest) = message_node msg c l"
  by (simp add: chunk_node_def message_node_def unat_of_nat_32 word_unat_eq_iff unat_of_nat unat_ucast_mod)

lemma message_node_chunk_of:
  "c + l \<le> length msg \<Longrightarrow> length msg < 2 ^ 16 \<Longrightarrow> chunk_of msg (message_node msg c l)"
  by (simp add: chunk_of_def message_node_def unat_of_nat_16)

text \<open>One packet of the message either adds its chunk or fails the request.\<close>

definition accepts :: "byte list \<Rightarrow> nat \<Rightarrow> nat \<Rightarrow> nat \<Rightarrow> ff_request \<Rightarrow> bool" where
  "accepts msg c l k request \<longleftrightarrow>
     (c = 0 \<longrightarrow> length (options request) + k < FF_REQUEST_MAX_OPTIONS) \<and>
     (\<forall>cur\<in>set (payload request). \<not> overlaps_existing_node (message_node msg c l) cur)"

lemma add_chunk_message:
  assumes ok: "request_ok request" and re: "list_all (chunk_of msg) (payload request)"
    and small: "length msg < 2 ^ 16" and p: "c + l \<le> length msg"
  shows "\<exists>request'. add_chunk request (of_nat c) (of_nat l) (of_nat l) (bytes (take l (drop c msg)) @ rest) = Inr request' \<and>
    request_ok request' \<and> list_all (chunk_of msg) (payload request') \<and>
    version request' = version request \<and> request_id request' = request_id request \<and>
    payload_length request' = payload_length request \<and> options request' = options request \<and>
    (if \<forall>cur\<in>set (payload request). \<not> overlaps_existing_node (message_node msg c l) cur
     then payload request' = payload request @ [message_node msg c l] \<and>
          received_length request' = received_length request + of_nat l \<and>
          state request' = (if received_length request' = payload_length request
                            then FF_REQUEST_STATE_RECEIVED else state request)
     else state request' = FF_REQUEST_STATE_RECEIVING_FAIL)"
proof -
  let ?data = "take l (drop c msg)"
  have l32: "unat (of_nat l :: 32 word) = l" and l16: "unat (of_nat l :: 16 word) = l"
    using p small by (simp_all add: unat_of_nat)
  have l64: "(ucast (of_nat l :: 16 word) :: 64 word) = of_nat l"
    using p small by (simp add: word_unat_eq_iff unat_of_nat)
  have pok: "payload_ok request" using ok by (simp add: request_ok_def)
  obtain request' where r': "add_chunk request (of_nat c) (of_nat l) (of_nat l) (bytes ?data @ rest) = Inr request'"
      "request_ok request'"
    by (rule add_chunk_safe [OF ok, of "of_nat l" "of_nat l" ?data "of_nat c" rest]) (use p l32 l16 in auto)
  have "Inr request' = (Inr
    (if \<exists>cur\<in>set (payload request). overlaps_existing_node (message_node msg c l) cur
     then receiving_fail request
     else let request = request\<lparr>payload := payload request @ [message_node msg c l],
                                received_length := received_length request + of_nat l\<rparr>
          in if received_length request = payload_length request
             then request\<lparr>state := FF_REQUEST_STATE_RECEIVED\<rparr> else request) :: ff_request res)"
    unfolding r'(1) [symmetric]
    using add_chunk_eq [OF pok, of "of_nat l" "bytes ?data @ rest" "of_nat c" "of_nat l"] p l32
    by (simp add: chunk_node_message [OF p small] l64)
  then have "request' = (if \<exists>cur\<in>set (payload request). overlaps_existing_node (message_node msg c l) cur
     then receiving_fail request
     else let request = request\<lparr>payload := payload request @ [message_node msg c l],
                                received_length := received_length request + of_nat l\<rparr>
          in if received_length request = payload_length request
             then request\<lparr>state := FF_REQUEST_STATE_RECEIVED\<rparr> else request)"
    by simp
  then show ?thesis
    using r' re message_node_chunk_of [OF p small]
    by (auto simp: receiving_fail_def Let_def)
qed

lemma parse_chunk_step:
  assumes re: "reassembling r msg request" and small: "length msg < 2 ^ 16"
    and p: "carries r msg c l k p"
  shows "\<exists>request'. ff_request_parse_chunk request (fst p) (snd p) = Inr request' \<and>
    reassembling r msg request' \<and> version request' = 1 \<and>
    (if accepts msg c l k request
     then payload request' = payload request @ [message_node msg c l] \<and>
          received_length request' = received_length request + of_nat l \<and>
          length (options request') = length (options request) + (if c = 0 then k else 0) \<and>
          state request' = (if received_length request' = of_nat (length msg)
                            then FF_REQUEST_STATE_RECEIVED else state request)
     else state request' = FF_REQUEST_STATE_RECEIVING_FAIL)"
proof -
  obtain ws t rest where ws: "length ws = k" "c + l \<le> length msg" "packet_options_ok (of_nat c) ws t"
      "unat (fst p) = length (chunk_packet r msg c l ws t)" "unat (fst p) < 2 ^ 16"
      "snd p = bytes (chunk_packet r msg c l ws t) @ rest"
    using p by (auto simp: carries_def)
  let ?request = "start_request r msg request"
  let ?request2 = "if c = 0 then add_options ws t ?request else ?request"
  note props = start_request_props [OF re]
  have re': "list_all (chunk_of msg) (payload request)"
    using re by (simp add: reassembling_def)
  show ?thesis
  proof (cases "c = 0 \<and> length (options request) + length ws \<ge> FF_REQUEST_MAX_OPTIONS")
    case True
    then have "ff_request_parse_chunk request (fst p) (snd p) = Inr (receiving_fail ?request)"
      using parse_chunk_carries [OF re small ws(2-5), of rest] props ws(6) by (simp add: Let_def)
    then show ?thesis
      using True props re' ws(1)
      by (auto simp: reassembling_def accepts_def) (simp_all add: receiving_fail_def)
  next
    case False
    have ok2: "request_ok ?request2"
      using False props ws(3) by (auto simp: packet_options_ok_def intro!: add_options_props)
    have parse: "ff_request_parse_chunk request (fst p) (snd p) =
        add_chunk ?request2 (of_nat c) (of_nat l) (of_nat l) (bytes (take l (drop c msg)) @ rest)"
      using parse_chunk_carries [OF re small ws(2-5), of rest] props ws(6) False by (simp add: Let_def)
    have acc: "accepts msg c l k request \<longleftrightarrow>
        (\<forall>cur\<in>set (payload request). \<not> overlaps_existing_node (message_node msg c l) cur)"
      using False ws(1) by (auto simp: accepts_def)
    have opts2: "length (options ?request2) = length (options request) + (if c = 0 then k else 0)"
      using props ws(1) by (simp add: add_options_def)
    have frame: "version ?request2 = 1" "request_id ?request2 = r" "payload_length ?request2 = of_nat (length msg)"
        "payload ?request2 = payload request" "state ?request2 = state request"
        "received_length ?request2 = received_length request"
      using props by simp_all
    obtain request' where r': "add_chunk ?request2 (of_nat c) (of_nat l) (of_nat l) (bytes (take l (drop c msg)) @ rest) = Inr request'"
        "request_ok request'" "list_all (chunk_of msg) (payload request')"
        "version request' = version ?request2" "request_id request' = request_id ?request2"
        "payload_length request' = payload_length ?request2" "options request' = options ?request2"
        "if \<forall>cur\<in>set (payload ?request2). \<not> overlaps_existing_node (message_node msg c l) cur
         then payload request' = payload ?request2 @ [message_node msg c l] \<and>
              received_length request' = received_length ?request2 + of_nat l \<and>
              state request' = (if received_length request' = payload_length ?request2
                                then FF_REQUEST_STATE_RECEIVED else state ?request2)
         else state request' = FF_REQUEST_STATE_RECEIVING_FAIL"
      using add_chunk_message [OF ok2 _ small ws(2), of rest] re' frame(4) by metis
    then show ?thesis
      using parse acc opts2 by (intro exI [of _ request']) (simp add: reassembling_def frame)
  qed
qed

section \<open>Whole deliveries\<close>

lemma receive_packets_invariant:
  assumes "reassembling r msg request" and "length msg < 2 ^ 16"
    and "\<forall>p\<in>set packets. \<exists>c l k. carries r msg c l k p"
    and "state request = FF_REQUEST_STATE_RECEIVING"
  shows "\<exists>request'. receive_packets request packets = Inr request' \<and> reassembling r msg request' \<and>
    (state request' = FF_REQUEST_STATE_RECEIVED \<longrightarrow>
       payload request' \<noteq> [] \<and> version request' = 1 \<and> received_length request' = of_nat (length msg))"
  using assms
proof (induction packets arbitrary: request)
  case Nil
  then show ?case by simp
next
  case (Cons p packets)
  obtain c l k where "carries r msg c l k p"
    using Cons.prems(3) by auto
  then obtain request' where r': "ff_request_parse_chunk request (fst p) (snd p) = Inr request'"
      "reassembling r msg request'" "version request' = 1"
      "if accepts msg c l k request
       then payload request' = payload request @ [message_node msg c l] \<and>
            received_length request' = received_length request + of_nat l \<and>
            length (options request') = length (options request) + (if c = 0 then k else 0) \<and>
            state request' = (if received_length request' = of_nat (length msg)
                              then FF_REQUEST_STATE_RECEIVED else state request)
       else state request' = FF_REQUEST_STATE_RECEIVING_FAIL"
    using parse_chunk_step [OF Cons.prems(1,2)] by blast
  show ?case
  proof (cases "state request' = FF_REQUEST_STATE_RECEIVING")
    case True
    then show ?thesis
      using Cons.IH [OF r'(2) Cons.prems(2) _ True] Cons.prems(3) r'(1) by (cases p) simp
  next
    case False
    then show ?thesis
      using r' Cons.prems(4) by (cases p) (auto split: if_splits)
  qed
qed

lemma reassembled_payload:
  assumes "reassembling r msg request" and "length msg < 2 ^ 16" and "payload request \<noteq> []"
    and "version request = 1" and "received_length request = of_nat (length msg)"
  shows "\<exists>node. ff_request_vectorise_payload request = Inr (request\<lparr>payload := [node]\<rparr>) \<and>
    pl_live node \<and> pl_offset node = 0 \<and> unat (pl_length node) = length msg \<and>
    take (length msg) (pl_value node) = bytes msg"
proof (rule vectorise_covered)
  have "(\<Sum>node\<leftarrow>payload request. unat (pl_length node)) = length msg"
    using assms by (simp add: reassembling_def request_ok_def payload_ok_def unat_of_nat)
  then show "\<Union>(span ` set (payload request)) = {..<length msg}"
    using assms(1) by (intro disjoint_spans_cover) (simp_all add: reassembling_def request_ok_def payload_ok_def)
qed (use assms in \<open>simp_all add: reassembling_def unat_of_nat\<close>)

text \<open>
  C1. Reassembly is sound. Whatever packets of a message arrive, in any order, repeated or
  missing, the parser does not fault; and if the request reaches the state \<open>RECEIVED\<close>, then
  \<open>ff_request_vectorise_payload\<close> turns its chunks into one node that holds exactly the message.
\<close>

theorem reassembly_sound:
  assumes "length msg < 2 ^ 16" and "\<forall>p\<in>set packets. \<exists>c l k. carries r msg c l k p"
  shows "\<exists>request. receive_packets ff_request_alloc packets = Inr request \<and>
    (state request = FF_REQUEST_STATE_RECEIVED \<longrightarrow>
       (\<exists>node. ff_request_vectorise_payload request = Inr (request\<lparr>payload := [node]\<rparr>) \<and>
          pl_live node \<and> pl_offset node = 0 \<and> unat (pl_length node) = length msg \<and>
          take (length msg) (pl_value node) = bytes msg))"
proof -
  have "state ff_request_alloc = FF_REQUEST_STATE_RECEIVING"
    by (simp add: ff_request_alloc_def)
  then obtain request where "receive_packets ff_request_alloc packets = Inr request" "reassembling r msg request"
      "state request = FF_REQUEST_STATE_RECEIVED \<longrightarrow>
        payload request \<noteq> [] \<and> version request = 1 \<and> received_length request = of_nat (length msg)"
    using receive_packets_invariant [OF reassembling_alloc assms] by blast
  then show ?thesis
    using reassembled_payload [OF _ assms(1)] by blast
qed

section \<open>In-order delivery\<close>

text \<open>Consecutive non-empty chunks from offset \<open>c\<close> to the end of the message.\<close>

fun in_order :: "64 word \<Rightarrow> byte list \<Rightarrow> nat \<Rightarrow> (32 word \<times> block) list \<Rightarrow> bool" where
  "in_order r msg c [] \<longleftrightarrow> c = length msg"
| "in_order r msg c (p # packets) \<longleftrightarrow>
     (\<exists>l k. 0 < l \<and> k < FF_REQUEST_MAX_OPTIONS \<and> carries r msg c l k p \<and> in_order r msg (c + l) packets)"

lemma in_order_ConsI:
  "carries r msg c l k p \<Longrightarrow> 0 < l \<Longrightarrow> k < FF_REQUEST_MAX_OPTIONS \<Longrightarrow> in_order r msg (c + l) packets \<Longrightarrow>
     in_order r msg c (p # packets)"
  by auto

lemma in_order_le: "in_order r msg c packets \<Longrightarrow> c \<le> length msg"
proof (induction packets arbitrary: c)
  case (Cons p packets)
  then obtain l where "in_order r msg (c + l) packets" by auto
  then have "c + l \<le> length msg" by (rule Cons.IH)
  then show ?case by simp
qed simp

lemma in_order_received:
  assumes "reassembling r msg request" and "length msg < 2 ^ 16"
    and "in_order r msg c packets" and "c < length msg"
    and "state request = FF_REQUEST_STATE_RECEIVING"
    and "\<forall>cur\<in>set (payload request). unat (pl_offset cur) + unat (pl_length cur) \<le> c"
    and "received_length request = of_nat c" and "c = 0 \<Longrightarrow> options request = []"
  shows "\<exists>request'. receive_packets request packets = Inr request' \<and> reassembling r msg request' \<and>
    state request' = FF_REQUEST_STATE_RECEIVED \<and>
    payload request' \<noteq> [] \<and> version request' = 1 \<and> received_length request' = of_nat (length msg)"
  using assms
proof (induction packets arbitrary: request c)
  case Nil
  then show ?case by simp
next
  case (Cons p packets)
  obtain l k where lk: "0 < l" "k < FF_REQUEST_MAX_OPTIONS" "carries r msg c l k p" "in_order r msg (c + l) packets"
    using Cons.prems(3) by auto
  have cl: "c + l \<le> length msg"
    using lk(4) by (rule in_order_le)
  have c16: "unat (of_nat c :: 16 word) = c" "unat (of_nat l :: 16 word) = l"
    using cl Cons.prems(2) by (simp_all add: unat_of_nat)
  have "accepts msg c l k request"
    using Cons.prems(6,8) lk(2) c16 by (fastforce simp: accepts_def overlaps_existing_node_def message_node_def)
  then obtain request' where r': "ff_request_parse_chunk request (fst p) (snd p) = Inr request'"
      "reassembling r msg request'" "version request' = 1"
      "payload request' = payload request @ [message_node msg c l]"
      "received_length request' = received_length request + of_nat l"
      "state request' = (if received_length request' = of_nat (length msg)
                         then FF_REQUEST_STATE_RECEIVED else state request)"
    using parse_chunk_step [OF Cons.prems(1,2) lk(3)] by auto
  have rl: "received_length request' = of_nat (c + l)"
    using r'(5) Cons.prems(7) by simp
  have eq: "(of_nat (c + l) :: 64 word) = of_nat (length msg) \<longleftrightarrow> c + l = length msg"
    using cl Cons.prems(2) by (simp add: word_unat_eq_iff unat_of_nat del: of_nat_add)
  show ?case
  proof (cases "c + l = length msg")
    case True
    then have "state request' = FF_REQUEST_STATE_RECEIVED"
      using r'(6) rl eq by simp
    then show ?thesis
      using r' rl True by (cases p) simp
  next
    case False
    then have st: "state request' = FF_REQUEST_STATE_RECEIVING"
      using r'(6) rl eq Cons.prems(5) by simp
    have "\<exists>q. receive_packets request' packets = Inr q \<and> reassembling r msg q \<and>
        state q = FF_REQUEST_STATE_RECEIVED \<and>
        payload q \<noteq> [] \<and> version q = 1 \<and> received_length q = of_nat (length msg)"
    proof (rule Cons.IH [OF r'(2) Cons.prems(2) lk(4) _ st _ rl])
      show "\<forall>cur\<in>set (payload request'). unat (pl_offset cur) + unat (pl_length cur) \<le> c + l"
        using r'(4) Cons.prems(6) c16 by (fastforce simp: message_node_def)
    qed (use False cl lk(1) in simp_all)
    then show ?thesis
      using r'(1) st by (cases p) simp
  qed
qed

text \<open>
  C2. In-order delivery completes. If the packets of a non-empty message arrive in order, each
  with at least one byte of it and the first with fewer than twenty options, then the request
  reaches \<open>RECEIVED\<close> and its vectorised payload is the message.
\<close>

theorem in_order_delivery_completes:
  assumes "length msg < 2 ^ 16" and "msg \<noteq> []" and "in_order r msg 0 packets"
  shows "\<exists>request node. receive_packets ff_request_alloc packets = Inr request \<and>
    state request = FF_REQUEST_STATE_RECEIVED \<and>
    ff_request_vectorise_payload request = Inr (request\<lparr>payload := [node]\<rparr>) \<and>
    unat (pl_length node) = length msg \<and> take (length msg) (pl_value node) = bytes msg"
proof -
  obtain request where "receive_packets ff_request_alloc packets = Inr request" "reassembling r msg request"
      "state request = FF_REQUEST_STATE_RECEIVED"
      "payload request \<noteq> []" "version request = 1" "received_length request = of_nat (length msg)"
    using in_order_received [OF reassembling_alloc assms(1,3)] assms(2)
    by (auto simp: ff_request_alloc_def)
  then show ?thesis
    using reassembled_payload [OF _ assms(1)] by blast
qed

section \<open>Order matters\<close>

text \<open>
  The overlap test uses \<open><=\<close> where the ranges would need \<open><\<close>: besides chunks that share a byte
  it rejects a chunk that ends exactly where a chunk already received begins.
\<close>

lemma overlaps_existing_node_iff:
  assumes "0 < unat (pl_length node)" and "0 < unat (pl_length cur)"
  shows "overlaps_existing_node node cur \<longleftrightarrow>
    span node \<inter> span cur \<noteq> {} \<or>
    unat (pl_offset node) + unat (pl_length node) = unat (pl_offset cur)"
proof -
  let ?a = "unat (pl_offset node)" and ?b = "unat (pl_offset cur)"
  have "span node \<inter> span cur \<noteq> {} \<longleftrightarrow> max ?a ?b \<in> span node \<inter> span cur"
    by (auto simp: span_def max_def)
  also have "\<dots> \<longleftrightarrow> ?a < ?b + unat (pl_length cur) \<and> ?b < ?a + unat (pl_length node)"
    using assms by (auto simp: span_def max_def)
  finally show ?thesis
    using assms by (auto simp: overlaps_existing_node_def)
qed

text \<open>
  C3. A chunk that arrives after its right-hand neighbour fails the request. If the request
  holds a non-empty chunk that starts where the bytes of an arriving packet end, parsing that
  packet sets the state \<open>RECEIVING_FAIL\<close>, although the two chunks have no byte in common. So of
  two adjacent packets that the network swaps, the request is lost.
\<close>

theorem late_left_neighbour_fails:
  assumes "reassembling r msg request" and "length msg < 2 ^ 16" and "carries r msg c l k p"
    and "cur \<in> set (payload request)" and "unat (pl_offset cur) = c + l" and "0 < unat (pl_length cur)"
  shows "\<exists>request'. ff_request_parse_chunk request (fst p) (snd p) = Inr request' \<and>
    state request' = FF_REQUEST_STATE_RECEIVING_FAIL \<and> span (message_node msg c l) \<inter> span cur = {}"
proof -
  have "c + l \<le> length msg"
    using assms(3) by (auto simp: carries_def)
  then have cl: "unat (of_nat c :: 16 word) = c" "unat (of_nat l :: 16 word) = l"
    using assms(2) by (simp_all add: unat_of_nat)
  then have "overlaps_existing_node (message_node msg c l) cur"
    using assms(5,6) by (simp add: overlaps_existing_node_def message_node_def)
  then have "\<not> accepts msg c l k request"
    using assms(4) by (auto simp: accepts_def)
  moreover have "span (message_node msg c l) \<inter> span cur = {}"
    using assms(5) cl by (auto simp: span_def message_node_def)
  ultimately show ?thesis
    using parse_chunk_step [OF assms(1-3)] by auto
qed

section \<open>Sample packets\<close>

definition sample_packet :: "64 word \<Rightarrow> byte list \<Rightarrow> nat \<Rightarrow> nat \<Rightarrow> 32 word \<times> block" where
  "sample_packet r msg c l =
     (let p = chunk_packet r msg c l [] FF_REQUEST_OPTION_TYPE_EOL in (of_nat (length p), bytes p))"

lemma sample_packet_carries:
  assumes "c + l \<le> length msg" and "length msg < 2 ^ 15"
  shows "carries r msg c l 0 (sample_packet r msg c l)"
proof -
  let ?p = "chunk_packet r msg c l [] FF_REQUEST_OPTION_TYPE_EOL"
  have "length ?p < 2 ^ 16"
    using assms by (simp add: chunk_packet_def data_packet_def wire_options_simps)
  moreover from this have "unat (of_nat (length ?p) :: 32 word) = length ?p"
    by (intro unat_of_nat_32) simp
  moreover have "packet_options_ok (of_nat c) [] FF_REQUEST_OPTION_TYPE_EOL"
    by (simp add: packet_options_ok_def)
  ultimately show ?thesis
    using assms(1) unfolding carries_def sample_packet_def Let_def fst_conv snd_conv
    by (intro exI [of _ "[]"] exI [of _ FF_REQUEST_OPTION_TYPE_EOL]) simp
qed

definition sample_message :: "byte list" where
  "sample_message = [1, 2, 3]"

definition sample_left :: "32 word \<times> block" where
  "sample_left = sample_packet 7 sample_message 0 2"

definition sample_right :: "32 word \<times> block" where
  "sample_right = sample_packet 7 sample_message 2 1"

lemma sample_carries:
  "carries 7 sample_message 0 2 0 sample_left" "carries 7 sample_message 2 1 0 sample_right"
  unfolding sample_left_def sample_right_def
  by (rule sample_packet_carries, simp_all add: sample_message_def)+

lemma sample_in_order: "in_order 7 sample_message 0 [sample_left, sample_right]"
proof (rule in_order_ConsI [OF sample_carries(1)])
  show "in_order 7 sample_message (0 + 2) [sample_right]"
  proof (rule in_order_ConsI)
    show "carries 7 sample_message (0 + 2) 1 0 sample_right"
      using sample_carries(2) by (simp only: add_0)
  qed (simp_all add: FF_REQUEST_MAX_OPTIONS_def sample_message_def)
qed (simp_all add: FF_REQUEST_MAX_OPTIONS_def)

lemma sample_received:
  "map_sum id state (receive_packets ff_request_alloc [sample_left, sample_right]) = Inr FF_REQUEST_STATE_RECEIVED"
  by code_simp

theorem reassembly_sound_witness:
  "\<exists>request node.
     receive_packets ff_request_alloc [sample_left, sample_right] = Inr request \<and>
     state request = FF_REQUEST_STATE_RECEIVED \<and>
     ff_request_vectorise_payload request = Inr (request\<lparr>payload := [node]\<rparr>) \<and>
     take (length sample_message) (pl_value node) = bytes sample_message"
proof -
  have "length sample_message < 2 ^ 16" by (simp add: sample_message_def)
  moreover have "\<forall>p\<in>set [sample_left, sample_right]. \<exists>c l k. carries 7 sample_message c l k p"
    using sample_carries by auto
  ultimately obtain request where
    request: "receive_packets ff_request_alloc [sample_left, sample_right] = Inr request" and
    "state request = FF_REQUEST_STATE_RECEIVED \<longrightarrow>
       (\<exists>node. ff_request_vectorise_payload request = Inr (request\<lparr>payload := [node]\<rparr>) \<and>
          pl_live node \<and> pl_offset node = 0 \<and> unat (pl_length node) = length sample_message \<and>
          take (length sample_message) (pl_value node) = bytes sample_message)"
    using reassembly_sound by blast
  moreover have "state request = FF_REQUEST_STATE_RECEIVED"
    using sample_received request by simp
  ultimately show ?thesis by blast
qed

theorem in_order_delivery_completes_witness:
  "\<exists>request node.
     receive_packets ff_request_alloc [sample_left, sample_right] = Inr request \<and>
     state request = FF_REQUEST_STATE_RECEIVED \<and>
     ff_request_vectorise_payload request = Inr (request\<lparr>payload := [node]\<rparr>) \<and>
     unat (pl_length node) = length sample_message \<and>
     take (length sample_message) (pl_value node) = bytes sample_message"
  by (rule in_order_delivery_completes [OF _ _ sample_in_order]) (simp_all add: sample_message_def)

theorem late_left_neighbour_fails_witness:
  "\<exists>request request'.
     ff_request_parse_chunk ff_request_alloc (fst sample_right) (snd sample_right) = Inr request \<and>
     ff_request_parse_chunk request (fst sample_left) (snd sample_left) = Inr request' \<and>
     state request' = FF_REQUEST_STATE_RECEIVING_FAIL"
proof -
  have small: "length sample_message < 2 ^ 16" by (simp add: sample_message_def)
  obtain request where request:
      "ff_request_parse_chunk ff_request_alloc (fst sample_right) (snd sample_right) = Inr request"
      "reassembling 7 sample_message request" "payload request = [message_node sample_message 2 1]"
    using parse_chunk_step [OF reassembling_alloc small sample_carries(2)]
    by (auto simp: accepts_def ff_request_alloc_def)
  have "unat (pl_offset (message_node sample_message 2 1)) = 0 + 2"
    "0 < unat (pl_length (message_node sample_message 2 1))"
    by (simp_all add: message_node_def)
  then show ?thesis
    using late_left_neighbour_fails [OF request(2) small sample_carries(1)] request by auto
qed

end
