(* ===== verification/Payload_Options.thy ===== *)
theory Payload_Options
  imports Reassembly
begin

text \<open>
  Options: those of the first packet, and those at the start of the (decrypted) payload that
  \<open>ff_request_parse_options_from_payload\<close> moves into the request.
\<close>

section \<open>Options of a packet\<close>

text \<open>What a reader of the request sees of an option: its type and the bytes of its value.\<close>

definition option_view :: "ff_request_option_node \<Rightarrow> byte \<times> block" where
  "option_view node = (opt_type node, take (unat (opt_length node)) (opt_value node))"

lemma option_view_node: "wire_option_ok w \<Longrightarrow> option_view (option_node w) = (fst w, bytes (snd w))"
  by (simp add: option_view_def option_node_def wire_option_ok_def unat_of_nat_16)

lemma option_view_nodes:
  "list_all wire_option_ok ws \<Longrightarrow>
     map (option_view \<circ> option_node) ws = map (\<lambda>w. (fst w, bytes (snd w))) ws"
  by (induction ws) (simp_all add: option_view_node)

text \<open>
  C7. Options round trip. Parsing the encoding of a list of options and its terminator returns
  the length of the encoding and appends exactly those options, in order, to those the request
  has, as long as there are fewer than twenty in all; the flag \<open>payload_contains_options\<close> tells
  whether the terminator was BREAK.
\<close>

theorem options_roundtrip:
  assumes "options_ok request" and "list_all wire_option_ok ws"
    and "t = FF_REQUEST_OPTION_TYPE_EOL \<or> t = FF_REQUEST_OPTION_TYPE_BREAK"
    and "length (wire_options ws t) \<le> unat n" and "unat n < 2 ^ 31"
    and "unat n \<le> length (wire_options ws t @ post)"
    and "length (options request) + length ws < FF_REQUEST_MAX_OPTIONS"
  shows "\<exists>request'. ff_request_parse_options request n (bytes (wire_options ws t @ post) @ rest) =
      Inr (request', length (wire_options ws t)) \<and>
    map option_view (options request') =
      map option_view (options request) @ map (\<lambda>w. (fst w, bytes (snd w))) ws \<and>
    unat (options_length request') = length (options request') \<and>
    payload_contains_options request' = (t = FF_REQUEST_OPTION_TYPE_BREAK)"
proof -
  have "unat (options_length request + of_nat (length ws)) = length (options request) + length ws"
    using assms(1,7) by (subst unat_plus_less)
      (simp_all add: options_ok_def FF_REQUEST_MAX_OPTIONS_def unat_of_nat)
  then show ?thesis
    using parse_options_wire [OF assms(1,5,4,2,3,6), of rest] assms(2,7)
    by (simp add: add_options_def option_view_nodes)
qed

definition sample_options :: "(byte \<times> byte list) list" where
  "sample_options = [(FF_REQUEST_OPTION_TYPE_HTTPS, [1]), (FF_REQUEST_OPTION_TYPE_TIMESTAMP, [0, 0, 0, 0, 0, 0, 0, 9])]"

lemma sample_options_ok:
  "list_all wire_option_ok sample_options" "length sample_options = 2"
  "length (wire_options sample_options t) = 18"
  by (simp_all add: sample_options_def wire_option_ok_def option_type_defs length_wire_options)

lemma alloc_options: "options_ok ff_request_alloc" "options ff_request_alloc = []"
  using request_ok_alloc by (simp_all add: request_ok_def) (simp add: ff_request_alloc_def)

theorem options_roundtrip_witness:
  "\<exists>request'. ff_request_parse_options ff_request_alloc 18
       (bytes (wire_options sample_options FF_REQUEST_OPTION_TYPE_EOL @ []) @ []) =
       Inr (request', length (wire_options sample_options FF_REQUEST_OPTION_TYPE_EOL)) \<and>
     map option_view (options request') =
       map option_view (options ff_request_alloc) @ map (\<lambda>w. (fst w, bytes (snd w))) sample_options \<and>
     unat (options_length request') = length (options request') \<and>
     payload_contains_options request' = (FF_REQUEST_OPTION_TYPE_EOL = FF_REQUEST_OPTION_TYPE_BREAK)"
  by (rule options_roundtrip) (simp_all add: alloc_options sample_options_ok FF_REQUEST_MAX_OPTIONS_def)

text \<open>
  C8. The option limit is 19. Options that would bring the request to
  \<open>FF_REQUEST_MAX_OPTIONS\<close> (20) or more are all rejected, although the local array has room for
  twenty: the loop gives up before it reads the terminator after the twentieth.
\<close>

theorem options_limit:
  assumes "options_ok request" and "list_all wire_option_ok ws"
    and "t = FF_REQUEST_OPTION_TYPE_EOL \<or> t = FF_REQUEST_OPTION_TYPE_BREAK"
    and "length (wire_options ws t) \<le> unat n" and "unat n < 2 ^ 31"
    and "unat n \<le> length (wire_options ws t @ post)"
    and "FF_REQUEST_MAX_OPTIONS \<le> length (options request) + length ws"
  shows "ff_request_parse_options request n (bytes (wire_options ws t @ post) @ rest) = Inr (request, 0)"
  using parse_options_wire [OF assms(1,5,4,2,3,6), of rest] assms(7) by simp

theorem options_limit_witness:
  "ff_request_parse_options ff_request_alloc 63
     (bytes (wire_options (replicate 20 (FF_REQUEST_OPTION_TYPE_HTTPS, [])) FF_REQUEST_OPTION_TYPE_EOL @ []) @ [])
   = Inr (ff_request_alloc, 0)"
  by (rule options_limit)
    (simp_all add: alloc_options FF_REQUEST_MAX_OPTIONS_def length_wire_options wire_option_ok_def
      option_type_defs list_all_iff sum_list_replicate)

section \<open>Options in the payload\<close>

text \<open>A request whose reassembled payload holds options and then a body.\<close>

definition holds_payload :: "ff_request \<Rightarrow> byte list \<Rightarrow> bool" where
  "holds_payload request bs \<longleftrightarrow>
     (\<exists>node rest. payload request = [node] \<and> pl_live node \<and>
        unat (pl_length node) = length bs \<and> pl_value node = bytes bs @ rest)"

lemma payload_node_free_live: "pl_live node \<Longrightarrow> ff_request_payload_node_free node = Inr (node\<lparr>pl_live := False\<rparr>)"
  by (simp add: ff_request_payload_node_free_def)

lemma free_dangling_payload:
  "options_ok request \<Longrightarrow> payload request = [node] \<Longrightarrow> \<not> pl_live node \<Longrightarrow>
     ff_request_free request = Inl UseAfterFree"
  by (simp add: ff_request_free_def options_live_free options_ok_live ff_request_payload_node_free_def)

text \<open>The options at the front of the payload, and the request with them.\<close>

lemma parse_payload_options:
  assumes "options_ok request" and "payload request = [node]" "unat (pl_length node) = length (wire_options ws t) + length body"
    and "t = FF_REQUEST_OPTION_TYPE_EOL \<or> t = FF_REQUEST_OPTION_TYPE_BREAK"
    and "list_all wire_option_ok ws" "length (options request) + length ws < FF_REQUEST_MAX_OPTIONS"
  shows "ff_request_parse_options (request\<lparr>state := FF_REQUEST_STATE_PARSING_OPTIONS\<rparr>)
      (ucast (pl_length node)) (bytes (wire_options ws t @ body) @ rest)
    = Inr (add_options ws t (request\<lparr>state := FF_REQUEST_STATE_PARSING_OPTIONS\<rparr>), length (wire_options ws t))"
  using assms unat_lt_16 [of "pl_length node"] by (subst parse_options_wire) (auto simp: options_ok_def)

lemma add_options_ok:
  assumes "options_ok request" and "list_all wire_option_ok ws" "length (options request) + length ws < FF_REQUEST_MAX_OPTIONS"
  shows "options_ok (add_options ws t request)"
proof -
  have "request_ok (add_options ws t (request\<lparr>payload := [], received_length := 0\<rparr>))"
    using assms by (intro add_options_props) (simp_all add: request_ok_def options_ok_def payload_ok_def)
  then show ?thesis by (simp add: request_ok_def options_ok_def add_options_def)
qed

lemma body_options_parsed:
  assumes opts: "options_ok request" and flag: "payload_contains_options request"
    and pay: "holds_payload request (wire_options ws FF_REQUEST_OPTION_TYPE_EOL @ body)" and body: "body \<noteq> []"
    and ws: "list_all wire_option_ok ws" "length (options request) + length ws < FF_REQUEST_MAX_OPTIONS"
  shows "ff_request_parse_options_from_payload request = Inr ((add_options ws FF_REQUEST_OPTION_TYPE_EOL request)
    \<lparr>state := FF_REQUEST_STATE_PARSED_OPTIONS, payload_length := of_nat (length body),
     payload := [\<lparr>pl_offset = 0, pl_length = of_nat (length body), pl_value = bytes body @ block_alloc (length body * 7), pl_live = True\<rparr>]\<rparr>)"
proof -
  let ?w = "wire_options ws FF_REQUEST_OPTION_TYPE_EOL" and ?l = "of_nat (length body) :: 16 word"
  obtain node rest where node: "payload request = [node]" "pl_live node"
      "unat (pl_length node) = length ?w + length body" "pl_value node = bytes (?w @ body) @ rest"
    using pay by (auto simp: holds_payload_def)
  have small: "length body < 2 ^ 16"
    using node(3) unat_lt_16 [of "pl_length node"] by simp
  have w: "length ?w \<noteq> 0" by (simp add: length_wire_options)
  have load: "load_buff (ucast ?l) (bytes body @ rest) = Inr (bytes body @ block_alloc (length body * 7))"
    using small by (intro load_buff_bytes) (simp add: unat_of_nat_16)
  have cast: "(ucast ?l :: 64 word) = of_nat (length body)"
    using small by (simp add: word_unat_eq_iff unat_of_nat)
  show ?thesis
    using node parse_payload_options [OF opts node(1,3) _ ws, of rest] w body flag load cast
    by (simp add: ff_request_parse_options_from_payload_def Let_def ff_request_payload_load_buff_def
        ff_request_payload_node_alloc_def payload_node_free_live add_options_def
        FF_REQUEST_OPTION_TYPE_EOL_def FF_REQUEST_OPTION_TYPE_BREAK_def)
qed

lemma body_options_failed:
  assumes opts: "options_ok request" and flag: "payload_contains_options request"
    and pay: "payload request = [node]" "pl_live node" "unat (pl_length node) = length (wire_options ws t) + length body"
      "pl_value node = bytes (wire_options ws t @ body) @ rest"
    and t: "t = FF_REQUEST_OPTION_TYPE_EOL \<and> body = [] \<or> t = FF_REQUEST_OPTION_TYPE_BREAK"
    and ws: "list_all wire_option_ok ws" "length (options request) + length ws < FF_REQUEST_MAX_OPTIONS"
  shows "ff_request_parse_options_from_payload request = Inr ((add_options ws t request)
    \<lparr>state := FF_REQUEST_STATE_PARSING_OPTIONS_FAILED, payload := [node\<lparr>pl_live := False\<rparr>]\<rparr>)"
proof -
  have "length (wire_options ws t) \<noteq> 0" by (simp add: length_wire_options)
  moreover have "t = FF_REQUEST_OPTION_TYPE_EOL \<or> t = FF_REQUEST_OPTION_TYPE_BREAK" using t by blast
  ultimately show ?thesis
    using pay parse_payload_options [OF opts pay(1,3) _ ws, of rest] flag t
    by (auto simp: ff_request_parse_options_from_payload_def Let_def payload_node_free_live add_options_def)
qed

text \<open>
  C9. Encrypted options are moved out of the payload. If the first packet announced options in
  the payload (BREAK) and the payload is the encoding of a list of options ended by EOL and a
  non-empty body, then \<open>ff_request_parse_options_from_payload\<close> ends in \<open>PARSED_OPTIONS\<close> with those
  options appended and the body as the payload, and the request can still be freed.
\<close>

theorem options_from_payload:
  assumes opts: "options_ok request" and flag: "payload_contains_options request"
    and pay: "holds_payload request (wire_options ws FF_REQUEST_OPTION_TYPE_EOL @ body)" and body: "body \<noteq> []"
    and ws: "list_all wire_option_ok ws" "length (options request) + length ws < FF_REQUEST_MAX_OPTIONS"
  shows "\<exists>request'. ff_request_parse_options_from_payload request = Inr request' \<and>
    state request' = FF_REQUEST_STATE_PARSED_OPTIONS \<and>
    map option_view (options request') =
      map option_view (options request) @ map (\<lambda>w. (fst w, bytes (snd w))) ws \<and>
    options_ok request' \<and> holds_payload request' body \<and>
    payload_length request' = of_nat (length body) \<and> \<not> payload_contains_options request' \<and>
    ff_request_free request' = Inr ()"
proof -
  let ?request = "(add_options ws FF_REQUEST_OPTION_TYPE_EOL request)
    \<lparr>state := FF_REQUEST_STATE_PARSED_OPTIONS, payload_length := of_nat (length body),
     payload := [\<lparr>pl_offset = 0, pl_length = of_nat (length body), pl_value = bytes body @ block_alloc (length body * 7), pl_live = True\<rparr>]\<rparr>"
  have small: "length body < 2 ^ 16"
    using pay unat_lt_16 by (auto simp: holds_payload_def) (metis le_add2 le_less_trans)
  have ok: "options_ok ?request"
    using add_options_ok [OF opts ws, of FF_REQUEST_OPTION_TYPE_EOL] by (simp add: options_ok_def)
  then have "ff_request_free ?request = Inr ()"
    using ff_request_free_safe [OF options_ok_live [OF ok]] by simp
  then show ?thesis
    using small ws(1) ok body_options_parsed [OF assms]
    by (intro exI [of _ ?request])
      (auto simp: holds_payload_def add_options_def option_view_nodes unat_of_nat_16
        FF_REQUEST_OPTION_TYPE_EOL_def FF_REQUEST_OPTION_TYPE_BREAK_def)
qed

definition sample_private :: ff_request where
  "sample_private = ff_request_alloc\<lparr>payload_contains_options := True, payload :=
     [\<lparr>pl_offset = 0, pl_length = 20,
       pl_value = bytes (wire_options sample_options FF_REQUEST_OPTION_TYPE_EOL @ [65, 66]), pl_live = True\<rparr>]\<rparr>"

lemma sample_private_props:
  "options_ok sample_private" "payload_contains_options sample_private" "options sample_private = []"
  "holds_payload sample_private (wire_options sample_options FF_REQUEST_OPTION_TYPE_EOL @ [65, 66])"
  by (simp_all add: sample_private_def options_ok_def ff_request_alloc_def FF_REQUEST_MAX_OPTIONS_def
      holds_payload_def sample_options_ok)

theorem options_from_payload_witness:
  "\<exists>request'. ff_request_parse_options_from_payload sample_private = Inr request' \<and>
    state request' = FF_REQUEST_STATE_PARSED_OPTIONS \<and>
    map option_view (options request') =
      map option_view (options sample_private) @ map (\<lambda>w. (fst w, bytes (snd w))) sample_options \<and>
    options_ok request' \<and> holds_payload request' [65, 66] \<and>
    payload_length request' = of_nat (length [65 :: byte, 66]) \<and> \<not> payload_contains_options request' \<and>
    ff_request_free request' = Inr ()"
  by (rule options_from_payload [OF sample_private_props(1,2,4)])
    (simp_all add: sample_private_props sample_options_ok FF_REQUEST_MAX_OPTIONS_def)

text \<open>
  C10. The error path of \<open>ff_request_parse_options_from_payload\<close> leaves a dangling payload. If the
  options of the payload leave no body, or end with another BREAK, the function frees the payload
  node and sets \<open>PARSING_OPTIONS_FAILED\<close>, but the request still points to the node: the
  \<open>ff_request_free\<close> that follows frees it a second time.
\<close>

theorem failed_payload_options_double_free:
  assumes opts: "options_ok request" and flag: "payload_contains_options request"
    and pay: "holds_payload request (wire_options ws t @ body)"
    and t: "t = FF_REQUEST_OPTION_TYPE_EOL \<and> body = [] \<or> t = FF_REQUEST_OPTION_TYPE_BREAK"
    and ws: "list_all wire_option_ok ws" "length (options request) + length ws < FF_REQUEST_MAX_OPTIONS"
  shows "\<exists>request'. ff_request_parse_options_from_payload request = Inr request' \<and>
    state request' = FF_REQUEST_STATE_PARSING_OPTIONS_FAILED \<and>
    ff_request_free request' = Inl UseAfterFree"
proof -
  obtain node rest where node: "payload request = [node]" "pl_live node"
      "unat (pl_length node) = length (wire_options ws t) + length body" "pl_value node = bytes (wire_options ws t @ body) @ rest"
    using pay by (auto simp: holds_payload_def)
  let ?request = "(add_options ws t request)\<lparr>state := FF_REQUEST_STATE_PARSING_OPTIONS_FAILED, payload := [node\<lparr>pl_live := False\<rparr>]\<rparr>"
  have "options_ok ?request" using add_options_ok [OF opts ws, of t] by (simp add: options_ok_def)
  then have "ff_request_free ?request = Inl UseAfterFree"
    by (rule free_dangling_payload [where node = "node\<lparr>pl_live := False\<rparr>"]) simp_all
  then show ?thesis
    using body_options_failed [OF opts flag node t ws] by (intro exI [of _ ?request]) simp
qed

definition sample_no_body :: ff_request where
  "sample_no_body = ff_request_alloc\<lparr>payload_contains_options := True, payload :=
     [\<lparr>pl_offset = 0, pl_length = 18,
       pl_value = bytes (wire_options sample_options FF_REQUEST_OPTION_TYPE_EOL), pl_live = True\<rparr>]\<rparr>"

theorem failed_payload_options_double_free_witness:
  "\<exists>request'. ff_request_parse_options_from_payload sample_no_body = Inr request' \<and>
    state request' = FF_REQUEST_STATE_PARSING_OPTIONS_FAILED \<and>
    ff_request_free request' = Inl UseAfterFree"
  by (rule failed_payload_options_double_free [where ws = sample_options and body = "[]" and t = FF_REQUEST_OPTION_TYPE_EOL])
    (simp_all add: sample_no_body_def options_ok_def ff_request_alloc_def FF_REQUEST_MAX_OPTIONS_def
      holds_payload_def sample_options_ok)

end
