(* ===== verification/Option_Scan.thy ===== *)
theory Option_Scan
  imports Payload_Options
begin

text \<open>
  The loops over \<open>request->options\<close> that the decryption, the HTTP sender and the timestamp check
  share: reading option \<open>i\<close> for every \<open>i\<close>, upwards or downwards, is a fold over the list of
  option nodes.
\<close>

section \<open>Loops over the options\<close>

definition scan_options :: "ff_request \<Rightarrow> nat list \<Rightarrow> (ff_request_option_node \<Rightarrow> 's \<Rightarrow> 's res) \<Rightarrow> 's \<Rightarrow> 's res" where
  "scan_options request idxs step = res_fold (\<lambda>i s. res_bind (option_at request i) (\<lambda>node. step node s)) idxs"

lemma scan_options_idxs:
  assumes "options_live request" and "set idxs \<subseteq> {..<length (options request)}"
  shows "scan_options request idxs step s = res_fold step (map ((!) (options request)) idxs) s"
  unfolding scan_options_def res_fold_map
  using assms by (intro res_fold_cong) (auto simp: option_at_def options_live_def list_all_length Let_def)

lemma scan_options_up:
  assumes "options_live request"
  shows "scan_options request [0..<unat (options_length request)] step s = res_fold step (options request) s"
  using scan_options_idxs [OF assms, of "[0..<length (options request)]" step s] assms
  by (auto simp: options_live_def map_nth lessThan_atLeast0)

lemma scan_options_down:
  assumes "options_live request"
  shows "scan_options request (rev [0..<unat (options_length request)]) step s = res_fold step (rev (options request)) s"
  using scan_options_idxs [OF assms, of "rev [0..<length (options request)]" step s] assms
  by (auto simp: options_live_def map_nth lessThan_atLeast0 simp flip: rev_map)

section \<open>The values of the options\<close>

definition has_options :: "ff_request \<Rightarrow> (byte \<times> byte list) list \<Rightarrow> bool" where
  "has_options request ws \<longleftrightarrow>
     options_ok request \<and> map option_view (options request) = map (\<lambda>w. (fst w, bytes (snd w))) ws"

lemma has_options_ok: "has_options request ws \<Longrightarrow> options_ok request"
  by (simp add: has_options_def)

text \<open>A node that shows the option \<open>w\<close>.\<close>

definition shows_option :: "ff_request_option_node \<Rightarrow> byte \<times> byte list \<Rightarrow> bool" where
  "shows_option node w \<longleftrightarrow>
     option_ok node \<and> opt_type node = fst w \<and> unat (opt_length node) = length (snd w) \<and>
     (\<exists>rest. opt_value node = bytes (snd w) @ rest)"

lemma shows_option_view:
  "option_ok node \<Longrightarrow> option_view node = (fst w, bytes (snd w)) \<Longrightarrow> shows_option node w"
  unfolding shows_option_def option_view_def option_ok_def readable_def
  by (metis append_take_drop_id fst_conv length_bytes length_take min.absorb2 snd_conv)

lemma has_options_shows:
  assumes "has_options request ws"
  shows "list_all2 shows_option (options request) ws"
proof -
  have len: "length (options request) = length ws"
    using assms by (auto simp: has_options_def dest: map_eq_imp_length_eq)
  have "shows_option (options request ! k) (ws ! k)" if "k < length ws" for k
  proof (rule shows_option_view)
    show "option_ok (options request ! k)"
      using assms that len by (auto simp: has_options_def options_ok_def list_all_length)
    have "map option_view (options request) ! k = map (\<lambda>w. (fst w, bytes (snd w))) ws ! k"
      using assms by (simp add: has_options_def)
    then show "option_view (options request ! k) = (fst (ws ! k), bytes (snd (ws ! k)))"
      using that len by simp
  qed
  then show ?thesis using len by (simp add: list_all2_conv_all_nth)
qed

lemma options_ok_has_options: "options_ok request \<Longrightarrow> \<exists>ws. has_options request ws"
proof -
  assume ok: "options_ok request"
  have "\<exists>w. option_view node = (fst w, bytes (snd w))" if "node \<in> set (options request)" for node
  proof -
    have "option_ok node" using ok that by (auto simp: options_ok_def list_all_iff)
    then obtain bs rest where "length bs = unat (opt_length node)" "opt_value node = bytes bs @ rest"
      by (auto simp: option_ok_def readable_iff_bytes)
    then show ?thesis by (intro exI [of _ "(opt_type node, bs)"]) (simp add: option_view_def)
  qed
  then obtain f where "\<forall>node \<in> set (options request). option_view node = (fst (f node), bytes (snd (f node)))"
    by metis
  then show ?thesis
    using ok by (intro exI [of _ "map f (options request)"]) (simp add: has_options_def)
qed

text \<open>Reading the value of an option.\<close>

lemma shows_option_reads:
  assumes "shows_option node w"
  shows "block_copy (opt_value node) (unat (opt_length node)) = Inr (bytes (snd w))"
    and "i < length (snd w) \<Longrightarrow> block_read (opt_value node) i = Inr (snd w ! i)"
  using assms by (auto simp: shows_option_def block_read_bytes)

lemma res_fold_shows:
  assumes "list_all2 shows_option nodes ws"
    and "\<And>node w s. shows_option node w \<Longrightarrow> f node s = Inr (g w s)"
  shows "res_fold f nodes s = Inr (fold g ws s)"
  using assms(1) by (induction arbitrary: s rule: list_all2_induct) (simp_all add: assms(2))

lemma scan_up_fold:
  assumes "has_options request ws" and "\<And>node w s. shows_option node w \<Longrightarrow> f node s = Inr (g w s)"
  shows "scan_options request [0..<unat (options_length request)] f s = Inr (fold g ws s)"
  using scan_options_up [OF options_ok_live [OF has_options_ok [OF assms(1)]], of f s]
    res_fold_shows [OF has_options_shows [OF assms(1)], of f g] assms(2) by simp

lemma scan_down_fold:
  assumes "has_options request ws" and "\<And>node w s. shows_option node w \<Longrightarrow> f node s = Inr (g w s)"
  shows "scan_options request (rev [0..<unat (options_length request)]) f s = Inr (fold g (rev ws) s)"
  using scan_options_down [OF options_ok_live [OF has_options_ok [OF assms(1)]], of f s]
    res_fold_shows [of "rev (options request)" "rev ws" f g] has_options_shows [OF assms(1)] assms(2) by simp

end
