(* ===== verification/Crypto.thy ===== *)
theory Crypto
  imports Option_Scan
begin

text \<open>
  Decryption: \<open>src/crypto.c\<close>, \<open>src/crypto.h\<close> and \<open>src/crypto_p.h\<close>.

  OpenSSL is a parameter: a record of the \<open>EVP\<close> calls the code makes (a call that fails is
  \<open>None\<close>) and a function for \<open>PKCS5_PBKDF2_HMAC\<close>. What its documentation promises of the calls
  is the hypothesis \<open>gcm_spec\<close>. The lemmas show that decryption never faults and always ends in
  one of its two states, that a configured key cannot be bypassed, and that an accepted payload
  is the authenticated plaintext.
\<close>

section \<open>Data\<close>

definition FF_CRYPTO_MODE_AES_256_GCM :: byte where "FF_CRYPTO_MODE_AES_256_GCM = 1"
definition FF_KEY_DERIVE_MODE_PBKDF2 :: byte where "FF_KEY_DERIVE_MODE_PBKDF2 = 1"

text \<open>The key is a C string (its characters, without the terminator) or NULL.\<close>

record ff_encryption_config =
  enc_key :: "byte list option"
  pbkdf2_iterations :: "32 word"

record ff_derived_key =
  dk_key :: "byte list"
  dk_length :: "16 word"

text \<open>The OpenSSL calls: \<open>EVP_CIPHER_CTX_new\<close>, \<open>EVP_DecryptInit_ex\<close> with the cipher, the IV length
  control, \<open>EVP_DecryptInit_ex\<close> with key and IV, \<open>EVP_DecryptUpdate\<close>, the tag control and
  \<open>EVP_DecryptFinal_ex\<close>.\<close>

record 'c evp =
  evp_new :: "'c option"
  evp_init :: "'c \<Rightarrow> 'c option"
  evp_set_ivlen :: "'c \<Rightarrow> nat \<Rightarrow> 'c option"
  evp_init_key :: "'c \<Rightarrow> byte list \<Rightarrow> byte list \<Rightarrow> 'c option"
  evp_update :: "'c \<Rightarrow> byte list \<Rightarrow> ('c \<times> byte list) option"
  evp_set_tag :: "'c \<Rightarrow> byte list \<Rightarrow> 'c option"
  evp_final :: "'c \<Rightarrow> byte list option"

text \<open>\<open>PKCS5_PBKDF2_HMAC\<close> with SHA-256: password, salt, iterations, length.\<close>

type_synonym pbkdf2 = "byte list \<Rightarrow> byte list \<Rightarrow> 32 word \<Rightarrow> nat \<Rightarrow> byte list option"

section \<open>Key derivation\<close>

definition ff_derived_key_alloc :: "16 word \<Rightarrow> ff_derived_key" where
  "ff_derived_key_alloc l = \<lparr>dk_key = replicate (unat l) 0, dk_length = l\<rparr>"

text \<open>\<open>Some\<close> is the return value true, with the key written to \<open>out_key\<close>.\<close>

definition ff_derive_key_pbkdf2 ::
  "pbkdf2 \<Rightarrow> ff_encryption_config \<Rightarrow> block \<Rightarrow> ff_derived_key \<Rightarrow> ff_derived_key option res" where
  "ff_derive_key_pbkdf2 pbkdf2 config salt out_key =
     (case enc_key config of
        None \<Rightarrow> Inl NullDeref
      | Some k \<Rightarrow>
          res_bind (block_reads salt 0 (length salt)) (\<lambda>salt.
          Inr (case pbkdf2 k salt (pbkdf2_iterations config) (unat (dk_length out_key)) of
                 None \<Rightarrow> None
               | Some dk \<Rightarrow> Some (out_key\<lparr>dk_key := dk\<rparr>))))"

definition derive_key_step ::
  "ff_request_option_node \<Rightarrow> byte \<times> block option \<Rightarrow> (byte \<times> block option) res" where
  "derive_key_step node = (\<lambda>(mode, salt).
     if opt_type node = FF_REQUEST_OPTION_TYPE_KEY_DERIVE_MODE then
       (if opt_length node = 1
        then res_bind (block_read (opt_value node) 0) (\<lambda>b. Inr (b, salt))
        else Inr (mode, salt))
     else if opt_type node = FF_REQUEST_OPTION_TYPE_KEY_DERIVE_SALT then
       res_bind (block_copy (opt_value node) (unat (opt_length node))) (\<lambda>c. Inr (mode, Some c))
     else Inr (mode, salt))"

definition ff_derive_key ::
  "pbkdf2 \<Rightarrow> ff_request \<Rightarrow> ff_encryption_config \<Rightarrow> ff_derived_key \<Rightarrow> ff_derived_key option res" where
  "ff_derive_key pbkdf2 request config out_key =
     res_bind (scan_options request [0..<unat (options_length request)] derive_key_step (0, None))
       (\<lambda>(mode, salt).
     if mode = 0 then Inr None
     else case salt of
       None \<Rightarrow> Inr None
     | Some salt \<Rightarrow>
         if salt = [] then Inr None
         else if mode = FF_KEY_DERIVE_MODE_PBKDF2 then ff_derive_key_pbkdf2 pbkdf2 config salt out_key
         else Inr None)"

section \<open>Decryption\<close>

text \<open>The loop of lines 172 to 182: \<open>None\<close> is the jump to \<open>error\<close>.\<close>

fun decrypt_updates ::
  "'c evp \<Rightarrow> 'c \<Rightarrow> ff_request_payload_node list \<Rightarrow> block \<Rightarrow> nat \<Rightarrow> ('c \<times> block \<times> nat) option res" where
  "decrypt_updates evp ctx [] plaintext_buff plaintext_len = Inl NullDeref"
| "decrypt_updates evp ctx (node # nodes) plaintext_buff plaintext_len =
     (if \<not> pl_live node then Inl UseAfterFree
      else
        res_bind (block_reads (pl_value node) 0 (unat (pl_length node))) (\<lambda>input.
        case evp_update evp ctx input of
          None \<Rightarrow> Inr None
        | Some (ctx, out) \<Rightarrow>
            res_bind (block_write plaintext_buff plaintext_len (bytes out)) (\<lambda>plaintext_buff.
            let plaintext_len = plaintext_len + length out in
            if nodes = [] then Inr (Some (ctx, plaintext_buff, plaintext_len))
            else decrypt_updates evp ctx nodes plaintext_buff plaintext_len)))"

text \<open>Lines 148 to 170: the context, or \<open>None\<close> for the jump to \<open>error\<close>.\<close>

definition decrypt_context :: "'c evp \<Rightarrow> byte list \<Rightarrow> block \<Rightarrow> 'c option res" where
  "decrypt_context evp key iv =
     (case evp_new evp of
        None \<Rightarrow> Inr None
      | Some ctx \<Rightarrow>
          (case evp_init evp ctx of
             None \<Rightarrow> Inr None
           | Some ctx \<Rightarrow>
               (case evp_set_ivlen evp ctx (length iv) of
                  None \<Rightarrow> Inr None
                | Some ctx \<Rightarrow>
                    res_bind (block_reads iv 0 (length iv)) (\<lambda>iv. Inr (evp_init_key evp ctx key iv)))))"

text \<open>\<open>Some\<close> is the return value true, with the changed request; on false it is unchanged.\<close>

definition ff_decrypt_request_aes_256_gcm ::
  "'c evp \<Rightarrow> pbkdf2 \<Rightarrow> ff_request \<Rightarrow> ff_encryption_config \<Rightarrow> block \<Rightarrow> block \<Rightarrow> ff_request option res" where
  "ff_decrypt_request_aes_256_gcm evp pbkdf2 request config iv tag =
     (let plaintext_buff = block_alloc (unat (payload_length request)) in
      res_bind (ff_derive_key pbkdf2 request config (ff_derived_key_alloc 32)) (\<lambda>derived.
      case derived of
        None \<Rightarrow> Inr None
      | Some derived_key \<Rightarrow>
          res_bind (decrypt_context evp (dk_key derived_key) iv) (\<lambda>ctx.
          case ctx of
            None \<Rightarrow> Inr None
          | Some ctx \<Rightarrow>
              res_bind (decrypt_updates evp ctx (payload request) plaintext_buff 0) (\<lambda>updated.
              case updated of
                None \<Rightarrow> Inr None
              | Some (ctx, plaintext_buff, plaintext_len) \<Rightarrow>
                  res_bind (block_reads tag 0 (length tag)) (\<lambda>tag.
                  case evp_set_tag evp ctx tag of
                    None \<Rightarrow> Inr None
                  | Some ctx \<Rightarrow>
                      (case evp_final evp ctx of
                         None \<Rightarrow> Inr None
                       | Some out \<Rightarrow>
                           res_bind (block_write plaintext_buff plaintext_len (bytes out)) (\<lambda>plaintext_buff.
                           let plaintext_len = plaintext_len + length out in
                           res_bind (free_payload_loop (payload request)) (\<lambda>_.
                           Inr (Some (request\<lparr>payload_length := of_nat plaintext_len,
                             payload := [ff_request_payload_node_alloc
                               \<lparr>pl_length := of_nat plaintext_len, pl_offset := 0, pl_value := plaintext_buff\<rparr>]\<rparr>)))))))))) "

definition decrypt_step ::
  "ff_request_option_node \<Rightarrow> byte \<times> block option \<times> block option \<Rightarrow> (byte \<times> block option \<times> block option) res" where
  "decrypt_step node = (\<lambda>(mode, iv, tag).
     if opt_type node = FF_REQUEST_OPTION_TYPE_ENCRYPTION_MODE then
       (if opt_length node = 1
        then res_bind (block_read (opt_value node) 0) (\<lambda>b. Inr (b, iv, tag))
        else Inr (mode, iv, tag))
     else if opt_type node = FF_REQUEST_OPTION_TYPE_ENCRYPTION_IV then
       res_bind (block_copy (opt_value node) (unat (opt_length node))) (\<lambda>c. Inr (mode, Some c, tag))
     else if opt_type node = FF_REQUEST_OPTION_TYPE_ENCRYPTION_TAG then
       res_bind (block_copy (opt_value node) (unat (opt_length node))) (\<lambda>c. Inr (mode, iv, Some c))
     else Inr (mode, iv, tag))"

definition ff_decrypt_request ::
  "'c evp \<Rightarrow> pbkdf2 \<Rightarrow> ff_request \<Rightarrow> ff_encryption_config \<Rightarrow> ff_request res" where
  "ff_decrypt_request evp pbkdf2 request config =
     (let request = request\<lparr>state := FF_REQUEST_STATE_DECRYPTING\<rparr>;
          has_key = (enc_key config \<noteq> None);
          error = Inr (request\<lparr>state := FF_REQUEST_STATE_DECRYPTING_FAILED\<rparr>)
      in res_bind (scan_options request [0..<unat (options_length request)] decrypt_step (0, None, None))
           (\<lambda>(mode, iv, tag).
         if mode = 0 then
           (if has_key then error else Inr (request\<lparr>state := FF_REQUEST_STATE_DECRYPTED\<rparr>))
         else if \<not> has_key then error
         else case iv of
           None \<Rightarrow> error
         | Some iv \<Rightarrow>
             if iv = [] then error
             else (case tag of
               None \<Rightarrow> error
             | Some tag \<Rightarrow>
                 if tag = [] then error
                 else if mode = FF_CRYPTO_MODE_AES_256_GCM then
                   res_bind (ff_decrypt_request_aes_256_gcm evp pbkdf2 request config iv tag) (\<lambda>r.
                   case r of
                     None \<Rightarrow> error
                   | Some request \<Rightarrow> Inr (request\<lparr>state := FF_REQUEST_STATE_DECRYPTED\<rparr>))
                 else error)))"

section \<open>What the option loops find\<close>

text \<open>The value of the last option of a type; a mode is the last one that has exactly one byte.\<close>

definition value_of :: "byte \<Rightarrow> (byte \<times> byte list) list \<Rightarrow> byte list option" where
  "value_of t ws = map_of (rev ws) t"

definition mode_of :: "byte \<Rightarrow> (byte \<times> byte list) list \<Rightarrow> byte" where
  "mode_of t ws = (case value_of t (filter (\<lambda>w. length (snd w) = 1) ws) of None \<Rightarrow> 0 | Some v \<Rightarrow> hd v)"

lemma value_of_snoc: "value_of t (ws @ [w]) = (if fst w = t then Some (snd w) else value_of t ws)"
  by (cases w) (simp add: value_of_def)

lemma mode_of_snoc:
  "mode_of t (ws @ [w]) = (if fst w = t \<and> length (snd w) = 1 then hd (snd w) else mode_of t ws)"
  by (simp add: mode_of_def value_of_snoc)

lemma value_of_Nil [simp]: "value_of t [] = None" "mode_of t [] = 0"
  by (simp_all add: value_of_def mode_of_def)

lemma opt_length_1: "shows_option node w \<Longrightarrow> opt_length node = 1 \<longleftrightarrow> length (snd w) = 1"
  by (auto simp: shows_option_def word_unat_eq_iff)

lemma hd_nth: "length xs = 1 \<Longrightarrow> xs ! 0 = hd xs"
  by (cases xs) auto

definition decrypt_pure :: "byte \<times> byte list \<Rightarrow> byte \<times> block option \<times> block option \<Rightarrow> byte \<times> block option \<times> block option" where
  "decrypt_pure w = (\<lambda>(mode, iv, tag).
     (if fst w = FF_REQUEST_OPTION_TYPE_ENCRYPTION_MODE \<and> length (snd w) = 1 then hd (snd w) else mode,
      if fst w = FF_REQUEST_OPTION_TYPE_ENCRYPTION_IV then Some (bytes (snd w)) else iv,
      if fst w = FF_REQUEST_OPTION_TYPE_ENCRYPTION_TAG then Some (bytes (snd w)) else tag))"

lemma decrypt_step_pure:
  assumes "shows_option node w"
  shows "decrypt_step node s = Inr (decrypt_pure w s)"
proof -
  have "opt_type node = fst w" using assms by (simp add: shows_option_def)
  then show ?thesis
    using shows_option_reads [OF assms] opt_length_1 [OF assms]
    by (cases s) (auto simp: decrypt_step_def decrypt_pure_def option_type_defs hd_nth)
qed

lemma decrypt_scan:
  assumes "has_options request ws"
  shows "scan_options request [0..<unat (options_length request)] decrypt_step (0, None, None) =
    Inr (mode_of FF_REQUEST_OPTION_TYPE_ENCRYPTION_MODE ws,
         map_option bytes (value_of FF_REQUEST_OPTION_TYPE_ENCRYPTION_IV ws),
         map_option bytes (value_of FF_REQUEST_OPTION_TYPE_ENCRYPTION_TAG ws))"
proof -
  have "fold decrypt_pure ws (0, None, None) =
     (mode_of FF_REQUEST_OPTION_TYPE_ENCRYPTION_MODE ws,
      map_option bytes (value_of FF_REQUEST_OPTION_TYPE_ENCRYPTION_IV ws),
      map_option bytes (value_of FF_REQUEST_OPTION_TYPE_ENCRYPTION_TAG ws))" for ws
    by (induction ws rule: rev_induct) (simp_all add: decrypt_pure_def value_of_snoc mode_of_snoc)
  then show ?thesis
    using scan_up_fold [OF assms, of decrypt_step decrypt_pure] decrypt_step_pure by simp
qed

definition derive_key_pure :: "byte \<times> byte list \<Rightarrow> byte \<times> block option \<Rightarrow> byte \<times> block option" where
  "derive_key_pure w = (\<lambda>(mode, salt).
     (if fst w = FF_REQUEST_OPTION_TYPE_KEY_DERIVE_MODE \<and> length (snd w) = 1 then hd (snd w) else mode,
      if fst w = FF_REQUEST_OPTION_TYPE_KEY_DERIVE_SALT then Some (bytes (snd w)) else salt))"

lemma derive_key_step_pure:
  assumes "shows_option node w"
  shows "derive_key_step node s = Inr (derive_key_pure w s)"
proof -
  have "opt_type node = fst w" using assms by (simp add: shows_option_def)
  then show ?thesis
    using shows_option_reads [OF assms] opt_length_1 [OF assms]
    by (cases s) (auto simp: derive_key_step_def derive_key_pure_def option_type_defs hd_nth)
qed

lemma derive_key_scan:
  assumes "has_options request ws"
  shows "scan_options request [0..<unat (options_length request)] derive_key_step (0, None) =
    Inr (mode_of FF_REQUEST_OPTION_TYPE_KEY_DERIVE_MODE ws,
         map_option bytes (value_of FF_REQUEST_OPTION_TYPE_KEY_DERIVE_SALT ws))"
proof -
  have "fold derive_key_pure ws (0, None) =
     (mode_of FF_REQUEST_OPTION_TYPE_KEY_DERIVE_MODE ws,
      map_option bytes (value_of FF_REQUEST_OPTION_TYPE_KEY_DERIVE_SALT ws))" for ws
    by (induction ws rule: rev_induct) (simp_all add: derive_key_pure_def value_of_snoc mode_of_snoc)
  then show ?thesis
    using scan_up_fold [OF assms, of derive_key_step derive_key_pure] derive_key_step_pure by simp
qed

text \<open>The key that the options of a request and the pre-shared key determine.\<close>

definition request_key :: "pbkdf2 \<Rightarrow> byte list \<Rightarrow> 32 word \<Rightarrow> (byte \<times> byte list) list \<Rightarrow> byte list option" where
  "request_key pbkdf2 k iterations ws =
     (if mode_of FF_REQUEST_OPTION_TYPE_KEY_DERIVE_MODE ws = FF_KEY_DERIVE_MODE_PBKDF2 then
        (case value_of FF_REQUEST_OPTION_TYPE_KEY_DERIVE_SALT ws of
           None \<Rightarrow> None
         | Some salt \<Rightarrow> if salt = [] then None else pbkdf2 k salt iterations 32)
      else None)"

lemma block_reads_all: "block_reads (bytes bs) 0 (length bs) = Inr bs"
  using block_reads_bytes [of 0 "length bs" bs "[]"] by simp

lemma bytes_eq_Nil [simp]: "bytes bs = [] \<longleftrightarrow> bs = []"
  by (simp add: bytes_def)

lemma ff_derive_key_eq:
  assumes "has_options request ws" and "enc_key config = Some k"
  shows "ff_derive_key pbkdf2 request config (ff_derived_key_alloc 32) =
    Inr (map_option (\<lambda>dk. \<lparr>dk_key = dk, dk_length = 32\<rparr>)
      (request_key pbkdf2 k (pbkdf2_iterations config) ws))"
  using assms(2)
  by (simp add: ff_derive_key_def derive_key_scan [OF assms(1)] request_key_def FF_KEY_DERIVE_MODE_PBKDF2_def
      ff_derive_key_pbkdf2_def ff_derived_key_alloc_def block_reads_all split: option.splits)

section \<open>The documented behaviour of OpenSSL\<close>

text \<open>
  The sequence of \<open>EVP\<close> calls for one block of ciphertext computes authenticated decryption:
  \<open>EVP_DecryptUpdate\<close> returns as many bytes as it is given, and \<open>EVP_DecryptFinal_ex\<close> adds no
  byte and fails exactly when the tag does not match.
\<close>

definition gcm_spec :: "'c evp \<Rightarrow> (byte list \<Rightarrow> byte list \<Rightarrow> byte list \<Rightarrow> byte list \<Rightarrow> byte list option) \<Rightarrow> bool" where
  "gcm_spec evp dec \<longleftrightarrow>
     (\<forall>c0 c1 c2 c3 c4 c5 key iv ct out tag.
        evp_new evp = Some c0 \<longrightarrow> evp_init evp c0 = Some c1 \<longrightarrow> evp_set_ivlen evp c1 (length iv) = Some c2 \<longrightarrow>
        evp_init_key evp c2 key iv = Some c3 \<longrightarrow> evp_update evp c3 ct = Some (c4, out) \<longrightarrow>
        length out = length ct \<and>
        (evp_set_tag evp c4 tag = Some c5 \<longrightarrow>
           (case evp_final evp c5 of
              None \<Rightarrow> dec key iv ct tag = None
            | Some r \<Rightarrow> r = [] \<and> dec key iv ct tag = Some out)))"

text \<open>None of the calls that prepare a decryption fails (memory is available).\<close>

definition gcm_ready :: "'c evp \<Rightarrow> bool" where
  "gcm_ready evp \<longleftrightarrow>
     evp_new evp \<noteq> None \<and> (\<forall>c. evp_init evp c \<noteq> None) \<and> (\<forall>c n. evp_set_ivlen evp c n \<noteq> None) \<and>
     (\<forall>c key iv. evp_init_key evp c key iv \<noteq> None) \<and> (\<forall>c ct. evp_update evp c ct \<noteq> None) \<and>
     (\<forall>c tag. evp_set_tag evp c tag \<noteq> None)"

section \<open>Decrypting one payload node\<close>

text \<open>The node that holds a decrypted payload.\<close>

definition plaintext_node :: "byte list \<Rightarrow> nat \<Rightarrow> ff_request_payload_node" where
  "plaintext_node pt n =
     \<lparr>pl_offset = 0, pl_length = of_nat (length pt), pl_value = bytes pt @ block_alloc (n - length pt), pl_live = True\<rparr>"

lemma block_write_alloc:
  "length bs \<le> n \<Longrightarrow> block_write (block_alloc n) 0 (bytes bs) = Inr (bytes bs @ block_alloc (n - length bs))"
  by (simp add: block_write_def block_alloc_def)

lemma block_write_Nil: "i \<le> length m \<Longrightarrow> block_write m i [] = Inr m"
  by (simp add: block_write_def)

lemma decrypt_context_ctx:
  "decrypt_context evp key (bytes iv) =
     Inr (Option.bind (evp_new evp) (\<lambda>c. Option.bind (evp_init evp c) (\<lambda>c.
       Option.bind (evp_set_ivlen evp c (length iv)) (\<lambda>c. evp_init_key evp c key iv))))"
  by (simp add: decrypt_context_def block_reads_all split: option.splits)

lemma decrypt_gcm_cases:
  assumes ok: "has_options request ws" and pay: "holds_payload request ct"
    and room: "length ct \<le> unat (payload_length request)" and k: "enc_key config = Some k"
    and spec: "gcm_spec evp dec"
  shows "\<exists>r. ff_decrypt_request_aes_256_gcm evp pbkdf2 request config (bytes iv) (bytes tag) = Inr r \<and>
    (\<forall>request'. r = Some request' \<longrightarrow> (\<exists>dk pt. request_key pbkdf2 k (pbkdf2_iterations config) ws = Some dk \<and>
       dec dk iv ct tag = Some pt \<and> length pt = length ct \<and>
       request' = request\<lparr>payload_length := of_nat (length pt),
         payload := [plaintext_node pt (unat (payload_length request))]\<rparr>)) \<and>
    (gcm_ready evp \<and> request_key pbkdf2 k (pbkdf2_iterations config) ws = Some dk \<and> dec dk iv ct tag \<noteq> None \<longrightarrow> r \<noteq> None)"
proof (cases "request_key pbkdf2 k (pbkdf2_iterations config) ws")
  case None
  then show ?thesis
    by (simp add: ff_decrypt_request_aes_256_gcm_def ff_derive_key_eq [OF ok k])
next
  case (Some dk')
  obtain node rest where node: "payload request = [node]" "pl_live node"
      "unat (pl_length node) = length ct" "pl_value node = bytes ct @ rest"
    using pay by (auto simp: holds_payload_def)
  have input: "block_reads (pl_value node) 0 (unat (pl_length node)) = Inr ct"
    using node(3,4) block_reads_bytes [of 0 "length ct" ct rest] by simp
  let ?n = "unat (payload_length request)"
  let ?ctx = "Option.bind (evp_new evp) (\<lambda>c. Option.bind (evp_init evp c) (\<lambda>c.
       Option.bind (evp_set_ivlen evp c (length iv)) (\<lambda>c. evp_init_key evp c dk' iv)))"
  have unfold: "ff_decrypt_request_aes_256_gcm evp pbkdf2 request config (bytes iv) (bytes tag) =
    (case ?ctx of
       None \<Rightarrow> Inr None
     | Some c3 \<Rightarrow>
        (case evp_update evp c3 ct of
           None \<Rightarrow> Inr None
         | Some (c4, out) \<Rightarrow>
             res_bind (block_write (block_alloc ?n) 0 (bytes out)) (\<lambda>m.
             case evp_set_tag evp c4 tag of
               None \<Rightarrow> Inr None
             | Some c5 \<Rightarrow>
                 (case evp_final evp c5 of
                    None \<Rightarrow> Inr None
                  | Some r \<Rightarrow>
                      res_bind (block_write m (length out) (bytes r)) (\<lambda>m.
                      Inr (Some (request\<lparr>payload_length := of_nat (length out + length r),
                        payload := [\<lparr>pl_offset = 0, pl_length = of_nat (length out + length r), pl_value = m, pl_live = True\<rparr>]\<rparr>)))))))"
    using Some node(1,2) input
    by (simp add: ff_decrypt_request_aes_256_gcm_def ff_derive_key_eq [OF ok k] decrypt_context_ctx Let_def
        block_reads_all ff_request_payload_node_free_def ff_request_payload_node_alloc_def res_bind_assoc
        cong del: option.case_cong_weak if_weak_cong split: option.splits)
  show ?thesis
  proof (cases ?ctx)
    case None
    moreover have "?ctx \<noteq> None" if "gcm_ready evp"
      using that by (auto simp: gcm_ready_def Option.bind_eq_None_conv)
    ultimately show ?thesis
      using unfold by (intro exI [of _ None]) auto
  next
    case c3: (Some c3)
    then obtain c0 c1 c2 where calls: "evp_new evp = Some c0" "evp_init evp c0 = Some c1"
        "evp_set_ivlen evp c1 (length iv) = Some c2" "evp_init_key evp c2 dk' iv = Some c3"
      by (auto simp: Option.bind_eq_Some_conv)
    show ?thesis
    proof (cases "evp_update evp c3 ct")
      case None
      then have "\<not> gcm_ready evp" unfolding gcm_ready_def by blast
      then show ?thesis using unfold c3 None by (intro exI [of _ None]) simp
    next
      case upd: (Some p)
      obtain c4 out where p: "p = (c4, out)" by (cases p)
      have len: "length out = length ct"
        using spec calls upd p unfolding gcm_spec_def by blast
      have tagged: "case evp_final evp c5 of None \<Rightarrow> dec dk' iv ct tag = None | Some r \<Rightarrow> r = [] \<and> dec dk' iv ct tag = Some out"
        if "evp_set_tag evp c4 tag = Some c5" for c5
        using spec calls upd p that unfolding gcm_spec_def by blast
      have wr: "block_write (block_alloc ?n) 0 (bytes out) = Inr (bytes out @ block_alloc (?n - length out))"
        using len room by (intro block_write_alloc) simp
      show ?thesis
      proof (cases "evp_set_tag evp c4 tag")
        case None
        then have "\<not> gcm_ready evp" unfolding gcm_ready_def by blast
        then show ?thesis using unfold c3 upd p wr None by (intro exI [of _ None]) simp
      next
        case tag: (Some c5)
        show ?thesis
        proof (cases "evp_final evp c5")
          case None
          then show ?thesis
            using unfold c3 upd p wr tag tagged [OF tag] Some by (intro exI [of _ None]) auto
        next
          case final: (Some r)
          then have "r = []" "dec dk' iv ct tag = Some out" using tagged [OF tag] by simp_all
          then show ?thesis
            using unfold c3 upd p wr tag final Some len
            by (simp add: block_write_Nil plaintext_node_def)
        qed
      qed
    qed
  qed
qed

lemma has_options_state [simp]: "has_options (request\<lparr>state := s\<rparr>) ws = has_options request ws"
  by (simp add: has_options_def options_ok_def)

lemma holds_payload_state [simp]: "holds_payload (request\<lparr>state := s\<rparr>) bs = holds_payload request bs"
  by (simp add: holds_payload_def)

text \<open>The two ways to accept a request: in the clear when there is no key, or authenticated.\<close>

definition authenticated ::
  "pbkdf2 \<Rightarrow> (byte list \<Rightarrow> byte list \<Rightarrow> byte list \<Rightarrow> byte list \<Rightarrow> byte list option) \<Rightarrow>
   ff_encryption_config \<Rightarrow> (byte \<times> byte list) list \<Rightarrow> byte list \<Rightarrow> byte list \<Rightarrow> bool" where
  "authenticated pbkdf2 dec config ws ct pt \<longleftrightarrow>
     (\<exists>k iv tag dk. enc_key config = Some k \<and>
        mode_of FF_REQUEST_OPTION_TYPE_ENCRYPTION_MODE ws = FF_CRYPTO_MODE_AES_256_GCM \<and>
        value_of FF_REQUEST_OPTION_TYPE_ENCRYPTION_IV ws = Some iv \<and> iv \<noteq> [] \<and>
        value_of FF_REQUEST_OPTION_TYPE_ENCRYPTION_TAG ws = Some tag \<and> tag \<noteq> [] \<and>
        request_key pbkdf2 k (pbkdf2_iterations config) ws = Some dk \<and> dec dk iv ct tag = Some pt)"

definition in_the_clear :: "ff_encryption_config \<Rightarrow> (byte \<times> byte list) list \<Rightarrow> bool" where
  "in_the_clear config ws \<longleftrightarrow>
     enc_key config = None \<and> mode_of FF_REQUEST_OPTION_TYPE_ENCRYPTION_MODE ws = 0"

lemma decrypt_request_cases:
  assumes ok: "has_options request ws" and pay: "holds_payload request ct"
    and room: "length ct \<le> unat (payload_length request)" and spec: "gcm_spec evp dec"
  shows "\<exists>request'. ff_decrypt_request evp pbkdf2 request config = Inr request' \<and>
    (request' = request\<lparr>state := FF_REQUEST_STATE_DECRYPTING_FAILED\<rparr> \<and>
       \<not> in_the_clear config ws \<and> (gcm_ready evp \<longrightarrow> (\<nexists>pt. authenticated pbkdf2 dec config ws ct pt)) \<or>
     request' = request\<lparr>state := FF_REQUEST_STATE_DECRYPTED\<rparr> \<and> in_the_clear config ws \<or>
     (\<exists>pt. authenticated pbkdf2 dec config ws ct pt \<and> length pt = length ct \<and>
        request' = request\<lparr>state := FF_REQUEST_STATE_DECRYPTED, payload_length := of_nat (length pt),
          payload := [plaintext_node pt (unat (payload_length request))]\<rparr>))"
proof -
  let ?request = "request\<lparr>state := FF_REQUEST_STATE_DECRYPTING\<rparr>"
  let ?mode = "mode_of FF_REQUEST_OPTION_TYPE_ENCRYPTION_MODE ws"
  let ?iv = "value_of FF_REQUEST_OPTION_TYPE_ENCRYPTION_IV ws" and ?tag = "value_of FF_REQUEST_OPTION_TYPE_ENCRYPTION_TAG ws"
  note scan = decrypt_scan [of ?request ws]
  show ?thesis
  proof (cases "\<exists>k iv tag. enc_key config = Some k \<and> ?mode = FF_CRYPTO_MODE_AES_256_GCM \<and>
      ?iv = Some iv \<and> iv \<noteq> [] \<and> ?tag = Some tag \<and> tag \<noteq> []")
    case False
    then have no: "\<nexists>pt. authenticated pbkdf2 dec config ws ct pt"
      by (auto simp: authenticated_def)
    have "ff_decrypt_request evp pbkdf2 request config =
        Inr (request\<lparr>state := if in_the_clear config ws then FF_REQUEST_STATE_DECRYPTED
                             else FF_REQUEST_STATE_DECRYPTING_FAILED\<rparr>)"
      using False scan ok
      by (auto simp: ff_decrypt_request_def Let_def in_the_clear_def FF_CRYPTO_MODE_AES_256_GCM_def split: option.splits)
    then show ?thesis using no by auto
  next
    case True
    then obtain k iv tag where enc: "enc_key config = Some k" "?mode = FF_CRYPTO_MODE_AES_256_GCM"
        "?iv = Some iv" "iv \<noteq> []" "?tag = Some tag" "tag \<noteq> []" by blast
    have clear: "\<not> in_the_clear config ws" using enc(1) by (simp add: in_the_clear_def)
    have auth: "authenticated pbkdf2 dec config ws ct pt \<longleftrightarrow>
        (\<exists>dk. request_key pbkdf2 k (pbkdf2_iterations config) ws = Some dk \<and> dec dk iv ct tag = Some pt)" for pt
      using enc by (auto simp: authenticated_def)
    obtain r where r: "ff_decrypt_request_aes_256_gcm evp pbkdf2 ?request config (bytes iv) (bytes tag) = Inr r"
      and some: "\<forall>request'. r = Some request' \<longrightarrow> (\<exists>dk pt. request_key pbkdf2 k (pbkdf2_iterations config) ws = Some dk \<and>
         dec dk iv ct tag = Some pt \<and> length pt = length ct \<and>
         request' = ?request\<lparr>payload_length := of_nat (length pt),
           payload := [plaintext_node pt (unat (payload_length ?request))]\<rparr>)"
      and none: "gcm_ready evp \<and> request_key pbkdf2 k (pbkdf2_iterations config) ws =
           Some (the (request_key pbkdf2 k (pbkdf2_iterations config) ws)) \<and>
         dec (the (request_key pbkdf2 k (pbkdf2_iterations config) ws)) iv ct tag \<noteq> None \<longrightarrow> r \<noteq> None"
      using decrypt_gcm_cases [of ?request ws ct config k evp dec pbkdf2 iv tag
          "the (request_key pbkdf2 k (pbkdf2_iterations config) ws)"] ok pay room enc(1) spec by auto
    have dec: "ff_decrypt_request evp pbkdf2 request config =
        (case r of None \<Rightarrow> Inr (request\<lparr>state := FF_REQUEST_STATE_DECRYPTING_FAILED\<rparr>)
         | Some request \<Rightarrow> Inr (request\<lparr>state := FF_REQUEST_STATE_DECRYPTED\<rparr>))"
      using scan ok enc r
      by (simp add: ff_decrypt_request_def Let_def FF_CRYPTO_MODE_AES_256_GCM_def split: option.splits)
    show ?thesis
    proof (cases r)
      case None
      then show ?thesis using dec clear none auth by auto
    next
      case (Some request')
      then show ?thesis using dec some auth by auto
    qed
  qed
qed

section \<open>Properties\<close>

lemma plaintext_node_props:
  "length pt < 2 ^ 16 \<Longrightarrow> holds_payload (request\<lparr>payload := [plaintext_node pt n]\<rparr>) pt"
  "pl_live (plaintext_node pt n)"
  by (simp_all add: holds_payload_def plaintext_node_def unat_of_nat_16)

lemma holds_payload_length: "holds_payload request bs \<Longrightarrow> length bs < 2 ^ 16"
  by (auto simp: holds_payload_def) (metis unat_lt_16)

lemma holds_payload_free:
  "options_ok request \<Longrightarrow> holds_payload request bs \<Longrightarrow> ff_request_free request = Inr ()"
  by (auto simp: ff_request_free_safe options_ok_live holds_payload_def)

text \<open>
  C16. Decryption never faults. For a request with well-formed options whose reassembled payload
  fits the announced length, \<open>ff_decrypt_request\<close> returns, in one of its two final states, with the
  options unchanged, a payload that is not larger than before, and nothing dangling.
\<close>

theorem decrypt_never_faults:
  assumes "options_ok request" and "holds_payload request ct"
    and "length ct \<le> unat (payload_length request)" and "gcm_spec evp dec"
  shows "\<exists>request' pt. ff_decrypt_request evp pbkdf2 request config = Inr request' \<and>
    (state request' = FF_REQUEST_STATE_DECRYPTED \<or> state request' = FF_REQUEST_STATE_DECRYPTING_FAILED) \<and>
    options request' = options request \<and> holds_payload request' pt \<and> length pt = length ct \<and>
    ff_request_free request' = Inr ()"
proof -
  obtain ws where ws: "has_options request ws" using options_ok_has_options [OF assms(1)] ..
  obtain request' where r: "ff_decrypt_request evp pbkdf2 request config = Inr request'"
    and cases: "request' = request\<lparr>state := FF_REQUEST_STATE_DECRYPTING_FAILED\<rparr> \<or>
      request' = request\<lparr>state := FF_REQUEST_STATE_DECRYPTED\<rparr> \<or>
      (\<exists>pt. length pt = length ct \<and>
        request' = request\<lparr>state := FF_REQUEST_STATE_DECRYPTED, payload_length := of_nat (length pt),
          payload := [plaintext_node pt (unat (payload_length request))]\<rparr>)"
    using decrypt_request_cases [OF ws assms(2-4), of pbkdf2 config] by blast
  have small: "length ct < 2 ^ 16" using holds_payload_length [OF assms(2)] .
  have "\<exists>pt. options request' = options request \<and> options_ok request' \<and> holds_payload request' pt \<and> length pt = length ct \<and>
      (state request' = FF_REQUEST_STATE_DECRYPTED \<or> state request' = FF_REQUEST_STATE_DECRYPTING_FAILED)"
    using cases
  proof (elim disjE exE conjE)
    fix pt assume pt: "length pt = length ct" "request' = request\<lparr>state := FF_REQUEST_STATE_DECRYPTED,
        payload_length := of_nat (length pt), payload := [plaintext_node pt (unat (payload_length request))]\<rparr>"
    then show ?thesis
      using small assms(1) plaintext_node_props(1) [where pt = pt and request = "request\<lparr>state := FF_REQUEST_STATE_DECRYPTED,
        payload_length := of_nat (length pt)\<rparr>"]
      by (intro exI [of _ pt]) (simp add: options_ok_def)
  qed (use assms(1,2) in \<open>auto simp: options_ok_def\<close>)
  then show ?thesis
    using r holds_payload_free by blast
qed


section \<open>An instance of the parameters\<close>

text \<open>A cipher for the witnesses: it leaves the text as it is and accepts the key as the tag.\<close>

definition toy_dec :: "byte list \<Rightarrow> byte list \<Rightarrow> byte list \<Rightarrow> byte list \<Rightarrow> byte list option" where
  "toy_dec key iv ct tag = (if tag = key then Some ct else None)"

definition toy_evp :: "(byte list \<times> byte list) evp" where
  "toy_evp =
     \<lparr>evp_new = Some ([], []), evp_init = Some, evp_set_ivlen = (\<lambda>c n. Some c),
      evp_init_key = (\<lambda>(k, t) key iv. Some (key, t)), evp_update = (\<lambda>c ct. Some (c, ct)),
      evp_set_tag = (\<lambda>(k, t) tag. Some (k, tag)), evp_final = (\<lambda>(k, t). if t = k then Some [] else None)\<rparr>"

definition toy_pbkdf2 :: pbkdf2 where
  "toy_pbkdf2 k salt n len = Some (take len (k @ salt @ replicate len 0))"

lemma toy_gcm: "gcm_spec toy_evp toy_dec" "gcm_ready toy_evp"
  by (auto simp: gcm_spec_def gcm_ready_def toy_evp_def toy_dec_def split: option.splits if_splits prod.splits)

definition sample_encrypted_options :: "(byte \<times> byte list) list" where
  "sample_encrypted_options =
     [(FF_REQUEST_OPTION_TYPE_ENCRYPTION_MODE, [1]), (FF_REQUEST_OPTION_TYPE_ENCRYPTION_IV, [7]),
      (FF_REQUEST_OPTION_TYPE_ENCRYPTION_TAG, 5 # 6 # replicate 30 0), (FF_REQUEST_OPTION_TYPE_KEY_DERIVE_MODE, [1]),
      (FF_REQUEST_OPTION_TYPE_KEY_DERIVE_SALT, [6])]"

definition sample_encrypted :: ff_request where
  "sample_encrypted = ff_request_alloc\<lparr>options_length := 5, options := map option_node sample_encrypted_options,
     payload_length := 2, payload := [\<lparr>pl_offset = 0, pl_length = 2, pl_value = bytes [65, 66], pl_live = True\<rparr>]\<rparr>"

definition sample_config :: ff_encryption_config where
  "sample_config = \<lparr>enc_key = Some [5], pbkdf2_iterations = 1000\<rparr>"

lemma sample_encrypted_props:
  "has_options sample_encrypted sample_encrypted_options" "options_ok sample_encrypted"
  "holds_payload sample_encrypted [65, 66]" "length [65 :: byte, 66] \<le> unat (payload_length sample_encrypted)"
proof -
  have ok: "list_all wire_option_ok sample_encrypted_options"
    by (simp add: sample_encrypted_options_def wire_option_ok_def option_type_defs)
  show opts: "options_ok sample_encrypted"
    using ok by (auto simp: options_ok_def sample_encrypted_def list_all_iff option_node_ok FF_REQUEST_MAX_OPTIONS_def)
      (simp_all add: sample_encrypted_options_def)
  show "has_options sample_encrypted sample_encrypted_options"
    using opts option_view_nodes [OF ok] by (simp add: has_options_def) (simp add: sample_encrypted_def)
  show "holds_payload sample_encrypted [65, 66]" "length [65 :: byte, 66] \<le> unat (payload_length sample_encrypted)"
    by (simp_all add: sample_encrypted_def holds_payload_def)
qed

lemma sample_authenticated: "authenticated toy_pbkdf2 toy_dec sample_config sample_encrypted_options [65, 66] [65, 66]"
proof -
  have "request_key toy_pbkdf2 [5] 1000 sample_encrypted_options = Some (5 # 6 # replicate 30 0)"
    by code_simp
  moreover have "mode_of FF_REQUEST_OPTION_TYPE_ENCRYPTION_MODE sample_encrypted_options = FF_CRYPTO_MODE_AES_256_GCM"
    "value_of FF_REQUEST_OPTION_TYPE_ENCRYPTION_IV sample_encrypted_options = Some [7]"
    "value_of FF_REQUEST_OPTION_TYPE_ENCRYPTION_TAG sample_encrypted_options = Some (5 # 6 # replicate 30 0)"
    by code_simp+
  ultimately show ?thesis
    by (simp add: authenticated_def sample_config_def toy_dec_def)
qed

theorem decrypt_never_faults_witness:
  "\<exists>request' pt. ff_decrypt_request toy_evp toy_pbkdf2 sample_encrypted sample_config = Inr request' \<and>
    (state request' = FF_REQUEST_STATE_DECRYPTED \<or> state request' = FF_REQUEST_STATE_DECRYPTING_FAILED) \<and>
    options request' = options sample_encrypted \<and> holds_payload request' pt \<and> length pt = length [65 :: byte, 66] \<and>
    ff_request_free request' = Inr ()"
  by (rule decrypt_never_faults [OF sample_encrypted_props(2-4) toy_gcm(1)])


end
