(* ===== verification/Http.thy ===== *)
theory Http
  imports Crypto
begin

text \<open>
  Sending the request on: \<open>src/http.c\<close>, \<open>src/http.h\<close> and \<open>src/http_p.h\<close>.

  The network is a parameter: the results of the calls that set up a connection, and the lists of
  results that successive \<open>write\<close>, \<open>recv\<close>, \<open>BIO_write\<close> and \<open>BIO_read\<close> calls return; a list that
  ends is a call that has not returned yet. The bytes handed to the peer are part of the result.
  The pointer \<open>line\<close> is always \<open>http_request + i\<close>, so the index \<open>i\<close> stands for both.
\<close>

section \<open>Finding the destination host\<close>

definition FF_HTTP_HOST_HEADER_MAX_SEARCH_LENGTH :: nat where
  "FF_HTTP_HOST_HEADER_MAX_SEARCH_LENGTH = 8096"

definition FF_HTTP_RESPONSE_BUFF_SIZE :: nat where
  "FF_HTTP_RESPONSE_BUFF_SIZE = 4096"

definition host_name_size :: nat where
  "host_name_size = 255 + 1"

text \<open>The character classes of the C locale.\<close>

definition isalnum :: "byte \<Rightarrow> bool" where
  "isalnum b \<longleftrightarrow> 48 \<le> b \<and> b \<le> 57 \<or> 65 \<le> b \<and> b \<le> 90 \<or> 97 \<le> b \<and> b \<le> 122"

definition host_char :: "byte \<Rightarrow> bool" where
  "host_char b \<longleftrightarrow> b = 46 \<or> b = 45 \<or> isalnum b"

text \<open>\<open>strncasecmp (line, s, strlen (s)) == 0\<close> for a literal \<open>s\<close> in lower case.\<close>

fun strncasecmp_eq :: "string \<Rightarrow> block \<Rightarrow> nat \<Rightarrow> bool res" where
  "strncasecmp_eq [] buff i = Inr True"
| "strncasecmp_eq (c # s) buff i =
     res_bind (block_read buff i) (\<lambda>b.
     if tolower b = of_char c then strncasecmp_eq s buff (Suc i) else Inr False)"

text \<open>\<open>FF_HTTP_DESTINATION_CONSUME_CHAR(x)\<close>: the new index, or \<open>None\<close> for the jump to \<open>error\<close>. The
  character at the new index is read whenever it is not beyond \<open>payload_len\<close>.\<close>

definition consume_char :: "block \<Rightarrow> nat \<Rightarrow> nat \<Rightarrow> nat \<Rightarrow> nat option res" where
  "consume_char line payload_len i x =
     (let i = i + x in
      if i > payload_len then Inr None
      else res_bind (block_read line i) (\<lambda>c.
        if c = 0 then Inr None
        else if i \<ge> FF_HTTP_HOST_HEADER_MAX_SEARCH_LENGTH then Inr None
        else Inr (Some i)))"

lemma consume_char_Some:
  "consume_char line payload_len i x = Inr (Some j) \<Longrightarrow> j = i + x \<and> j < 8096 \<and> j \<le> payload_len"
  by (auto simp: consume_char_def Let_def res_simps FF_HTTP_HOST_HEADER_MAX_SEARCH_LENGTH_def split: if_splits)

text \<open>\<open>while (*line == ' ')\<close> and \<open>while (*line != '\n')\<close>.\<close>

function skip_spaces :: "block \<Rightarrow> nat \<Rightarrow> nat \<Rightarrow> nat option res" where
  "skip_spaces line payload_len i =
     res_bind (block_read line i) (\<lambda>c.
     if c \<noteq> 32 then Inr (Some i)
     else res_bind (consume_char line payload_len i 1) (\<lambda>r.
       case r of None \<Rightarrow> Inr None | Some i \<Rightarrow> skip_spaces line payload_len i))"
  by pat_completeness auto
termination
  by (relation "measure (\<lambda>(line, n, i). 8096 - i)") (auto dest: consume_char_Some)

function skip_line :: "block \<Rightarrow> nat \<Rightarrow> nat \<Rightarrow> nat option res" where
  "skip_line line payload_len i =
     res_bind (block_read line i) (\<lambda>c.
     if c = 10 then Inr (Some i)
     else res_bind (consume_char line payload_len i 1) (\<lambda>r.
       case r of None \<Rightarrow> Inr None | Some i \<Rightarrow> skip_line line payload_len i))"
  by pat_completeness auto
termination
  by (relation "measure (\<lambda>(line, n, i). 8096 - i)") (auto dest: consume_char_Some)

declare skip_spaces.simps [simp del] skip_line.simps [simp del]

text \<open>The loop that copies the host name; the result is \<open>host_name\<close> and \<open>host_len\<close>.\<close>

function host_loop :: "block \<Rightarrow> nat \<Rightarrow> nat \<Rightarrow> block \<Rightarrow> nat \<Rightarrow> (block \<times> nat) res" where
  "host_loop line payload_len i host_name host_len =
     (if i > payload_len then Inr (host_name, host_len)
      else res_bind (block_read line i) (\<lambda>c.
        if host_char c \<and> host_len \<le> 255 then
          res_bind (block_write host_name host_len [Some c]) (\<lambda>host_name.
          host_loop line payload_len (Suc i) host_name (Suc host_len))
        else Inr (host_name, host_len)))"
  by pat_completeness auto
termination
  by (relation "measure (\<lambda>(line, n, i, host_name, host_len). 256 - host_len)") auto

declare host_loop.simps [simp del]

text \<open>Lines 417 to 436, after \<open>host:\<close> was found at \<open>i\<close>: the characters of the host name.\<close>

definition read_host :: "block \<Rightarrow> nat \<Rightarrow> nat \<Rightarrow> byte list option res" where
  "read_host line payload_len i =
     res_bind (consume_char line payload_len i 5) (\<lambda>r.
     case r of
       None \<Rightarrow> Inr None
     | Some i \<Rightarrow>
         res_bind (skip_spaces line payload_len i) (\<lambda>r.
         case r of
           None \<Rightarrow> Inr None
         | Some i \<Rightarrow>
             res_bind (host_loop line payload_len i (block_alloc host_name_size) 0) (\<lambda>(host_name, host_len).
             res_bind (block_write host_name host_len [Some 0]) (\<lambda>host_name.
             res_bind (block_reads host_name 0 host_len) (\<lambda>host. Inr (Some host))))))"

lemma skip_line_Some:
  "skip_line line payload_len i = Inr (Some j) \<Longrightarrow> i \<le> j"
proof (induction line payload_len i rule: skip_line.induct)
  case (1 line payload_len i)
  from 1(2) obtain c where c: "block_read line i = Inr c"
    by (subst (asm) skip_line.simps) (auto simp: res_simps)
  show ?case
  proof (cases "c = 10")
    case True
    then show ?thesis using 1(2) c by (subst (asm) skip_line.simps) simp
  next
    case False
    then obtain i' where i': "consume_char line payload_len i 1 = Inr (Some i')"
        "skip_line line payload_len i' = Inr (Some j)"
      using 1(2) c by (subst (asm) skip_line.simps) (auto simp: res_simps split: option.splits)
    then have "i' \<le> j" using 1(1) [OF c False i'(1)] by simp
    then show ?thesis using consume_char_Some [OF i'(1)] by simp
  qed
qed

text \<open>The main loop. \<open>payload_len - i\<close> is computed in 64 bits.\<close>

definition end_of_headers :: "block \<Rightarrow> 64 word \<Rightarrow> nat \<Rightarrow> bool res" where
  "end_of_headers line payload_len i =
     (if payload_len - of_nat i > 2 \<and> i \<noteq> 0 then
        res_bind (block_read line i) (\<lambda>c.
        if c = 10 then Inr True
        else if c = 13 then res_bind (block_read line (Suc i)) (\<lambda>d. Inr (d = 10))
        else Inr False)
      else Inr False)"

function find_host :: "block \<Rightarrow> 64 word \<Rightarrow> nat \<Rightarrow> byte list option res" where
  "find_host line payload_len i =
     res_bind (end_of_headers line payload_len i) (\<lambda>finished.
     if finished then Inr None
     else res_bind (if payload_len - of_nat i > 5 then strncasecmp_eq ''host:'' line i else Inr False) (\<lambda>found.
       if found then read_host line (unat payload_len) i
       else res_bind (skip_line line (unat payload_len) i) (\<lambda>r.
         case r of
           None \<Rightarrow> Inr None
         | Some i \<Rightarrow> res_bind (consume_char line (unat payload_len) i 1) (\<lambda>r.
             case r of None \<Rightarrow> Inr None | Some i \<Rightarrow> find_host line payload_len i))))"
  by pat_completeness auto
termination
  by (relation "measure (\<lambda>(line, n, i). 8096 - i)") (auto dest!: consume_char_Some skip_line_Some)

declare find_host.simps [simp del]

text \<open>\<open>None\<close> is the return value NULL.\<close>

definition ff_http_get_destination_host :: "ff_request \<Rightarrow> byte list option res" where
  "ff_http_get_destination_host request =
     (case payload request of
        [] \<Rightarrow> Inl NullDeref
      | node # _ \<Rightarrow>
          if \<not> pl_live node then Inl UseAfterFree
          else if payload_length request = 0 then
            res_bind (consume_char (pl_value node) 0 0 1) (\<lambda>r.
            case r of None \<Rightarrow> Inr None | Some i \<Rightarrow> find_host (pl_value node) 0 i)
          else find_host (pl_value node) (payload_length request) 0)"

section \<open>Sending over TCP\<close>

record net =
  dns_ok :: "byte list \<Rightarrow> bool"
  socket_ok :: bool
  connect_ok :: bool
  write_results :: "int list"
  recv_results :: "byte list option list"

text \<open>The write loop: the third component is what the kernel has taken so far. The first component
  of the result is false for the jump to \<open>error\<close>; \<open>None\<close> is a \<open>write\<close> that has not returned.\<close>

fun write_loop ::
  "block \<Rightarrow> 64 word \<Rightarrow> 32 word \<Rightarrow> byte list \<Rightarrow> int list \<Rightarrow> (bool \<times> byte list) option res" where
  "write_loop buff len sent out [] = Inr None"
| "write_loop buff len sent out (chunk # results) =
     (if chunk < 0 then Inr (Some (False, out))
      else if chunk = 0 then Inr (Some (True, out))
      else
        res_bind (block_reads buff (unat sent) (nat chunk)) (\<lambda>bs.
        let sent = sent + of_int chunk in
        if ucast sent < len then write_loop buff len sent (out @ bs) results
        else Inr (Some (True, out @ bs))))"

text \<open>The receive loop: \<open>Some bs\<close> is \<open>recv\<close> returning \<open>bs\<close> (empty at the end of the stream), \<open>None\<close>
  its failure. The result is the return value of the loop.\<close>

fun recv_loop :: "block \<Rightarrow> nat \<Rightarrow> byte list option list \<Rightarrow> bool option res" where
  "recv_loop response received [] = Inr None"
| "recv_loop response received (None # results) = Inr (Some False)"
| "recv_loop response received (Some bs # results) =
     (if bs = [] then Inr (Some True)
      else
        res_bind (block_write response received (bytes bs)) (\<lambda>response.
        let received = received + length bs in
        res_bind (strncasecmp_eq ''http/'' response 0) (\<lambda>is_http.
        if is_http then Inr (Some True)
        else if received < FF_HTTP_RESPONSE_BUFF_SIZE - 1 then recv_loop response received results
        else Inr (Some True))))"

text \<open>The return value and the bytes sent.\<close>

definition ff_http_send_request_unencrypted ::
  "net \<Rightarrow> ff_request \<Rightarrow> byte list \<Rightarrow> (bool \<times> byte list) option res" where
  "ff_http_send_request_unencrypted net request host_name =
     (if \<not> dns_ok net host_name \<or> \<not> socket_ok net \<or> \<not> connect_ok net then Inr (Some (False, []))
      else case payload request of
        [] \<Rightarrow> Inl NullDeref
      | node # _ \<Rightarrow>
          if \<not> pl_live node then Inl UseAfterFree
          else
            res_bind (write_loop (pl_value node) (payload_length request) 0 [] (write_results net)) (\<lambda>r.
            case r of
              None \<Rightarrow> Inr None
            | Some (False, out) \<Rightarrow> Inr (Some (False, out))
            | Some (True, out) \<Rightarrow>
                res_bind (recv_loop (block_zero FF_HTTP_RESPONSE_BUFF_SIZE) 0 (recv_results net)) (\<lambda>ret.
                Inr (map_option (\<lambda>ret. (ret, out)) ret))))"

section \<open>Sending over TLS\<close>

text \<open>The results of the calls of lines 227 to 323, in order, and of the reads and writes: \<open>bio_reads\<close>
  has the return value of \<open>BIO_read\<close>, the bytes it stored and the answer of \<open>BIO_should_retry\<close>.\<close>

record tls =
  method_ok :: bool
  ctx_ok :: bool
  bio_ok :: bool
  port_ok :: bool
  ssl_ok :: bool
  ciphers_ok :: bool
  sni_ok :: bool
  verify_host_ok :: bool
  tls_connect_ok :: bool
  handshake_ok :: bool
  cert_presented :: bool
  cert_verified :: bool
  bio_writes :: "int list"
  bio_reads :: "(int \<times> byte list \<times> bool) list"

definition tls_setup :: "tls \<Rightarrow> bool" where
  "tls_setup tls \<longleftrightarrow>
     method_ok tls \<and> ctx_ok tls \<and> bio_ok tls \<and> port_ok tls \<and> ssl_ok tls \<and> ciphers_ok tls \<and> sni_ok tls \<and>
     verify_host_ok tls \<and> tls_connect_ok tls \<and> handshake_ok tls \<and> cert_presented tls \<and> cert_verified tls"

text \<open>\<open>sent\<close> and \<open>received\<close> are of type \<open>int\<close>; a negative result is added to them as well.\<close>

fun bio_write_loop :: "block \<Rightarrow> int \<Rightarrow> byte list \<Rightarrow> int list \<Rightarrow> byte list option res" where
  "bio_write_loop buff sent out [] = Inr None"
| "bio_write_loop buff sent out (chunk # results) =
     (if chunk > 0 then
        if sent < 0 then Inl OutOfBounds
        else res_bind (block_reads buff (nat sent) (nat chunk)) (\<lambda>bs.
          bio_write_loop buff (sent + chunk) (out @ bs) results)
      else Inr (Some out))"

fun bio_read_loop :: "block \<Rightarrow> int \<Rightarrow> (int \<times> byte list \<times> bool) list \<Rightarrow> unit option res" where
  "bio_read_loop response received [] = Inr None"
| "bio_read_loop response received ((chunk, bs, retry) # results) =
     res_bind
       (if chunk > 0 then
          if received < 0 then Inl OutOfBounds else block_write response (nat received) (bytes bs)
        else Inr response) (\<lambda>response.
     let received = received + chunk in
     res_bind (if received > 5 then strncasecmp_eq ''http/'' response 0 else Inr False) (\<lambda>is_http.
     if is_http then Inr (Some ())
     else if chunk > 0 \<or> retry then bio_read_loop response received results
     else Inr (Some ())))"

definition ff_http_send_request_tls ::
  "tls \<Rightarrow> ff_request \<Rightarrow> byte list \<Rightarrow> (bool \<times> byte list) option res" where
  "ff_http_send_request_tls tls request host_name =
     (if \<not> tls_setup tls then Inr (Some (False, []))
      else case payload request of
        [] \<Rightarrow> Inl NullDeref
      | node # _ \<Rightarrow>
          if \<not> pl_live node then Inl UseAfterFree
          else
            res_bind (bio_write_loop (pl_value node) 0 [] (bio_writes tls)) (\<lambda>r.
            case r of
              None \<Rightarrow> Inr None
            | Some out \<Rightarrow>
                res_bind (bio_read_loop (block_zero FF_HTTP_RESPONSE_BUFF_SIZE) 0 (bio_reads tls)) (\<lambda>r.
                Inr (map_option (\<lambda>_. (True, out)) r))))"

section \<open>The handler\<close>

definition https_step :: "ff_request_option_node \<Rightarrow> bool \<Rightarrow> bool res" where
  "https_step node https =
     (if opt_type node = FF_REQUEST_OPTION_TYPE_HTTPS then
        (if opt_length node = 1
         then res_bind (block_read (opt_value node) 0) (\<lambda>b. Inr (b = 1))
         else Inr False)
      else Inr https)"

text \<open>The request afterwards and the bytes sent, with the transport they were sent over.\<close>

datatype transport = Plain | Tls

definition ff_http_send_request ::
  "net \<Rightarrow> tls \<Rightarrow> ff_request \<Rightarrow> (ff_request \<times> transport \<times> byte list) option res" where
  "ff_http_send_request net tls request =
     res_bind (scan_options request (rev [0..<unat (options_length request)]) https_step False) (\<lambda>https.
     res_bind (ff_http_get_destination_host request) (\<lambda>host_name.
     case host_name of
       None \<Rightarrow> Inr (Some (request\<lparr>state := FF_REQUEST_STATE_SENDING_FAILED\<rparr>, Plain, []))
     | Some host_name \<Rightarrow>
         res_bind
           (if https then ff_http_send_request_tls tls request host_name
            else ff_http_send_request_unencrypted net request host_name) (\<lambda>r.
         Inr (map_option (\<lambda>(success, out).
           (request\<lparr>state := if success then FF_REQUEST_STATE_SENT else FF_REQUEST_STATE_SENDING_FAILED\<rparr>,
            if https then Tls else Plain, out)) r))))"

end
