(* ===== verification/Hash_Table.thy ===== *)
theory Hash_Table
  imports Prelude
begin

text \<open>
  The request table: \<open>src/hash_table.c\<close>, \<open>src/hash_table.h\<close> and \<open>src/hash_table_p.h\<close>.

  The nodes and the 256-cell bucket arrays live on an explicit heap, because the operations
  relink them through shared pointers: a node is reached through its bucket chain
  (\<open>next_node\<close>) and through a doubly linked list of all nodes (\<open>prev_in_list\<close>,
  \<open>next_in_list\<close>). Addresses are natural numbers, 0 is NULL; a cell of the union
  \<open>ff_hash_table_bucket\<close> holds an address, of an array or of a node depending on the level.
  Freed objects leave the heap and their addresses are not handed out again, so every access
  through a dangling pointer is a fault. Each operation that takes the mutex for its whole body
  is one step.

  A chain is walked with as much fuel as there are addresses on the heap. The walking loops do
  not change the heap, so one that needs more visits a node twice and never ends: running out
  of fuel is the fault \<open>Diverges\<close>.
\<close>

section \<open>Data\<close>

type_synonym addr = nat

record ff_hash_table_node =
  item_id :: "64 word"
  node_value :: addr
  next_node :: addr
  prev_in_list :: addr
  next_in_list :: addr

text \<open>The struct, and the heap of its nodes and bucket arrays.\<close>

record ff_hash_table =
  prefix_bit_length :: "8 word"
  bucket_levels :: "8 word"
  ht_length :: "32 word"
  buckets :: addr
  linked_list :: addr
  linked_list_last :: addr
  node_at :: "addr \<rightharpoonup> ff_hash_table_node"
  bucket_at :: "addr \<rightharpoonup> (byte \<Rightarrow> addr)"
  next_addr :: addr

section \<open>Heap access\<close>

definition read_node :: "ff_hash_table \<Rightarrow> addr \<Rightarrow> ff_hash_table_node res" where
  "read_node ht p =
     (if p = 0 then Inl NullDeref
      else case node_at ht p of None \<Rightarrow> Inl UseAfterFree | Some node \<Rightarrow> Inr node)"

definition update_node ::
  "ff_hash_table \<Rightarrow> addr \<Rightarrow> (ff_hash_table_node \<Rightarrow> ff_hash_table_node) \<Rightarrow> ff_hash_table res" where
  "update_node ht p f =
     res_bind (read_node ht p) (\<lambda>node. Inr (ht\<lparr>node_at := (node_at ht)(p \<mapsto> f node)\<rparr>))"

definition free_node :: "ff_hash_table \<Rightarrow> addr \<Rightarrow> ff_hash_table res" where
  "free_node ht p = res_bind (read_node ht p) (\<lambda>_. Inr (ht\<lparr>node_at := (node_at ht)(p := None)\<rparr>))"

definition alloc_node :: "ff_hash_table \<Rightarrow> 64 word \<Rightarrow> addr \<Rightarrow> addr \<times> ff_hash_table" where
  "alloc_node ht i v =
     (next_addr ht,
      ht\<lparr>node_at := (node_at ht)(next_addr ht \<mapsto>
           \<lparr>item_id = i, node_value = v, next_node = 0, prev_in_list = 0, next_in_list = 0\<rparr>),
         next_addr := Suc (next_addr ht)\<rparr>)"

definition read_cell :: "ff_hash_table \<Rightarrow> addr \<Rightarrow> byte \<Rightarrow> addr res" where
  "read_cell ht t i =
     (if t = 0 then Inl NullDeref
      else case bucket_at ht t of None \<Rightarrow> Inl UseAfterFree | Some cells \<Rightarrow> Inr (cells i))"

definition write_cell :: "ff_hash_table \<Rightarrow> addr \<Rightarrow> byte \<Rightarrow> addr \<Rightarrow> ff_hash_table res" where
  "write_cell ht t i p =
     (if t = 0 then Inl NullDeref
      else case bucket_at ht t of
             None \<Rightarrow> Inl UseAfterFree
           | Some cells \<Rightarrow> Inr (ht\<lparr>bucket_at := (bucket_at ht)(t \<mapsto> cells(i := p))\<rparr>))"

definition free_bucket :: "ff_hash_table \<Rightarrow> addr \<Rightarrow> ff_hash_table res" where
  "free_bucket ht t =
     (if t = 0 then Inl NullDeref
      else case bucket_at ht t of
             None \<Rightarrow> Inl UseAfterFree
           | Some cells \<Rightarrow> Inr (ht\<lparr>bucket_at := (bucket_at ht)(t := None)\<rparr>))"

section \<open>Buckets\<close>

definition ff_hash_table_init_bucket :: "ff_hash_table \<Rightarrow> addr \<times> ff_hash_table" where
  "ff_hash_table_init_bucket ht =
     (next_addr ht,
      ht\<lparr>bucket_at := (bucket_at ht)(next_addr ht \<mapsto> (\<lambda>_. 0)), next_addr := Suc (next_addr ht)\<rparr>)"

text \<open>\<open>FF_HASH_GET_FOR_LEVEL\<close>: the shift amounts are those of the macro, and a shift of a 64-bit
  value by a negative amount or by 64 and more is undefined.\<close>

definition FF_HASH_GET_FOR_LEVEL :: "64 word \<Rightarrow> int \<Rightarrow> byte res" where
  "FF_HASH_GET_FOR_LEVEL i level =
     (let low = 64 - 8 * (level + 1); high = 8 * level in
      if low < 0 \<or> 64 \<le> low \<or> high < 0 \<or> 64 \<le> high then Inl BadShift
      else Inr (ucast (drop_bit (nat high) (i AND drop_bit (nat low) 0xFFFFFFFFFFFFFFFF))))"

text \<open>\<open>(int) ceil (prefix / 8)\<close>: the division is one of integers, so \<open>ceil\<close> has no effect.\<close>

definition ff_hash_table_init :: "8 word \<Rightarrow> ff_hash_table res" where
  "ff_hash_table_init prefix =
     (if prefix = 0 then Inl AssertFailed
      else
        let (b, ht) = ff_hash_table_init_bucket
              \<lparr>prefix_bit_length = prefix, bucket_levels = prefix div 8, ht_length = 0, buckets = 0,
               linked_list = 0, linked_list_last = 0, node_at = Map.empty, bucket_at = Map.empty,
               next_addr = 1\<rparr>
        in Inr (ht\<lparr>buckets := b\<rparr>))"

text \<open>
  The loop of \<open>get_or_create_bucket\<close> over the levels. The result has the table, the array
  reached (\<open>None\<close> for the early return of NULL) and the filled \<open>buckets_list\<close>.
\<close>

fun bucket_walk ::
  "ff_hash_table \<Rightarrow> 64 word \<Rightarrow> bool \<Rightarrow> nat list \<Rightarrow> addr \<Rightarrow> addr list option \<Rightarrow>
   (ff_hash_table \<times> addr option \<times> addr list option) res" where
  "bucket_walk ht i should_create [] b buckets_list = Inr (ht, Some b, buckets_list)"
| "bucket_walk ht i should_create (level # levels) b buckets_list =
     res_bind (FF_HASH_GET_FOR_LEVEL i (int level)) (\<lambda>hash.
     res_bind (read_cell ht b hash) (\<lambda>c.
     if c = 0 \<and> \<not> should_create then Inr (ht, None, buckets_list)
     else
       res_bind
         (if c = 0 then
            (let (t, ht) = ff_hash_table_init_bucket ht in write_cell ht b hash t)
          else Inr ht) (\<lambda>ht.
       res_bind (read_cell ht b hash) (\<lambda>b.
       case buckets_list of
         None \<Rightarrow> bucket_walk ht i should_create levels b None
       | Some bs \<Rightarrow>
           if level < length bs
           then bucket_walk ht i should_create levels b (Some (bs[level := b]))
           else Inl OutOfBounds))))"

definition ff_hash_table_get_or_create_bucket ::
  "ff_hash_table \<Rightarrow> 64 word \<Rightarrow> bool \<Rightarrow> addr list option \<Rightarrow>
   (ff_hash_table \<times> (addr \<times> byte) option \<times> addr list option) res" where
  "ff_hash_table_get_or_create_bucket ht i should_create buckets_list =
     res_bind (bucket_walk ht i should_create [0..<unat (bucket_levels ht) - 1] (buckets ht) buckets_list)
       (\<lambda>(ht, b, buckets_list).
        case b of
          None \<Rightarrow> Inr (ht, None, buckets_list)
        | Some b \<Rightarrow>
            res_bind (FF_HASH_GET_FOR_LEVEL i (int (unat (bucket_levels ht)) - 1)) (\<lambda>hash.
            Inr (ht, Some (b, hash), buckets_list)))"

section \<open>Operations\<close>

fun get_loop :: "nat \<Rightarrow> ff_hash_table \<Rightarrow> 64 word \<Rightarrow> addr \<Rightarrow> addr res" where
  "get_loop 0 ht i p = Inl Diverges"
| "get_loop (Suc fuel) ht i p =
     res_bind (read_node ht p) (\<lambda>node.
     if item_id node = i \<and> node_value node \<noteq> 0 then Inr (node_value node)
     else if next_node node = 0 then Inr 0
     else get_loop fuel ht i (next_node node))"

definition ff_hash_table_get_item :: "ff_hash_table \<Rightarrow> 64 word \<Rightarrow> addr res" where
  "ff_hash_table_get_item ht i =
     res_bind (ff_hash_table_get_or_create_bucket ht i False None) (\<lambda>(ht, cell, _).
     case cell of
       None \<Rightarrow> Inr 0
     | Some (b, hash) \<Rightarrow>
         res_bind (read_cell ht b hash) (\<lambda>nodes.
         if nodes = 0 then Inr 0 else get_loop (next_addr ht) ht i nodes))"

text \<open>The chain loop of \<open>put_item\<close> and \<open>remove_item\<close>: the node with the id (or NULL) and the node
  before it (\<open>last_node\<close>, \<open>prev_node\<close>).\<close>

fun find_loop :: "nat \<Rightarrow> ff_hash_table \<Rightarrow> 64 word \<Rightarrow> addr \<Rightarrow> addr \<Rightarrow> (addr \<times> addr) res" where
  "find_loop 0 ht i p prev = (if p = 0 then Inr (0, prev) else Inl Diverges)"
| "find_loop (Suc fuel) ht i p prev =
     (if p = 0 then Inr (0, prev)
      else res_bind (read_node ht p) (\<lambda>node.
        if item_id node = i then Inr (p, prev)
        else find_loop fuel ht i (next_node node) p))"

text \<open>Lines 146 to 159: the new node at the end of the list of all nodes.\<close>

definition append_to_list :: "ff_hash_table \<Rightarrow> addr \<Rightarrow> ff_hash_table res" where
  "append_to_list ht new_node =
     res_bind
       (if linked_list ht = 0 then Inr (ht\<lparr>linked_list := new_node, linked_list_last := new_node\<rparr>)
        else
          res_bind (update_node ht new_node (prev_in_list_update (\<lambda>_. linked_list_last ht))) (\<lambda>ht.
          res_bind (update_node ht (linked_list_last ht) (next_in_list_update (\<lambda>_. new_node))) (\<lambda>ht.
          Inr (ht\<lparr>linked_list_last := new_node\<rparr>))))
       (\<lambda>ht. Inr (ht\<lparr>ht_length := ht_length ht + 1\<rparr>))"

definition ff_hash_table_put_item :: "ff_hash_table \<Rightarrow> 64 word \<Rightarrow> addr \<Rightarrow> ff_hash_table res" where
  "ff_hash_table_put_item ht i item =
     res_bind (ff_hash_table_get_or_create_bucket ht i True None) (\<lambda>(ht, cell, _).
     case cell of
       None \<Rightarrow> Inl NullDeref
     | Some (b, hash) \<Rightarrow>
         res_bind (read_cell ht b hash) (\<lambda>nodes.
         res_bind (find_loop (next_addr ht) ht i nodes nodes) (\<lambda>(node, last_node).
         if node \<noteq> 0 then update_node ht node (node_value_update (\<lambda>_. item))
         else
           let (new_node, ht) = alloc_node ht i item in
           res_bind
             (if last_node = 0 then write_cell ht b hash new_node
              else update_node ht last_node (next_node_update (\<lambda>_. new_node))) (\<lambda>ht.
           append_to_list ht new_node))))"

text \<open>Lines 195 to 217: the node leaves the list of all nodes and is freed.\<close>

definition remove_from_list :: "ff_hash_table \<Rightarrow> addr \<Rightarrow> ff_hash_table res" where
  "remove_from_list ht p =
     res_bind (read_node ht p) (\<lambda>node.
     res_bind
       (if prev_in_list node \<noteq> 0
        then update_node ht (prev_in_list node) (next_in_list_update (\<lambda>_. next_in_list node))
        else Inr ht) (\<lambda>ht.
     res_bind (read_node ht p) (\<lambda>node.
     res_bind
       (if next_in_list node \<noteq> 0
        then update_node ht (next_in_list node) (prev_in_list_update (\<lambda>_. prev_in_list node))
        else Inr ht) (\<lambda>ht.
     res_bind (read_node ht p) (\<lambda>node.
     let ht = (if linked_list ht = p then ht\<lparr>linked_list := next_in_list node\<rparr> else ht);
         ht = (if linked_list_last ht = p then ht\<lparr>linked_list_last := prev_in_list node\<rparr> else ht)
     in free_node (ht\<lparr>ht_length := ht_length ht - 1\<rparr>) p)))))"

text \<open>Lines 227 to 258: \<open>level\<close> counts down to 0 and the arrays that have become empty are freed.\<close>

fun cells_empty :: "ff_hash_table \<Rightarrow> addr \<Rightarrow> nat list \<Rightarrow> bool res" where
  "cells_empty ht t [] = Inr True"
| "cells_empty ht t (i # idxs) =
     res_bind (read_cell ht t (of_nat i)) (\<lambda>c. if c \<noteq> 0 then Inr False else cells_empty ht t idxs)"

definition list_at :: "addr list \<Rightarrow> nat \<Rightarrow> addr res" where
  "list_at bs i = (if i < length bs then Inr (bs ! i) else Inl OutOfBounds)"

fun clear_buckets :: "ff_hash_table \<Rightarrow> 64 word \<Rightarrow> addr list \<Rightarrow> nat \<Rightarrow> ff_hash_table res" where
  "clear_buckets ht i bucket_list level =
     res_bind (list_at bucket_list level) (\<lambda>bucket_level.
     res_bind (FF_HASH_GET_FOR_LEVEL i (int level)) (\<lambda>hash.
     res_bind (cells_empty ht bucket_level [0..<256]) (\<lambda>should_free.
     if \<not> should_free then Inr ht
     else
       res_bind (free_bucket ht bucket_level) (\<lambda>ht.
       case level of
         0 \<Rightarrow> write_cell ht (buckets ht) hash 0
       | Suc level' \<Rightarrow>
           res_bind (list_at bucket_list level') (\<lambda>parent.
           res_bind (write_cell ht parent hash 0) (\<lambda>ht.
           clear_buckets ht i bucket_list level'))))))"

declare clear_buckets.simps [simp del]

definition ff_hash_table_remove_item :: "ff_hash_table \<Rightarrow> 64 word \<Rightarrow> ff_hash_table res" where
  "ff_hash_table_remove_item ht i =
     res_bind (ff_hash_table_get_or_create_bucket ht i True (Some (replicate (unat (bucket_levels ht)) 0)))
       (\<lambda>(ht, cell, bucket_list).
     case cell of
       None \<Rightarrow> Inr ht
     | Some (b, hash) \<Rightarrow>
         res_bind (read_cell ht b hash) (\<lambda>nodes.
         if nodes = 0 then Inr ht
         else
           res_bind (find_loop (next_addr ht) ht i nodes 0) (\<lambda>(p, prev_node).
           res_bind
             (if p = 0 then Inr ht
              else
                res_bind (read_node ht p) (\<lambda>node.
                res_bind
                  (if prev_node \<noteq> 0 then update_node ht prev_node (next_node_update (\<lambda>_. next_node node))
                   else write_cell ht b hash (next_node node)) (\<lambda>ht.
                remove_from_list ht p))) (\<lambda>ht.
           res_bind (read_cell ht b hash) (\<lambda>nodes.
           if nodes = 0
           then clear_buckets ht i (case bucket_list of None \<Rightarrow> [] | Some bs \<Rightarrow> bs) (unat (bucket_levels ht - 2))
           else Inr ht)))))"

text \<open>\<open>ff_hash_table_free\<close>: the arrays level by level, the chains of the last level.\<close>

fun free_chain :: "nat \<Rightarrow> addr \<Rightarrow> ff_hash_table \<Rightarrow> ff_hash_table res" where
  "free_chain 0 p ht = (if p = 0 then Inr ht else Inl Diverges)"
| "free_chain (Suc fuel) p ht =
     (if p = 0 then Inr ht
      else res_bind (read_node ht p) (\<lambda>node.
        res_bind (free_node ht p) (free_chain fuel (next_node node))))"

fun ff_hash_table_free_bucket_level :: "nat \<Rightarrow> addr \<Rightarrow> ff_hash_table \<Rightarrow> ff_hash_table res" where
  "ff_hash_table_free_bucket_level 0 b ht = Inl AssertFailed"
| "ff_hash_table_free_bucket_level (Suc 0) b ht =
     res_bind
       (res_fold (\<lambda>i ht. res_bind (read_cell ht b (of_nat i)) (\<lambda>c.
          if c \<noteq> 0 then free_chain (next_addr ht) c ht else Inr ht)) [0..<256] ht)
       (\<lambda>ht. free_bucket ht b)"
| "ff_hash_table_free_bucket_level (Suc (Suc n)) b ht =
     res_bind
       (res_fold (\<lambda>i ht. res_bind (read_cell ht b (of_nat i)) (\<lambda>c.
          if c \<noteq> 0 then ff_hash_table_free_bucket_level (Suc n) c ht else Inr ht)) [0..<256] ht)
       (\<lambda>ht. free_bucket ht b)"

definition ff_hash_table_free :: "ff_hash_table \<Rightarrow> ff_hash_table res" where
  "ff_hash_table_free ht = ff_hash_table_free_bucket_level (unat (bucket_levels ht)) (buckets ht) ht"

text \<open>The iterator. It holds the mutex from \<open>init\<close> to \<open>free\<close>, so the table is the same for all
  its steps.\<close>

record ff_hash_table_iterator =
  current_node :: addr
  started :: bool

definition ff_hash_table_iterator_init :: ff_hash_table_iterator where
  "ff_hash_table_iterator_init = \<lparr>current_node = 0, started = False\<rparr>"

definition ff_hash_table_iterator_next ::
  "ff_hash_table \<Rightarrow> ff_hash_table_iterator \<Rightarrow> (addr \<times> ff_hash_table_iterator) res" where
  "ff_hash_table_iterator_next ht iterator =
     res_bind
       (if \<not> started iterator then Inr (iterator\<lparr>current_node := linked_list ht, started := True\<rparr>)
        else if current_node iterator \<noteq> 0 then
          res_bind (read_node ht (current_node iterator)) (\<lambda>node.
          Inr (iterator\<lparr>current_node := next_in_list node\<rparr>))
        else Inr iterator)
       (\<lambda>iterator.
        if current_node iterator = 0 then Inr (0, iterator)
        else res_bind (read_node ht (current_node iterator)) (\<lambda>node.
          Inr (node_value node, iterator)))"

end
