(* ===== verification/Hash_Table_Inv.thy ===== *)
theory Hash_Table_Inv
  imports Hash_Table "HOL-Library.AList"
begin

text \<open>
  The representation invariant of the request table and its preservation. A table is described
  by three ghosts: \<open>T\<close> maps the path of a bucket array (the hashes that lead to it) to its
  address, \<open>H\<close> maps a full path to the head of its chain, and \<open>ps\<close> lists the nodes in order of
  insertion.
\<close>

section \<open>Linked lists\<close>

text \<open>The nodes \<open>xs\<close> are linked by \<open>f\<close> from \<open>p\<close> to NULL.\<close>

fun links :: "(addr \<Rightarrow> addr) \<Rightarrow> addr \<Rightarrow> addr list \<Rightarrow> bool" where
  "links f p [] \<longleftrightarrow> p = 0"
| "links f p (a # as) \<longleftrightarrow> p = a \<and> a \<noteq> 0 \<and> links f (f a) as"

lemma links_cong: "(\<And>a. a \<in> set xs \<Longrightarrow> f a = g a) \<Longrightarrow> links f p xs = links g p xs"
  by (induction xs arbitrary: p) auto

lemma links_Null: "links f 0 xs \<longleftrightarrow> xs = []"
  by (cases xs) auto

lemma links_hd: "links f p xs \<Longrightarrow> p = (if xs = [] then 0 else hd xs)"
  by (cases xs) auto

text \<open>Linking a new last node.\<close>

lemma links_snoc:
  assumes "links f p xs" and "b \<noteq> 0" and "b \<notin> set xs" and "distinct xs" and "g b = 0"
    and "xs \<noteq> [] \<longrightarrow> g (last xs) = b" and "\<forall>a \<in> set (butlast xs). g a = f a"
  shows "links g (if xs = [] then b else p) (xs @ [b])"
  using assms by (induction xs arbitrary: p) (auto split: if_splits)

text \<open>Unlinking a node.\<close>

lemma links_remove:
  assumes "links f p (xs @ a # ys)" and "distinct (xs @ a # ys)"
    and "xs \<noteq> [] \<longrightarrow> g (last xs) = f a" and "\<forall>c \<in> set (butlast xs) \<union> set ys. g c = f c"
  shows "links g (if xs = [] then f a else p) (xs @ ys)"
  using assms
proof (induction xs arbitrary: p)
  case Nil
  then show ?case using links_cong [of ys g f] by auto
next
  case (Cons x xs)
  then show ?case by (cases "xs = []") (use links_cong [of ys g f] in auto)
qed

lemma links_succ:
  assumes "links f p (xs @ a # ys)"
  shows "f a = (if ys = [] then 0 else hd ys)" and "xs \<noteq> [] \<longrightarrow> f (last xs) = a"
  using assms by (induction xs arbitrary: p) (auto dest: links_hd split: if_splits)

lemma links_rev_pred:
  assumes "links f p (rev (xs @ a # ys))"
  shows "f a = (if xs = [] then 0 else last xs)"
  using links_succ(1) [of f p "rev ys" a "rev xs"] assms by (simp add: hd_rev)

section \<open>The invariant\<close>

definition hash_path :: "nat \<Rightarrow> 64 word \<Rightarrow> byte list" where
  "hash_path n i = map (\<lambda>l. ucast (drop_bit (8 * l) i)) [0..<n]"

definition ptr :: "addr option \<Rightarrow> addr" where
  "ptr p = (case p of None \<Rightarrow> 0 | Some a \<Rightarrow> a)"

lemma ptr_simps [simp]: "ptr None = 0" "ptr (Some a) = a"
  by (simp_all add: ptr_def)

abbreviation levels :: "ff_hash_table \<Rightarrow> nat" where
  "levels ht \<equiv> unat (bucket_levels ht)"

definition cells_ok :: "nat \<Rightarrow> (byte list \<rightharpoonup> addr) \<Rightarrow> (byte list \<Rightarrow> addr) \<Rightarrow> byte list \<Rightarrow> (byte \<Rightarrow> addr) \<Rightarrow> bool" where
  "cells_ok n T H p cells \<longleftrightarrow>
     (\<forall>b. cells b = (if Suc (length p) = n then H (p @ [b]) else ptr (T (p @ [b]))))"

definition buckets_ok :: "ff_hash_table \<Rightarrow> (byte list \<rightharpoonup> addr) \<Rightarrow> (byte list \<Rightarrow> addr) \<Rightarrow> bool" where
  "buckets_ok ht T H \<longleftrightarrow>
     T [] = Some (buckets ht) \<and>
     (\<forall>p t. T p = Some t \<longrightarrow> length p < levels ht \<and> 0 < t \<and> t < next_addr ht \<and>
        (\<exists>cells. bucket_at ht t = Some cells \<and> cells_ok (levels ht) T H p cells)) \<and>
     inj_on T (dom T) \<and> (\<forall>p b. T (p @ [b]) \<noteq> None \<longrightarrow> T p \<noteq> None) \<and> dom (bucket_at ht) = ran T \<and>
     (\<forall>q. H q \<noteq> 0 \<longrightarrow> length q = levels ht \<and> T (butlast q) \<noteq> None)"

abbreviation node_id :: "ff_hash_table \<Rightarrow> addr \<Rightarrow> 64 word" where
  "node_id ht a \<equiv> item_id (the (node_at ht a))"

abbreviation links_by :: "(ff_hash_table_node \<Rightarrow> addr) \<Rightarrow> ff_hash_table \<Rightarrow> addr \<Rightarrow> addr list \<Rightarrow> bool" where
  "links_by f ht \<equiv> links (\<lambda>a. f (the (node_at ht a)))"

definition chain_ok :: "ff_hash_table \<Rightarrow> addr list \<Rightarrow> byte list \<Rightarrow> addr \<Rightarrow> bool" where
  "chain_ok ht ps q p \<longleftrightarrow>
     (\<exists>xs. links_by next_node ht p xs \<and> distinct xs \<and>
        set xs = {a \<in> set ps. hash_path (levels ht) (node_id ht a) = q})"

definition list_ok :: "ff_hash_table \<Rightarrow> addr list \<Rightarrow> bool" where
  "list_ok ht ps \<longleftrightarrow>
     links_by next_in_list ht (linked_list ht) ps \<and> links_by prev_in_list ht (linked_list_last ht) (rev ps) \<and>
     distinct ps \<and> dom (node_at ht) = set ps \<and> (\<forall>a \<in> set ps. 0 < a \<and> a < next_addr ht) \<and>
     inj_on (node_id ht) (set ps) \<and> ht_length ht = of_nat (length ps)"

definition table_ok :: "ff_hash_table \<Rightarrow> (byte list \<rightharpoonup> addr) \<Rightarrow> (byte list \<Rightarrow> addr) \<Rightarrow> addr list \<Rightarrow> bool" where
  "table_ok ht T H ps \<longleftrightarrow>
     1 \<le> levels ht \<and> levels ht \<le> 8 \<and> buckets_ok ht T H \<and> list_ok ht ps \<and> (\<forall>q. chain_ok ht ps q (H q))"

text \<open>What the table stands for: the ids and values in order of insertion.\<close>

definition entries :: "ff_hash_table \<Rightarrow> addr list \<Rightarrow> (64 word \<times> addr) list" where
  "entries ht ps = map (\<lambda>a. (node_id ht a, node_value (the (node_at ht a)))) ps"

definition holds :: "ff_hash_table \<Rightarrow> (64 word \<times> addr) list \<Rightarrow> bool" where
  "holds ht es \<longleftrightarrow> (\<exists>T H ps. table_ok ht T H ps \<and> es = entries ht ps)"

section \<open>Hashes and paths\<close>

lemma hash_for_level:
  assumes "l < 8"
  shows "FF_HASH_GET_FOR_LEVEL i (int l) = Inr (ucast (drop_bit (8 * l) i))"
proof -
  have low: "nat (64 - 8 * (int l + 1)) = 56 - 8 * l" and high: "nat (8 * int l) = 8 * l"
    using assms by (simp_all add: nat_eq_iff of_nat_diff)
  have ones: "(0xFFFFFFFFFFFFFFFF :: 64 word) = mask 64"
    by (simp add: mask_eq_exp_minus_1)
  have "ucast (drop_bit (8 * l) (i AND drop_bit (56 - 8 * l) 0xFFFFFFFFFFFFFFFF)) = (ucast (drop_bit (8 * l) i) :: byte)"
    unfolding ones using assms by (intro bit_word_eqI) (auto simp: bit_simps)
  then show ?thesis
    using assms low high by (simp add: FF_HASH_GET_FOR_LEVEL_def Let_def)
qed

lemma length_hash_path [simp]: "length (hash_path n i) = n"
  by (simp add: hash_path_def)

lemma take_hash_path: "k \<le> n \<Longrightarrow> take k (hash_path n i) = hash_path k i"
  by (simp add: hash_path_def take_map)

lemma hash_path_Suc: "hash_path (Suc k) i = hash_path k i @ [ucast (drop_bit (8 * k) i)]"
  by (simp add: hash_path_def)

lemma hash_path_not_Nil: "0 < n \<Longrightarrow> hash_path n i \<noteq> []"
  by (simp add: hash_path_def)

lemma butlast_hash_path: "butlast (hash_path (Suc k) i) = hash_path k i"
  by (simp add: hash_path_Suc)

section \<open>Walking and creating buckets\<close>

lemma buckets_okD:
  assumes "buckets_ok ht T H" and "T p = Some t"
  obtains cells where "bucket_at ht t = Some cells" "cells_ok (levels ht) T H p cells" "0 < t"
    "t < next_addr ht" "length p < levels ht"
  using assms unfolding buckets_ok_def by blast

lemma read_cell_ok:
  assumes "buckets_ok ht T H" and "T p = Some t"
  shows "read_cell ht t b = Inr (if Suc (length p) = levels ht then H (p @ [b]) else ptr (T (p @ [b])))"
  by (rule buckets_okD [OF assms]) (auto simp: read_cell_def cells_ok_def)

lemma not_None_prefix:
  assumes "buckets_ok ht T H" and "T (p @ q) \<noteq> None"
  shows "T p \<noteq> None"
  using assms(2)
proof (induction q rule: rev_induct)
  case (snoc b q)
  then show ?case using assms(1) unfolding buckets_ok_def by (metis append_assoc)
qed simp

lemma hash_path_prefix:
  assumes "buckets_ok ht T H" and "k \<le> n" and "T (hash_path n i) \<noteq> None"
  shows "T (hash_path k i) \<noteq> None"
proof -
  have "hash_path n i = hash_path k i @ drop k (hash_path n i)"
    using take_hash_path [OF assms(2), of i] by (metis append_take_drop_id)
  then show ?thesis using not_None_prefix [OF assms(1)] assms(3) by metis
qed

lemma ptr_pos: "buckets_ok ht T H \<Longrightarrow> ptr (T p) = 0 \<longleftrightarrow> T p = None"
  by (cases "T p") (auto elim: buckets_okD)

lemma bucket_walk_lookup:
  assumes ok: "buckets_ok ht T H" and lev: "levels ht \<le> 8"
    and "k \<le> n" and "n < levels ht" and "T (hash_path k i) = Some t"
  shows "bucket_walk ht i False [k..<n] t None = Inr (ht, T (hash_path n i), None)"
  using assms(3-5)
proof (induction "n - k" arbitrary: k t)
  case 0
  then show ?case by simp
next
  case (Suc d)
  then have k: "[k..<n] = k # [Suc k..<n]" "k < n" by (simp_all add: upt_conv_Cons)
  have cell: "read_cell ht t (ucast (drop_bit (8 * k) i)) = Inr (ptr (T (hash_path (Suc k) i)))"
    using read_cell_ok [OF ok Suc.prems(3)] k(2) Suc.prems by (simp add: hash_path_Suc)
  show ?case
  proof (cases "T (hash_path (Suc k) i)")
    case None
    then have "T (hash_path n i) = None"
      using hash_path_prefix [OF ok, of "Suc k" n i] k(2) by (cases "T (hash_path n i)") auto
    then show ?thesis
      using cell None k lev Suc.prems by (simp add: hash_for_level)
  next
    case (Some t')
    then have "t' \<noteq> 0" using ptr_pos [OF ok, of "hash_path (Suc k) i"] by simp
    moreover have "bucket_walk ht i False [Suc k..<n] t' None = Inr (ht, T (hash_path n i), None)"
      using Suc.hyps(1) [of "Suc k"] Suc.hyps(2) Suc.prems k(2) Some by simp
    ultimately show ?thesis
      using cell Some k lev Suc.prems by (simp add: hash_for_level)
  qed
qed

text \<open>A new empty array at a free cell.\<close>

lemma buckets_ok_extend:
  assumes ok: "buckets_ok ht T H" and p: "T p = Some t" "T (p @ [b]) = None" "Suc (length p) < levels ht"
    and cells: "bucket_at ht t = Some cells"
  shows "buckets_ok (ht\<lparr>bucket_at := (bucket_at ht)(next_addr ht \<mapsto> (\<lambda>_. 0), t \<mapsto> cells(b := next_addr ht)),
      next_addr := Suc (next_addr ht)\<rparr>) (T(p @ [b] \<mapsto> next_addr ht)) H"
proof -
  let ?a = "next_addr ht" and ?T = "T(p @ [b] \<mapsto> next_addr ht)"
  let ?ht = "ht\<lparr>bucket_at := (bucket_at ht)(?a \<mapsto> (\<lambda>_. 0), t \<mapsto> cells(b := ?a)), next_addr := Suc ?a\<rparr>"
  have fresh: "T q \<noteq> Some ?a" for q
    using ok by (auto elim: buckets_okD)
  have below: "T ((p @ [b]) @ r) = None" for r
    using not_None_prefix [OF ok] p(2) by blast
  have heads: "H (p @ [b] @ [c]) = 0" for c
    using ok p(2) unfolding buckets_ok_def by (metis append_assoc butlast_snoc)
  have ta: "t < ?a" "0 < t" using ok p(1) by (auto elim: buckets_okD)
  have entry: "length q < levels ?ht \<and> 0 < u \<and> u < next_addr ?ht \<and>
      (\<exists>cells. bucket_at ?ht u = Some cells \<and> cells_ok (levels ?ht) ?T H q cells)"
    if q: "?T q = Some u" for q u
  proof (cases "q = p @ [b]")
    case True
    then have "u = ?a" using q by simp
    moreover have "cells_ok (levels ht) ?T H q (\<lambda>_. 0)"
      using True below [of "[c]" for c] heads by (auto simp: cells_ok_def)
    ultimately show ?thesis
      using True p(3) ta by simp
  next
    case False
    then have q': "T q = Some u" using q by simp
    obtain cs where cs: "bucket_at ht u = Some cs" "cells_ok (levels ht) T H q cs" "0 < u" "u < ?a"
        "length q < levels ht"
      by (rule buckets_okD [OF ok q'])
    have "u = t \<longleftrightarrow> q = p"
      using ok q' p(1) unfolding buckets_ok_def inj_on_def by (metis domI option.inject)
    moreover have "cells_ok (levels ht) ?T H q (if q = p then cells(b := ?a) else cs)"
    proof (cases "q = p")
      case True
      then have "cs = cells" using cs(1) cells q' p(1) by simp
      then show ?thesis using cs(2) True p(3) by (auto simp: cells_ok_def)
    next
      case False
      then show ?thesis using cs(2) by (auto simp: cells_ok_def)
    qed
    ultimately show ?thesis
      using cs ta by auto
  qed
  have "inj_on ?T (dom ?T)"
    using ok fresh unfolding buckets_ok_def inj_on_def by (auto simp: dom_def)
  moreover have "?T q \<noteq> None" if "?T (q @ [c]) \<noteq> None" for q c
    using that p(1) not_None_prefix [OF ok, of q "[c]"] by (auto split: if_splits)
  moreover have "dom (bucket_at ?ht) = ran ?T"
  proof -
    have "ran ?T = insert ?a (ran T)" using p(2) by simp
    moreover have "t \<in> ran T" using p(1) by (auto simp: ran_def)
    ultimately show ?thesis
      using ok unfolding buckets_ok_def by auto
  qed
  moreover have "?T [] = Some (buckets ?ht)"
    using ok unfolding buckets_ok_def by simp
  moreover have "length q = levels ?ht \<and> ?T (butlast q) \<noteq> None" if "H q \<noteq> 0" for q
    using that ok unfolding buckets_ok_def by auto
  ultimately show ?thesis
    using entry unfolding buckets_ok_def by blast
qed

lemma bucket_walk_create:
  assumes "buckets_ok ht T H" and "levels ht \<le> 8"
    and "k \<le> n" and "n < levels ht" and "T (hash_path k i) = Some t"
    and "\<forall>bs. bl = Some bs \<longrightarrow> length bs = levels ht \<and> (\<forall>j<k. T (hash_path (Suc j) i) = Some (bs ! j))"
  shows "\<exists>B a T' t' bl'. bucket_walk ht i True [k..<n] t bl =
      Inr (ht\<lparr>bucket_at := B, next_addr := a\<rparr>, Some t', bl') \<and>
    buckets_ok (ht\<lparr>bucket_at := B, next_addr := a\<rparr>) T' H \<and> next_addr ht \<le> a \<and>
    T' (hash_path n i) = Some t' \<and> (bl = None \<longleftrightarrow> bl' = None) \<and>
    (\<forall>bs. bl' = Some bs \<longrightarrow> length bs = levels ht \<and> (\<forall>j<n. T' (hash_path (Suc j) i) = Some (bs ! j)))"
  using assms
proof (induction "n - k" arbitrary: ht T k t bl)
  case 0
  then have "k = n" by simp
  with 0 show ?case
    by (intro exI [of _ "bucket_at ht"] exI [of _ "next_addr ht"] exI [of _ T] exI [of _ t] exI [of _ bl]) simp
next
  case (Suc d)
  let ?p = "hash_path k i" and ?b = "ucast (drop_bit (8 * k) i) :: byte"
  have k: "[k..<n] = k # [Suc k..<n]" "k < n" using Suc by (simp_all add: upt_conv_Cons)
  have cell: "read_cell ht t ?b = Inr (ptr (T (hash_path (Suc k) i)))"
    using read_cell_ok [OF Suc.prems(1,5)] k(2) Suc.prems by (simp add: hash_path_Suc)
  obtain B a T1 t1 where created:
    "(if ptr (T (hash_path (Suc k) i)) = 0 then
        (let (t', ht) = ff_hash_table_init_bucket ht in write_cell ht t ?b t') else Inr ht)
      = Inr (ht\<lparr>bucket_at := B, next_addr := a\<rparr>)"
    "buckets_ok (ht\<lparr>bucket_at := B, next_addr := a\<rparr>) T1 H" "next_addr ht \<le> a"
    "T1 (hash_path (Suc k) i) = Some t1" "\<forall>j<Suc k. T1 (hash_path j i) = T (hash_path j i)"
    "read_cell (ht\<lparr>bucket_at := B, next_addr := a\<rparr>) t ?b = Inr t1"
  proof (cases "T (hash_path (Suc k) i)")
    case None
    obtain cells where cells: "bucket_at ht t = Some cells" "0 < t" "t < next_addr ht"
      by (rule buckets_okD [OF Suc.prems(1,5)])
    let ?B = "(bucket_at ht)(next_addr ht \<mapsto> (\<lambda>_. 0), t \<mapsto> cells(?b := next_addr ht))"
    have ok: "buckets_ok (ht\<lparr>bucket_at := ?B, next_addr := Suc (next_addr ht)\<rparr>) (T(hash_path (Suc k) i \<mapsto> next_addr ht)) H"
      using buckets_ok_extend [OF Suc.prems(1,5) _ _ cells(1), of ?b] None k(2) Suc.prems(4)
      by (simp add: hash_path_Suc)
    have "hash_path j i \<noteq> hash_path (Suc k) i" if "j < Suc k" for j
      using that by (metis length_hash_path nat_neq_iff)
    then show thesis
      using None cells ok
      by (intro that [of "Suc (next_addr ht)" ?B "T(hash_path (Suc k) i \<mapsto> next_addr ht)" "next_addr ht"])
        (simp_all add: ff_hash_table_init_bucket_def write_cell_def read_cell_def)
  next
    case (Some t1)
    then have "t1 \<noteq> 0" using ptr_pos [OF Suc.prems(1), of "hash_path (Suc k) i"] by simp
    then show thesis
      using Some Suc.prems(1) cell by (intro that [of "next_addr ht" "bucket_at ht" T t1]) simp_all
  qed
  let ?ht = "ht\<lparr>bucket_at := B, next_addr := a\<rparr>"
  let ?bl = "map_option (\<lambda>bs. bs[k := t1]) bl"
  have bl: "\<forall>bs. ?bl = Some bs \<longrightarrow> length bs = levels ?ht \<and> (\<forall>j<Suc k. T1 (hash_path (Suc j) i) = Some (bs ! j))"
  proof (intro allI impI)
    fix bs assume "?bl = Some bs"
    then obtain bs0 where bs0: "bl = Some bs0" "bs = bs0[k := t1]" by auto
    moreover have "T1 (hash_path (Suc j) i) = T (hash_path (Suc j) i)" if "j < k" for j
      using created(5) that by simp
    ultimately show "length bs = levels ?ht \<and> (\<forall>j<Suc k. T1 (hash_path (Suc j) i) = Some (bs ! j))"
      using Suc.prems(4,6) created(4) k(2) by (auto simp: nth_list_update less_Suc_eq)
  qed
  have step: "bucket_walk ht i True [k..<n] t bl = bucket_walk ?ht i True [Suc k..<n] t1 ?bl"
  proof (cases bl)
    case None
    then show ?thesis
      using k cell created(1,6) Suc.prems(2,4) by (simp add: hash_for_level)
  next
    case (Some bs)
    then show ?thesis
      using k cell created(1,6) Suc.prems(2,4,6) by (simp add: hash_for_level)
  qed
  have "\<exists>B' a' T' t' bl'. bucket_walk ?ht i True [Suc k..<n] t1 ?bl =
      Inr (?ht\<lparr>bucket_at := B', next_addr := a'\<rparr>, Some t', bl') \<and>
    buckets_ok (?ht\<lparr>bucket_at := B', next_addr := a'\<rparr>) T' H \<and> next_addr ?ht \<le> a' \<and>
    T' (hash_path n i) = Some t' \<and> (?bl = None \<longleftrightarrow> bl' = None) \<and>
    (\<forall>bs. bl' = Some bs \<longrightarrow> length bs = levels ?ht \<and> (\<forall>j<n. T' (hash_path (Suc j) i) = Some (bs ! j)))"
    using Suc.hyps(2) Suc.prems(2,4) created(2,4) k(2) bl
    by (intro Suc.hyps(1) [where T = T1]) simp_all
  then obtain B' a' T' t' bl' where r: "bucket_walk ?ht i True [Suc k..<n] t1 ?bl =
      Inr (ht\<lparr>bucket_at := B', next_addr := a'\<rparr>, Some t', bl')"
    "buckets_ok (ht\<lparr>bucket_at := B', next_addr := a'\<rparr>) T' H" "a \<le> a'"
    "T' (hash_path n i) = Some t'" "bl = None \<longleftrightarrow> bl' = None"
    "\<forall>bs. bl' = Some bs \<longrightarrow> length bs = levels ht \<and> (\<forall>j<n. T' (hash_path (Suc j) i) = Some (bs ! j))"
    by auto
  show ?case
    unfolding step using r created(3) by (intro exI conjI) (assumption | simp)+
qed

text \<open>The cell of an id: the last array of its path and its last hash.\<close>

lemma last_hash:
  assumes "1 \<le> levels ht" and "levels ht \<le> 8"
  shows "FF_HASH_GET_FOR_LEVEL i (int (levels ht) - 1) = Inr (last (hash_path (levels ht) i))"
    and "hash_path (levels ht - 1) i @ [last (hash_path (levels ht) i)] = hash_path (levels ht) i"
proof -
  have "int (levels ht) - 1 = int (levels ht - 1)" using assms(1) by simp
  then show "FF_HASH_GET_FOR_LEVEL i (int (levels ht) - 1) = Inr (last (hash_path (levels ht) i))"
    using assms hash_for_level [of "levels ht - 1" i] hash_path_Suc [of "levels ht - 1" i] by simp
  show "hash_path (levels ht - 1) i @ [last (hash_path (levels ht) i)] = hash_path (levels ht) i"
    using assms hash_path_Suc [of "levels ht - 1" i] by simp
qed

lemma hash_path_0 [simp]: "hash_path 0 i = []"
  by (simp add: hash_path_def)

lemma get_bucket_lookup:
  assumes "buckets_ok ht T H" and "1 \<le> levels ht" and "levels ht \<le> 8"
  shows "ff_hash_table_get_or_create_bucket ht i False None =
    Inr (ht, map_option (\<lambda>t. (t, last (hash_path (levels ht) i))) (T (hash_path (levels ht - 1) i)), None)"
proof -
  have "T (hash_path 0 i) = Some (buckets ht)"
    using assms(1) by (simp add: buckets_ok_def)
  then have "bucket_walk ht i False [0..<levels ht - 1] (buckets ht) None = Inr (ht, T (hash_path (levels ht - 1) i), None)"
    using bucket_walk_lookup [OF assms(1,3), of 0 "levels ht - 1" i "buckets ht"] assms(2) by simp
  then show ?thesis
    using last_hash(1) [OF assms(2,3)]
    by (cases "T (hash_path (levels ht - 1) i)") (simp_all add: ff_hash_table_get_or_create_bucket_def)
qed

lemma get_bucket_create:
  assumes "buckets_ok ht T H" and "1 \<le> levels ht" and "levels ht \<le> 8"
    and "bl = None \<or> (\<exists>bs. bl = Some bs \<and> length bs = levels ht)"
  shows "\<exists>B a T' t bl'. ff_hash_table_get_or_create_bucket ht i True bl =
      Inr (ht\<lparr>bucket_at := B, next_addr := a\<rparr>, Some (t, last (hash_path (levels ht) i)), bl') \<and>
    buckets_ok (ht\<lparr>bucket_at := B, next_addr := a\<rparr>) T' H \<and> next_addr ht \<le> a \<and>
    T' (hash_path (levels ht - 1) i) = Some t \<and> (bl = None \<longleftrightarrow> bl' = None) \<and>
    (\<forall>bs. bl' = Some bs \<longrightarrow> length bs = levels ht \<and>
       (\<forall>j<levels ht - 1. T' (hash_path (Suc j) i) = Some (bs ! j)))"
proof -
  have "T (hash_path 0 i) = Some (buckets ht)"
    using assms(1) by (simp add: buckets_ok_def)
  then obtain B a T' t bl' where r: "bucket_walk ht i True [0..<levels ht - 1] (buckets ht) bl =
      Inr (ht\<lparr>bucket_at := B, next_addr := a\<rparr>, Some t, bl')"
    "buckets_ok (ht\<lparr>bucket_at := B, next_addr := a\<rparr>) T' H" "next_addr ht \<le> a"
    "T' (hash_path (levels ht - 1) i) = Some t" "bl = None \<longleftrightarrow> bl' = None"
    "\<forall>bs. bl' = Some bs \<longrightarrow> length bs = levels ht \<and> (\<forall>j<levels ht - 1. T' (hash_path (Suc j) i) = Some (bs ! j))"
    using bucket_walk_create [OF assms(1,3), of 0 "levels ht - 1" i "buckets ht" bl] assms(2,4) by auto
  have "ff_hash_table_get_or_create_bucket ht i True bl =
      Inr (ht\<lparr>bucket_at := B, next_addr := a\<rparr>, Some (t, last (hash_path (levels ht) i)), bl')"
    using r(1) last_hash(1) [OF assms(2,3)] by (simp add: ff_hash_table_get_or_create_bucket_def)
  with r show ?thesis by blast
qed

section \<open>Walking a chain\<close>

lemma list_ok_node:
  assumes "list_ok ht ps" and "a \<in> set ps"
  shows "read_node ht a = Inr (the (node_at ht a))" and "a \<noteq> 0"
  using assms by (auto simp: list_ok_def read_node_def split: option.splits)

lemma chain_length:
  assumes "list_ok ht ps" and "distinct xs" and "set xs \<subseteq> set ps"
  shows "length xs < next_addr ht \<or> xs = []"
proof -
  have "length xs = card (set xs)" using assms(2) by (simp add: distinct_card)
  also have "\<dots> \<le> card {0<..<next_addr ht}"
    using assms(1,3) by (intro card_mono) (auto simp: list_ok_def)
  finally show ?thesis by (cases xs) auto
qed

lemma find_loop_chain:
  assumes "list_ok ht ps" and "links_by next_node ht p (us @ vs)" and "set (us @ vs) \<subseteq> set ps"
    and "length (us @ vs) \<le> fuel" and "\<forall>u \<in> set us. node_id ht u \<noteq> i"
    and "vs \<noteq> [] \<longrightarrow> node_id ht (hd vs) = i"
  shows "find_loop fuel ht i p prev = Inr (if vs = [] then 0 else hd vs, last (prev # us))"
  using assms(2-)
proof (induction us arbitrary: fuel p prev)
  case Nil
  show ?case
  proof (cases vs)
    case Nil
    then show ?thesis using Nil.prems by (cases fuel) simp_all
  next
    case (Cons a vs')
    then have "a \<in> set ps" using Nil.prems by simp
    note node = list_ok_node [OF assms(1) this]
    show ?thesis using Cons Nil.prems node by (cases fuel) auto
  qed
next
  case (Cons a us)
  then obtain fuel' where fuel: "fuel = Suc fuel'" by (cases fuel) auto
  have "a \<in> set ps" using Cons.prems by simp
  note node = list_ok_node [OF assms(1) this]
  have step: "find_loop fuel ht i p prev = find_loop fuel' ht i (next_node (the (node_at ht a))) a"
    using Cons.prems node fuel by simp
  show ?case
    unfolding step by (subst Cons.IH) (use Cons.prems fuel in simp_all)
qed

lemma get_loop_chain:
  assumes "list_ok ht ps" and "links_by next_node ht p xs" and "xs \<noteq> []" and "set xs \<subseteq> set ps"
    and "length xs \<le> fuel" and "distinct xs"
  shows "get_loop fuel ht i p =
    Inr (case filter (\<lambda>a. node_id ht a = i) xs of [] \<Rightarrow> 0 | a # _ \<Rightarrow> node_value (the (node_at ht a)))"
  using assms(2-)
proof (induction xs arbitrary: fuel p)
  case Nil
  then show ?case by simp
next
  case (Cons a xs)
  then obtain fuel' where fuel: "fuel = Suc fuel'" by (cases fuel) auto
  have a: "a \<in> set ps" using Cons.prems by simp
  note node = list_ok_node [OF assms(1) a]
  have others: "node_id ht a = i \<Longrightarrow> filter (\<lambda>a. node_id ht a = i) xs = []"
    using assms(1) Cons.prems(3,5) a unfolding list_ok_def inj_on_def filter_empty_conv by fastforce
  have nx: "links_by next_node ht (next_node (the (node_at ht a))) xs"
    using Cons.prems(1) by simp
  show ?case
  proof (cases "xs = []")
    case True
    then show ?thesis using Cons.prems node fuel nx by auto
  next
    case False
    then have "next_node (the (node_at ht a)) \<noteq> 0" using nx by (cases xs) auto
    then show ?thesis
      using Cons.prems node fuel nx others False Cons.IH [of "next_node (the (node_at ht a))" fuel'] by auto
  qed
qed

section \<open>Looking up\<close>

lemma table_ok_chain:
  assumes "table_ok ht T H ps"
  obtains xs where "links_by next_node ht (H (hash_path (levels ht) i)) xs" "distinct xs" "set xs \<subseteq> set ps"
    "set xs = {a \<in> set ps. hash_path (levels ht) (node_id ht a) = hash_path (levels ht) i}"
    "length xs < next_addr ht \<or> xs = []"
proof -
  obtain xs where xs: "links_by next_node ht (H (hash_path (levels ht) i)) xs" "distinct xs"
      "set xs = {a \<in> set ps. hash_path (levels ht) (node_id ht a) = hash_path (levels ht) i}"
    using assms by (auto simp: table_ok_def chain_ok_def)
  moreover have "set xs \<subseteq> set ps" using xs(3) by auto
  moreover have "list_ok ht ps" using assms by (simp add: table_ok_def)
  ultimately show thesis
    using that chain_length [of ht ps xs] by blast
qed

lemma map_of_entries_None: "i \<notin> node_id ht ` set ps \<Longrightarrow> map_of (entries ht ps) i = None"
  by (auto simp: entries_def map_of_eq_None_iff)

lemma map_of_entries_Some:
  assumes "list_ok ht ps" and "a \<in> set ps"
  shows "map_of (entries ht ps) (node_id ht a) = Some (node_value (the (node_at ht a)))"
proof (rule map_of_is_SomeI)
  have "distinct (map (node_id ht) ps)"
    using assms(1) by (simp add: list_ok_def distinct_map)
  then show "distinct (map fst (entries ht ps))"
    by (simp add: entries_def comp_def)
  show "(node_id ht a, node_value (the (node_at ht a))) \<in> set (entries ht ps)"
    using assms(2) by (auto simp: entries_def)
qed

lemma filter_unique: "distinct xs \<Longrightarrow> a \<in> set xs \<Longrightarrow> \<forall>b \<in> set xs. P b \<longleftrightarrow> b = a \<Longrightarrow> filter P xs = [a]"
proof (induction xs)
  case (Cons x xs)
  then show ?case by (cases "x = a") (auto simp: filter_empty_conv)
qed simp

lemma get_item_entries:
  assumes ok: "table_ok ht T H ps"
  shows "ff_hash_table_get_item ht i = Inr (ptr (map_of (entries ht ps) i))"
proof -
  let ?q = "hash_path (levels ht) i"
  have b: "buckets_ok ht T H" and l: "list_ok ht ps" and lev: "1 \<le> levels ht" "levels ht \<le> 8"
    using ok by (simp_all add: table_ok_def)
  obtain xs where xs: "links_by next_node ht (H ?q) xs" "distinct xs" "set xs \<subseteq> set ps"
      "set xs = {a \<in> set ps. hash_path (levels ht) (node_id ht a) = ?q}" "length xs < next_addr ht \<or> xs = []"
    by (rule table_ok_chain [OF ok])
  have look: "ptr (map_of (entries ht ps) i) =
      (case filter (\<lambda>a. node_id ht a = i) xs of [] \<Rightarrow> 0 | a # _ \<Rightarrow> node_value (the (node_at ht a)))"
  proof (cases "i \<in> node_id ht ` set ps")
    case True
    then obtain a where a: "a \<in> set ps" "i = node_id ht a" by auto
    then have "\<forall>c \<in> set xs. node_id ht c = i \<longleftrightarrow> c = a"
      using l xs(3) by (auto simp: list_ok_def inj_on_def)
    then have "filter (\<lambda>a. node_id ht a = i) xs = [a]"
      using a xs(2,4) by (intro filter_unique) auto
    then show ?thesis
      using map_of_entries_Some [OF l a(1)] a(2) by simp
  next
    case False
    then have "filter (\<lambda>a. node_id ht a = i) xs = []"
      using xs(3) by (auto simp: filter_empty_conv)
    then show ?thesis using map_of_entries_None [OF False] by simp
  qed
  show ?thesis
  proof (cases "T (hash_path (levels ht - 1) i)")
    case None
    have "butlast ?q = hash_path (levels ht - 1) i"
      using butlast_hash_path [of "levels ht - 1" i] lev(1) by simp
    then have "H ?q = 0" using b None by (metis buckets_ok_def)
    then have "xs = []" using xs(1) by (simp add: links_Null)
    then show ?thesis
      using None look by (simp add: ff_hash_table_get_item_def get_bucket_lookup [OF b lev])
  next
    case (Some t)
    have cell: "read_cell ht t (last ?q) = Inr (H ?q)"
      using read_cell_ok [OF b Some, of "last ?q"] last_hash(2) [OF lev] lev(1) by simp
    show ?thesis
    proof (cases "xs = []")
      case True
      then have "H ?q = 0" using xs(1) by simp
      then show ?thesis
        using Some cell look True by (simp add: ff_hash_table_get_item_def get_bucket_lookup [OF b lev])
    next
      case False
      then have "H ?q \<noteq> 0" using xs(1) by (cases xs) auto
      then show ?thesis
        using Some cell look False get_loop_chain [OF l xs(1) False xs(3) _ xs(2), of "next_addr ht" i] xs(5)
        by (simp add: ff_hash_table_get_item_def get_bucket_lookup [OF b lev])
    qed
  qed
qed

section \<open>Changing the head of a chain\<close>

lemma buckets_ok_set_head:
  assumes ok: "buckets_ok ht T H" and q: "T (butlast q) = Some t" "length q = levels ht"
    and cells: "bucket_at ht t = Some cells"
  shows "buckets_ok (ht\<lparr>bucket_at := (bucket_at ht)(t \<mapsto> cells(last q := v))\<rparr>) T (H(q := v))"
proof -
  let ?ht = "ht\<lparr>bucket_at := (bucket_at ht)(t \<mapsto> cells(last q := v))\<rparr>"
  have ne: "q \<noteq> []" using ok q unfolding buckets_ok_def by (metis length_0_conv not_less_zero)
  have len: "Suc (length (butlast q)) = levels ht" using q(2) ne by (cases q rule: rev_cases) auto
  have entry: "length p < levels ?ht \<and> 0 < u \<and> u < next_addr ?ht \<and>
      (\<exists>cells. bucket_at ?ht u = Some cells \<and> cells_ok (levels ?ht) T (H(q := v)) p cells)"
    if p: "T p = Some u" for p u
  proof -
    obtain cs where cs: "bucket_at ht u = Some cs" "cells_ok (levels ht) T H p cs" "0 < u"
        "u < next_addr ht" "length p < levels ht"
      by (rule buckets_okD [OF ok p])
    show ?thesis
    proof (cases "p = butlast q")
      case True
      then have "u = t" "cs = cells" using p q cs cells by simp_all
      moreover have "butlast q @ [b] = q \<longleftrightarrow> b = last q" for b
        using ne by (metis append_butlast_last_id last_snoc)
      then have "cells_ok (levels ht) T (H(q := v)) p (cells(last q := v))"
        using cs(2) True len \<open>cs = cells\<close> by (auto simp: cells_ok_def)
      ultimately show ?thesis using cs by auto
    next
      case False
      then have "u \<noteq> t"
        using ok p q(1) unfolding buckets_ok_def inj_on_def by (metis domI)
      moreover have "p @ [b] \<noteq> q" for b using False by auto
      ultimately show ?thesis using cs by (auto simp: cells_ok_def)
    qed
  qed
  moreover have "dom (bucket_at ?ht) = dom (bucket_at ht)" using cells by auto
  ultimately show ?thesis
    using ok q unfolding buckets_ok_def by auto
qed

text \<open>The bucket part of the invariant does not depend on the nodes.\<close>

lemma buckets_ok_cong:
  assumes "bucket_levels ht' = bucket_levels ht" "buckets ht' = buckets ht" "bucket_at ht' = bucket_at ht"
    "next_addr ht \<le> next_addr ht'"
  shows "buckets_ok ht T H \<Longrightarrow> buckets_ok ht' T H"
  unfolding buckets_ok_def assms(1-3) using assms(4) by (meson less_le_trans)

end
