(* ===== verification/Hash_Table_Put.thy ===== *)
theory Hash_Table_Put
  imports Hash_Table_Inv
begin

text \<open>
  \<open>put_item\<close> keeps the representation invariant and acts on the entries as the update of an
  ordered association list.
\<close>

section \<open>Changing a value\<close>

lemma update_node_ok:
  assumes "list_ok ht ps" and "a \<in> set ps"
  shows "update_node ht a f = Inr (ht\<lparr>node_at := (node_at ht)(a \<mapsto> f (the (node_at ht a)))\<rparr>)"
  using list_ok_node [OF assms] by (simp add: update_node_def)

lemma table_ok_node_value:
  assumes ok: "table_ok ht T H ps" and a: "a \<in> set ps"
  shows "table_ok (ht\<lparr>node_at := (node_at ht)(a \<mapsto> (the (node_at ht a))\<lparr>node_value := v\<rparr>)\<rparr>) T H ps"
proof -
  let ?ht = "ht\<lparr>node_at := (node_at ht)(a \<mapsto> (the (node_at ht a))\<lparr>node_value := v\<rparr>)\<rparr>"
  have same: "node_id ?ht c = node_id ht c" "next_node (the (node_at ?ht c)) = next_node (the (node_at ht c))"
    "prev_in_list (the (node_at ?ht c)) = prev_in_list (the (node_at ht c))"
    "next_in_list (the (node_at ?ht c)) = next_in_list (the (node_at ht c))" for c
    by simp_all
  have "dom (node_at ?ht) = dom (node_at ht)"
    using ok a by (auto simp: table_ok_def list_ok_def)
  moreover have "buckets_ok ?ht T H"
    using ok by (intro buckets_ok_cong [of ?ht ht]) (simp_all add: table_ok_def)
  moreover have "levels ?ht = levels ht" "linked_list ?ht = linked_list ht"
      "linked_list_last ?ht = linked_list_last ht" "ht_length ?ht = ht_length ht" "next_addr ?ht = next_addr ht"
    by simp_all
  ultimately show ?thesis
    using ok unfolding table_ok_def list_ok_def chain_ok_def same by metis
qed

lemma entries_node_value:
  assumes "list_ok ht ps" and "a \<in> set ps"
  shows "entries (ht\<lparr>node_at := (node_at ht)(a \<mapsto> (the (node_at ht a))\<lparr>node_value := v\<rparr>)\<rparr>) ps
    = AList.update (node_id ht a) v (entries ht ps)"
proof -
  have inj: "inj_on (node_id ht) (set ps)" "distinct ps" using assms(1) by (simp_all add: list_ok_def)
  show ?thesis
    using assms(2) inj unfolding entries_def
  proof (induction ps)
    case (Cons p ps)
    show ?case
    proof (cases "p = a")
      case True
      then show ?thesis using Cons.prems by auto
    next
      case False
      then have "node_id ht p \<noteq> node_id ht a" using Cons.prems by (auto simp: inj_on_def)
      then show ?thesis using Cons False by auto
    qed
  qed simp
qed

section \<open>Inserting a node\<close>

text \<open>\<open>ht'\<close> has one more node \<open>b\<close>, at the end of the list and of the chain of its path.\<close>

definition node_added :: "ff_hash_table \<Rightarrow> ff_hash_table \<Rightarrow> addr \<Rightarrow> 64 word \<Rightarrow> addr \<Rightarrow> addr list \<Rightarrow> addr list \<Rightarrow> bool" where
  "node_added ht ht' b i v xs ps \<longleftrightarrow>
     bucket_levels ht' = bucket_levels ht \<and>
     dom (node_at ht') = insert b (set ps) \<and> 0 < b \<and> b \<notin> set ps \<and> b < next_addr ht' \<and> next_addr ht \<le> next_addr ht' \<and>
     node_id ht' b = i \<and> node_value (the (node_at ht' b)) = v \<and>
     next_node (the (node_at ht' b)) = 0 \<and> next_in_list (the (node_at ht' b)) = 0 \<and>
     prev_in_list (the (node_at ht' b)) = (if ps = [] then 0 else last ps) \<and>
     (\<forall>c \<in> set ps.
        node_id ht' c = node_id ht c \<and> node_value (the (node_at ht' c)) = node_value (the (node_at ht c)) \<and>
        prev_in_list (the (node_at ht' c)) = prev_in_list (the (node_at ht c)) \<and>
        next_node (the (node_at ht' c)) = (if xs \<noteq> [] \<and> c = last xs then b else next_node (the (node_at ht c))) \<and>
        next_in_list (the (node_at ht' c)) = (if c = last ps then b else next_in_list (the (node_at ht c)))) \<and>
     linked_list ht' = (if ps = [] then b else linked_list ht) \<and> linked_list_last ht' = b \<and>
     ht_length ht' = ht_length ht + 1"

lemma last_not_in_butlast: "distinct xs \<Longrightarrow> c \<in> set (butlast xs) \<Longrightarrow> c \<noteq> last xs"
  by (cases xs rule: rev_cases) auto

lemma node_added_old:
  assumes "node_added ht ht' b i v xs ps" and "c \<in> set ps"
  shows "node_id ht' c = node_id ht c"
    and "prev_in_list (the (node_at ht' c)) = prev_in_list (the (node_at ht c))"
    and "next_node (the (node_at ht' c)) = (if xs \<noteq> [] \<and> c = last xs then b else next_node (the (node_at ht c)))"
    and "next_in_list (the (node_at ht' c)) = (if c = last ps then b else next_in_list (the (node_at ht c)))"
  using assms by (simp_all add: node_added_def)

lemma node_added_new:
  assumes "node_added ht ht' b i v xs ps"
  shows "b \<noteq> 0" "b \<notin> set ps" "next_node (the (node_at ht' b)) = 0" "next_in_list (the (node_at ht' b)) = 0"
    "node_id ht' b = i" "prev_in_list (the (node_at ht' b)) = (if ps = [] then 0 else last ps)"
  using assms by (simp_all add: node_added_def)

lemma list_ok_added:
  assumes ok: "list_ok ht ps" and add: "node_added ht ht' b i v xs ps" and i: "i \<notin> node_id ht ` set ps"
  shows "list_ok ht' (ps @ [b])"
proof -
  have fwd: "links_by next_in_list ht (linked_list ht) ps" and bwd: "links_by prev_in_list ht (linked_list_last ht) (rev ps)"
    and dist: "distinct ps" and inj: "inj_on (node_id ht) (set ps)" and bound: "\<forall>a \<in> set ps. 0 < a \<and> a < next_addr ht"
    and len: "ht_length ht = of_nat (length ps)"
    using ok by (simp_all add: list_ok_def)
  have ends: "linked_list ht' = (if ps = [] then b else linked_list ht)" "linked_list_last ht' = b"
      "dom (node_at ht') = insert b (set ps)" "ht_length ht' = ht_length ht + 1" "b < next_addr ht'"
      "next_addr ht \<le> next_addr ht'"
    using add by (simp_all only: node_added_def simp_thms)
  have "links_by next_in_list ht' (if ps = [] then b else linked_list ht) (ps @ [b])"
  proof (rule links_snoc [OF fwd])
    show "\<forall>a \<in> set (butlast ps). next_in_list (the (node_at ht' a)) = next_in_list (the (node_at ht a))"
      using node_added_old(4) [OF add] last_not_in_butlast [OF dist] by (simp add: in_set_butlastD)
  qed (use node_added_new [OF add] node_added_old(4) [OF add] dist in simp_all)
  moreover have "links_by prev_in_list ht' b (b # rev ps)"
  proof -
    have "links_by prev_in_list ht' (linked_list_last ht) (rev ps)"
      using bwd links_cong [of "rev ps" "\<lambda>a. prev_in_list (the (node_at ht' a))" "\<lambda>a. prev_in_list (the (node_at ht a))"]
        node_added_old(2) [OF add] by simp
    moreover have "linked_list_last ht = prev_in_list (the (node_at ht' b))"
      using links_hd [OF bwd] node_added_new(6) [OF add] by (simp add: hd_rev)
    ultimately show ?thesis using node_added_new(1) [OF add] by simp
  qed
  moreover have "inj_on (node_id ht') (insert b (set ps))"
  proof -
    have "inj_on (node_id ht') (set ps)"
      using inj node_added_old(1) [OF add] by (simp add: inj_on_def)
    moreover have "node_id ht' ` set ps = node_id ht ` set ps"
      using node_added_old(1) [OF add] by (intro image_cong) simp_all
    ultimately show ?thesis
      using i node_added_new(2,5) [OF add] by (simp add: inj_on_insert)
  qed
  moreover have "\<forall>a \<in> set (ps @ [b]). 0 < a \<and> a < next_addr ht'"
    using bound ends(5,6) node_added_new(1) [OF add] by (metis Un_iff empty_iff empty_set gr0I insert_iff less_le_trans list.simps(15) set_append)
  ultimately show ?thesis
    using dist node_added_new(2) [OF add] len unfolding list_ok_def ends by simp
qed

lemma chain_ok_added:
  assumes ok: "chain_ok ht ps q p" and add: "node_added ht ht' b i v xs ps"
    and xs: "links_by next_node ht r xs" "distinct xs"
      "set xs = {a \<in> set ps. hash_path (levels ht) (node_id ht a) = hash_path (levels ht) i}"
  shows "chain_ok ht' (ps @ [b]) q
    (if q = hash_path (levels ht) i then (if xs = [] then b else r) else p)"
proof -
  have lev: "levels ht' = levels ht" using add by (simp add: node_added_def)
  show ?thesis
  proof (cases "q = hash_path (levels ht) i")
  case True
  have sub: "set xs \<subseteq> set ps" using xs(3) by auto
  have "links_by next_node ht' (if xs = [] then b else r) (xs @ [b])"
  proof (rule links_snoc [OF xs(1)])
    show "\<forall>a \<in> set (butlast xs). next_node (the (node_at ht' a)) = next_node (the (node_at ht a))"
      using node_added_old(3) [OF add] sub last_not_in_butlast [OF xs(2)] in_set_butlastD by fastforce
    show "xs \<noteq> [] \<longrightarrow> next_node (the (node_at ht' (last xs))) = b"
      using node_added_old(3) [OF add, of "last xs"] subsetD [OF sub last_in_set] by simp
  qed (use node_added_new [OF add] sub xs(2) in auto)
  moreover have "distinct (xs @ [b])" using xs(2) sub node_added_new(2) [OF add] by auto
  moreover have "set (xs @ [b]) = {a \<in> set (ps @ [b]). hash_path (levels ht') (node_id ht' a) = q}"
    using xs(3) True node_added_old(1) [OF add] node_added_new(2,5) [OF add] lev by auto
  ultimately have "chain_ok ht' (ps @ [b]) q (if xs = [] then b else r)"
    unfolding chain_ok_def by blast
  then show ?thesis using True by simp
next
  case False
  obtain ys where ys: "links_by next_node ht p ys" "distinct ys"
      "set ys = {a \<in> set ps. hash_path (levels ht) (node_id ht a) = q}"
    using ok by (auto simp: chain_ok_def)
  have "c \<noteq> last xs" if "c \<in> set ys" "xs \<noteq> []" for c
    using that ys(3) xs(3) False last_in_set [of xs] by auto
  then have "next_node (the (node_at ht' c)) = next_node (the (node_at ht c))" if "c \<in> set ys" for c
    using node_added_old(3) [OF add, of c] that ys(3) by auto
  then have "links_by next_node ht' p ys"
    using ys(1) by (subst links_cong) auto
  moreover have "set ys = {a \<in> set (ps @ [b]). hash_path (levels ht') (node_id ht' a) = q}"
    using ys(3) False node_added_old(1) [OF add] node_added_new(2,5) [OF add] lev by auto
  ultimately show ?thesis
    using False ys(2) unfolding chain_ok_def by auto
  qed
qed

lemma update_new: "k \<notin> fst ` set es \<Longrightarrow> AList.update k v es = es @ [(k, v)]"
  by (induction es) auto

lemma entries_added:
  assumes add: "node_added ht ht' b i v xs ps" and i: "i \<notin> node_id ht ` set ps"
  shows "entries ht' (ps @ [b]) = AList.update i v (entries ht ps)"
proof -
  have "node_value (the (node_at ht' c)) = node_value (the (node_at ht c))" if "c \<in> set ps" for c
    using add that by (simp add: node_added_def)
  then have "entries ht' ps = entries ht ps"
    using node_added_old(1) [OF add] by (simp add: entries_def)
  moreover have "AList.update i v (entries ht ps) = entries ht ps @ [(i, v)]"
    using i by (intro update_new) (force simp: entries_def)
  moreover have "entries ht' [b] = [(i, v)]"
    using add by (simp add: entries_def node_added_def)
  ultimately show ?thesis
    by (simp add: entries_def)
qed

text \<open>The writes of \<open>put_item\<close> for a new id.\<close>

lemma put_new_added:
  assumes l: "list_ok ht ps" and b: "b = next_addr ht" and xs: "set xs \<subseteq> set ps"
    and c: "bucket_at ht t = Some cells" "0 < t" "t < next_addr ht"
  shows "\<exists>ht'. (let (new_node, ht) = alloc_node ht i v in
      res_bind
        (if last (0 # xs) = 0 then write_cell ht t h new_node
         else update_node ht (last (0 # xs)) (next_node_update (\<lambda>_. new_node))) (\<lambda>ht.
      append_to_list ht new_node)) = Inr ht' \<and>
    node_added ht ht' b i v xs ps \<and> buckets ht' = buckets ht \<and>
    bucket_at ht' = (if xs = [] then (bucket_at ht)(t \<mapsto> cells(h := b)) else bucket_at ht)"
proof -
  have bnot: "b \<notin> set ps" "0 \<notin> set ps" using l b by (auto simp: list_ok_def)
  have "linked_list_last ht = (if ps = [] then 0 else last ps)" "linked_list ht = (if ps = [] then 0 else hd ps)"
    using links_hd [of _ "linked_list_last ht" "rev ps"] links_hd [of _ "linked_list ht" ps] l
    by (auto simp: list_ok_def hd_rev)
  note ends = this
  have node: "\<exists>n. node_at ht a = Some n" if "a \<in> set ps" for a
    using l that by (auto simp: list_ok_def)
  have dom: "dom (node_at ht) = set ps" using l by (simp add: list_ok_def)
  show ?thesis
  proof (cases "ps = []")
    case True
    then have "xs = []" using xs by simp
    then show ?thesis
      using True c b dom ends
      by (auto simp: alloc_node_def write_cell_def append_to_list_def node_added_def)
  next
    case False
    then have ps: "last ps \<in> set ps" "hd ps \<in> set ps" "0 < hd ps" using bnot(2) by (auto simp: neq_Nil_conv)
    obtain m where m: "node_at ht (last ps) = Some m" using node ps(1) by blast
    show ?thesis
    proof (cases "xs = []")
      case True
      then show ?thesis
        using False ps m c b dom bnot ends
        by (auto simp: alloc_node_def write_cell_def append_to_list_def node_added_def update_node_def read_node_def)
    next
      case xs': False
      then have "last xs \<in> set ps" using xs last_in_set by blast
      then obtain n where n: "node_at ht (last xs) = Some n" "last xs \<noteq> 0" "last xs \<noteq> b" using node bnot by metis
      show ?thesis
        using False ps m n xs' b dom bnot ends c(3)
        by (auto simp: alloc_node_def append_to_list_def node_added_def update_node_def read_node_def)
    qed
  qed
qed

lemma table_ok_create:
  assumes ok: "table_ok ht T H ps" and b: "buckets_ok (ht\<lparr>bucket_at := B, next_addr := a\<rparr>) T' H"
    and a: "next_addr ht \<le> a"
  shows "table_ok (ht\<lparr>bucket_at := B, next_addr := a\<rparr>) T' H ps"
    and "entries (ht\<lparr>bucket_at := B, next_addr := a\<rparr>) ps = entries ht ps"
proof -
  have "list_ok (ht\<lparr>bucket_at := B, next_addr := a\<rparr>) ps"
    using ok a by (fastforce simp: table_ok_def list_ok_def)
  then show "table_ok (ht\<lparr>bucket_at := B, next_addr := a\<rparr>) T' H ps"
    using ok b by (simp add: table_ok_def chain_ok_def)
  show "entries (ht\<lparr>bucket_at := B, next_addr := a\<rparr>) ps = entries ht ps"
    by (simp add: entries_def)
qed

lemma table_ok_added:
  assumes ok: "table_ok ht T H ps" and add: "node_added ht ht' b i v xs ps" and i: "i \<notin> node_id ht ` set ps"
    and xs: "links_by next_node ht (H (hash_path (levels ht) i)) xs" "distinct xs"
      "set xs = {a \<in> set ps. hash_path (levels ht) (node_id ht a) = hash_path (levels ht) i}"
    and H': "H' = (if xs = [] then H(hash_path (levels ht) i := b) else H)" and bk: "buckets_ok ht' T H'"
  shows "table_ok ht' T H' (ps @ [b])"
proof -
  have lev: "levels ht' = levels ht" using add by (simp add: node_added_def)
  have "chain_ok ht' (ps @ [b]) q (H' q)" for q
  proof -
    have "chain_ok ht ps q (H q)" using ok by (simp add: table_ok_def)
    note chain_ok_added [OF this add xs]
    moreover have "H' q = (if q = hash_path (levels ht) i then (if xs = [] then b else H (hash_path (levels ht) i)) else H q)"
      by (simp add: H')
    ultimately show ?thesis by (simp only:)
  qed
  then show ?thesis
    using ok bk list_ok_added [OF _ add i] lev by (simp add: table_ok_def)
qed

text \<open>What \<open>put_item\<close> and \<open>remove_item\<close> start with: the arrays of the path exist, the cell of the id
  has been read and its chain is \<open>xs\<close>.\<close>

definition bucket_opened ::
  "ff_hash_table \<Rightarrow> (byte list \<rightharpoonup> addr) \<Rightarrow> (byte list \<Rightarrow> addr) \<Rightarrow> addr list \<Rightarrow> 64 word \<Rightarrow> addr \<Rightarrow> (byte \<Rightarrow> addr) \<Rightarrow> addr list \<Rightarrow> bool" where
  "bucket_opened ht T H ps i t cells xs \<longleftrightarrow>
     (let q = hash_path (levels ht) i in
      table_ok ht T H ps \<and> T (butlast q) = Some t \<and>
      bucket_at ht t = Some cells \<and> 0 < t \<and> t < next_addr ht \<and> read_cell ht t (last q) = Inr (H q) \<and>
      links_by next_node ht (H q) xs \<and> distinct xs \<and> set xs \<subseteq> set ps \<and>
      set xs = {a \<in> set ps. hash_path (levels ht) (node_id ht a) = q} \<and> length xs \<le> next_addr ht)"

lemma bucket_openedD:
  assumes "bucket_opened ht T H ps i t cells xs"
  shows "table_ok ht T H ps" "buckets_ok ht T H" "list_ok ht ps" "1 \<le> levels ht" "levels ht \<le> 8"
    "T (butlast (hash_path (levels ht) i)) = Some t" "bucket_at ht t = Some cells" "0 < t" "t < next_addr ht"
    "read_cell ht t (last (hash_path (levels ht) i)) = Inr (H (hash_path (levels ht) i))"
    "links_by next_node ht (H (hash_path (levels ht) i)) xs" "distinct xs" "set xs \<subseteq> set ps"
    "set xs = {a \<in> set ps. hash_path (levels ht) (node_id ht a) = hash_path (levels ht) i}"
    "length xs \<le> next_addr ht"
  using assms unfolding bucket_opened_def Let_def table_ok_def by blast+

lemma open_bucket:
  assumes ok: "table_ok ht T H ps" and bl: "bl = None \<or> (\<exists>bs. bl = Some bs \<and> length bs = levels ht)"
  shows "\<exists>ht' T' t cells xs bl'. ff_hash_table_get_or_create_bucket ht i True bl =
      Inr (ht', Some (t, last (hash_path (levels ht') i)), bl') \<and>
    bucket_opened ht' T' H ps i t cells xs \<and> entries ht' ps = entries ht ps \<and>
    bucket_levels ht' = bucket_levels ht \<and> (bl = None \<longleftrightarrow> bl' = None) \<and>
    (\<forall>bs. bl' = Some bs \<longrightarrow> length bs = levels ht \<and>
       (\<forall>j<levels ht - 1. T' (hash_path (Suc j) i) = Some (bs ! j)))"
proof -
  have ok': "buckets_ok ht T H" "1 \<le> levels ht" "levels ht \<le> 8"
    using ok by (simp_all add: table_ok_def)
  obtain B a T' t bl' where gob: "ff_hash_table_get_or_create_bucket ht i True bl =
        Inr (ht\<lparr>bucket_at := B, next_addr := a\<rparr>, Some (t, last (hash_path (levels ht) i)), bl')"
      "buckets_ok (ht\<lparr>bucket_at := B, next_addr := a\<rparr>) T' H" "next_addr ht \<le> a"
      "T' (hash_path (levels ht - 1) i) = Some t" "bl = None \<longleftrightarrow> bl' = None"
      "\<forall>bs. bl' = Some bs \<longrightarrow> length bs = levels ht \<and> (\<forall>j<levels ht - 1. T' (hash_path (Suc j) i) = Some (bs ! j))"
    using get_bucket_create [OF ok' bl, of i] by blast
  define ht' where "ht' = ht\<lparr>bucket_at := B, next_addr := a\<rparr>"
  have lev: "bucket_levels ht' = bucket_levels ht" by (simp add: ht'_def)
  have ok1: "table_ok ht' T' H ps" and ent: "entries ht' ps = entries ht ps"
    unfolding ht'_def using table_ok_create [OF ok gob(2,3)] by simp_all
  then have b: "buckets_ok ht' T' H" by (simp add: table_ok_def)
  have t: "T' (hash_path (levels ht' - 1) i) = Some t" using gob(4) lev by simp
  obtain cells where cells: "bucket_at ht' t = Some cells" "0 < t" "t < next_addr ht'"
    by (rule buckets_okD [OF b t])
  have "read_cell ht' t (last (hash_path (levels ht') i)) = Inr (H (hash_path (levels ht') i))"
    using read_cell_ok [OF b t, of "last (hash_path (levels ht') i)"] last_hash(2) [of ht' i] ok'(2,3) lev by simp
  moreover have "butlast (hash_path (levels ht') i) = hash_path (levels ht' - 1) i"
    using butlast_hash_path [of "levels ht' - 1" i] ok'(2) lev by simp
  moreover obtain xs where "links_by next_node ht' (H (hash_path (levels ht') i)) xs" "distinct xs" "set xs \<subseteq> set ps"
      "set xs = {a \<in> set ps. hash_path (levels ht') (node_id ht' a) = hash_path (levels ht') i}"
      "length xs < next_addr ht' \<or> xs = []"
    by (rule table_ok_chain [OF ok1])
  ultimately have "bucket_opened ht' T' H ps i t cells xs"
    using ok1 t cells unfolding bucket_opened_def Let_def by (auto simp del: set_map)
  then show ?thesis
    using gob(1,5,6) ent lev unfolding ht'_def [symmetric] by (metis lev)
qed

lemma find_loop_present:
  assumes "bucket_opened ht T H ps i t cells (us @ p # vs)" and "node_id ht p = i"
  shows "find_loop (next_addr ht) ht i (H (hash_path (levels ht) i)) prev = Inr (p, last (prev # us))"
proof -
  note op = bucket_openedD [OF assms(1)]
  have "\<forall>u \<in> set us. node_id ht u \<noteq> i"
    using op(3,12,13) assms(2) unfolding list_ok_def inj_on_def by auto
  then show ?thesis
    using find_loop_chain [OF op(3,11,13,15), of i prev] assms(2) by simp
qed

lemma find_loop_absent:
  assumes "bucket_opened ht T H ps i t cells xs" and "i \<notin> node_id ht ` set ps"
  shows "find_loop (next_addr ht) ht i (H (hash_path (levels ht) i)) prev = Inr (0, last (prev # xs))"
proof -
  note op = bucket_openedD [OF assms(1)]
  have "\<forall>u \<in> set xs. node_id ht u \<noteq> i"
    using op(13) assms(2) by auto
  then show ?thesis
    using find_loop_chain [OF op(3), of "H (hash_path (levels ht) i)" xs "[]" "next_addr ht" i prev] op(11,13,15) by simp
qed

text \<open>After the writes, the head of the chain is a new one when the change was at its front.\<close>

lemma buckets_ok_relinked:
  assumes op: "bucket_opened ht T H ps i t cells xs"
    and ht': "bucket_levels ht' = bucket_levels ht" "buckets ht' = buckets ht" "next_addr ht \<le> next_addr ht'"
      "bucket_at ht' = (if us = [] then (bucket_at ht)(t \<mapsto> cells(last (hash_path (levels ht) i) := v)) else bucket_at ht)"
  shows "buckets_ok ht' T (if us = [] then H(hash_path (levels ht) i := v) else H)"
proof (cases "us = []")
  case True
  have "buckets_ok (ht\<lparr>bucket_at := (bucket_at ht)(t \<mapsto> cells(last (hash_path (levels ht) i) := v))\<rparr>) T
      (H(hash_path (levels ht) i := v))"
    using bucket_openedD [OF op] by (intro buckets_ok_set_head) simp_all
  then have "buckets_ok ht' T (H(hash_path (levels ht) i := v))"
    by (rule buckets_ok_cong [rotated 4]) (use ht' True in simp_all)
  then show ?thesis using True by simp
next
  case False
  have "buckets_ok ht' T H"
    by (rule buckets_ok_cong [OF _ _ _ _ bucket_openedD(2) [OF op]]) (use ht' False in simp_all)
  then show ?thesis using False by simp
qed

lemma put_new_entries:
  assumes op: "bucket_opened ht T H ps i t cells xs" and i: "i \<notin> node_id ht ` set ps"
  shows "\<exists>ht' H' b. (let (new_node, ht1) = alloc_node ht i v in
      res_bind
        (if last (0 # xs) = 0 then write_cell ht1 t (last (hash_path (levels ht) i)) new_node
         else update_node ht1 (last (0 # xs)) (next_node_update (\<lambda>_. new_node))) (\<lambda>ht1.
      append_to_list ht1 new_node)) = Inr ht' \<and> table_ok ht' T H' (ps @ [b]) \<and>
    bucket_levels ht' = bucket_levels ht \<and> entries ht' (ps @ [b]) = AList.update i v (entries ht ps)"
proof -
  let ?q = "hash_path (levels ht) i" and ?b = "next_addr ht"
  note op' = bucket_openedD [OF op]
  obtain ht' where ht': "(let (new_node, ht1) = alloc_node ht i v in
      res_bind
        (if last (0 # xs) = 0 then write_cell ht1 t (last ?q) new_node
         else update_node ht1 (last (0 # xs)) (next_node_update (\<lambda>_. new_node))) (\<lambda>ht1.
      append_to_list ht1 new_node)) = Inr ht'"
    "node_added ht ht' ?b i v xs ps" "buckets ht' = buckets ht"
    "bucket_at ht' = (if xs = [] then (bucket_at ht)(t \<mapsto> cells(last ?q := ?b)) else bucket_at ht)"
    using put_new_added [OF op'(3) refl op'(13,7,8,9), of i v "last ?q"] by blast
  have lev: "bucket_levels ht' = bucket_levels ht" "next_addr ht \<le> next_addr ht'"
    using ht'(2) by (simp_all add: node_added_def)
  have "table_ok ht' T (if xs = [] then H(?q := ?b) else H) (ps @ [?b])"
    using table_ok_added [OF op'(1) ht'(2) i op'(11,12,14) refl]
      buckets_ok_relinked [OF op lev(1) ht'(3) lev(2) ht'(4)] by blast
  then show ?thesis
    using ht'(1) lev(1) entries_added [OF ht'(2) i] by blast
qed

lemma put_item_entries:
  assumes "table_ok ht T H ps"
  shows "\<exists>ht' T' H' ps'. ff_hash_table_put_item ht i v = Inr ht' \<and> table_ok ht' T' H' ps' \<and>
    bucket_levels ht' = bucket_levels ht \<and> entries ht' ps' = AList.update i v (entries ht ps)"
proof -
  obtain ht1 T1 t cells xs where gob: "ff_hash_table_get_or_create_bucket ht i True None =
        Inr (ht1, Some (t, last (hash_path (levels ht1) i)), None)"
      and op: "bucket_opened ht1 T1 H ps i t cells xs" and ent: "entries ht1 ps = entries ht ps"
      and lev: "bucket_levels ht1 = bucket_levels ht"
    using open_bucket [OF assms, of None i] by auto
  note op' = bucket_openedD [OF op]
  let ?q = "hash_path (levels ht1) i"
  have put: "ff_hash_table_put_item ht i v =
     res_bind (find_loop (next_addr ht1) ht1 i (H ?q) (H ?q)) (\<lambda>(node, last_node).
         if node \<noteq> 0 then update_node ht1 node (node_value_update (\<lambda>_. v))
         else
           let (new_node, ht) = alloc_node ht1 i v in
           res_bind
             (if last_node = 0 then write_cell ht t (last ?q) new_node
              else update_node ht last_node (next_node_update (\<lambda>_. new_node))) (\<lambda>ht.
           append_to_list ht new_node))"
    using gob op'(10) by (simp add: ff_hash_table_put_item_def)
  show ?thesis
  proof (cases "i \<in> node_id ht1 ` set ps")
    case True
    then obtain p where p: "p \<in> set ps" "node_id ht1 p = i" by auto
    then obtain us vs where uv: "xs = us @ p # vs" using op'(14) split_list [of p xs] by auto
    let ?ht = "ht1\<lparr>node_at := (node_at ht1)(p \<mapsto> (the (node_at ht1 p))\<lparr>node_value := v\<rparr>)\<rparr>"
    have "ff_hash_table_put_item ht i v = Inr ?ht"
      using put find_loop_present [OF op [unfolded uv] p(2)] update_node_ok [OF op'(3) p(1)]
        list_ok_node(2) [OF op'(3) p(1)] by simp
    moreover have "table_ok ?ht T1 H ps" using table_ok_node_value [OF op'(1) p(1)] .
    moreover have "entries ?ht ps = AList.update i v (entries ht ps)"
      using entries_node_value [OF op'(3) p(1)] p(2) ent by simp
    moreover have "bucket_levels ?ht = bucket_levels ht" using lev by simp
    ultimately show ?thesis by blast
  next
    case False
    have "last (H ?q # xs) = last (0 # xs)" using op'(11) by (cases xs) auto
    then have find: "find_loop (next_addr ht1) ht1 i (H ?q) (H ?q) = Inr (0, last (0 # xs))"
      using find_loop_absent [OF op False, of "H ?q"] by (simp only:)
    have no: "\<not> (0 :: addr) \<noteq> 0" by simp
    show ?thesis
      using put_new_entries [OF op False, of v]
      unfolding put find res_bind_simps prod.case if_not_P [OF no]
      unfolding lev ent by blast
  qed
qed

end
