(* ===== verification/Hash_Table_Remove.thy ===== *)
theory Hash_Table_Remove
  imports Hash_Table_Put
begin

text \<open>
  \<open>remove_item\<close> keeps the representation invariant, deletes the entry and frees the node and
  the bucket arrays that have become empty.
\<close>

section \<open>Clearing empty arrays\<close>

lemma cells_empty_eq:
  "bucket_at ht t = Some cells \<Longrightarrow> 0 < t \<Longrightarrow>
     cells_empty ht t idxs = Inr (\<forall>i \<in> set idxs. cells (of_nat i) = 0)"
  by (induction idxs) (auto simp: read_cell_def)

lemma all_cells: "(\<forall>i \<in> set [0..<256]. cells (of_nat i) = 0) \<longleftrightarrow> (\<forall>b :: byte. cells b = 0)"
proof (intro iffI allI)
  fix b :: byte
  assume all: "\<forall>i \<in> set [0..<256]. cells (of_nat i) = 0"
  have "unat b \<in> set [0..<256]" using unat_lt_8 [of b] by simp
  then have "cells (of_nat (unat b)) = 0" using all by blast
  then show "cells b = 0" by simp
qed simp

lemma buckets_ok_shrink:
  assumes ok: "buckets_ok ht T H" and p: "T (p @ [h]) = Some t" "T p = Some u"
    and c: "bucket_at ht t = Some cells" "\<forall>b. cells b = 0" and d: "bucket_at ht u = Some cells'"
  shows "buckets_ok (ht\<lparr>bucket_at := (bucket_at ht)(t := None, u \<mapsto> cells'(h := 0))\<rparr>) (T(p @ [h] := None)) H"
proof -
  let ?p = "p @ [h]" and ?T = "T(p @ [h] := None)"
  let ?ht = "ht\<lparr>bucket_at := (bucket_at ht)(t := None, u \<mapsto> cells'(h := 0))\<rparr>"
  have uniq: "T q = Some w \<Longrightarrow> T q' = Some w \<Longrightarrow> q = q'" for q q' w
    using ok unfolding buckets_ok_def inj_on_def by (metis domI)
  have len: "Suc (length p) < levels ht" using buckets_okD [OF ok p(1)] by auto
  have cells: "cells_ok (levels ht) T H ?p cells"
    using buckets_okD [OF ok p(1)] c(1) by (metis option.inject)
  have below: "T (?p @ [b]) = None" for b
  proof (cases "Suc (length ?p) = levels ht")
    case True
    then show ?thesis using buckets_okD [OF ok, of "?p @ [b]"] by (cases "T (?p @ [b])") auto
  next
    case False
    then have "ptr (T (?p @ [b])) = 0" using cells c(2) by (simp add: cells_ok_def)
    then show ?thesis using ptr_pos [OF ok] by blast
  qed
  have heads: "butlast q \<noteq> ?p" if "H q \<noteq> 0" for q
  proof
    assume q: "butlast q = ?p"
    have "length q = levels ht" using ok that by (simp add: buckets_ok_def)
    then have "Suc (length ?p) = levels ht" and "q = ?p @ [last q]"
      using q len by (metis length_append_singleton append_butlast_last_id less_nat_zero_code list.size(3))+
    then have "cells (last q) = H q" using cells by (simp add: cells_ok_def)
    then show False using c(2) that by simp
  qed
  have ut: "u \<noteq> t" using uniq [of ?p t p] p by auto
  have entry: "length q < levels ?ht \<and> 0 < w \<and> w < next_addr ?ht \<and>
      (\<exists>cells. bucket_at ?ht w = Some cells \<and> cells_ok (levels ?ht) ?T H q cells)"
    if q: "?T q = Some w" for q w
  proof -
    have q': "T q = Some w" "q \<noteq> ?p" using q by (auto split: if_splits)
    obtain cs where cs: "bucket_at ht w = Some cs" "cells_ok (levels ht) T H q cs" "0 < w"
        "w < next_addr ht" "length q < levels ht"
      by (rule buckets_okD [OF ok q'(1)])
    have wt: "w \<noteq> t" using uniq q' p(1) by blast
    show ?thesis
    proof (cases "w = u")
      case True
      then have "q = p" "cs = cells'" using uniq q'(1) p(2) cs(1) d by auto
      then have "cells_ok (levels ht) ?T H q (cells'(h := 0))"
        using cs(2) len by (auto simp: cells_ok_def)
      then show ?thesis using True cs by simp
    next
      case False
      then have "q \<noteq> p" using q'(1) p(2) by auto
      then have "cells_ok (levels ht) ?T H q cs"
        using cs(2) by (auto simp: cells_ok_def)
      then show ?thesis using False wt cs by simp
    qed
  qed
  have "inj_on ?T (dom ?T)"
    using uniq unfolding inj_on_def by (auto split: if_splits)
  moreover have "?T q \<noteq> None" if "?T (q @ [b]) \<noteq> None" for q b
    using that below not_None_prefix [OF ok, of q "[b]"] by (auto split: if_splits)
  moreover have "ran ?T = ran T - {t}"
  proof -
    have "w \<in> ran ?T \<longleftrightarrow> w \<in> ran T \<and> w \<noteq> t" for w
    proof
      assume "w \<in> ran ?T"
      then obtain a where "T a = Some w" "a \<noteq> ?p" by (auto simp: ran_def split: if_splits)
      then show "w \<in> ran T \<and> w \<noteq> t" using uniq [of a w ?p] p(1) by (auto simp: ran_def)
    next
      assume "w \<in> ran T \<and> w \<noteq> t"
      then obtain a where "T a = Some w" "w \<noteq> t" by (auto simp: ran_def)
      then have "?T a = Some w" using p(1) by auto
      then show "w \<in> ran ?T" by (rule ranI)
    qed
    then show ?thesis by blast
  qed
  then have "dom (bucket_at ?ht) = ran ?T"
    using ok p(2) ut unfolding buckets_ok_def by (auto simp: ran_def)
  moreover have "?T [] = Some (buckets ?ht)"
    using ok unfolding buckets_ok_def by simp
  moreover have "length q = levels ?ht \<and> ?T (butlast q) \<noteq> None" if "H q \<noteq> 0" for q
    using that ok heads [OF that] unfolding buckets_ok_def by simp
  ultimately show ?thesis
    using entry unfolding buckets_ok_def by blast
qed

lemma clear_buckets_ok:
  assumes "buckets_ok ht T H" and "levels ht \<le> 8" and "Suc level < levels ht" and "length bs = levels ht"
    and "\<forall>j\<le>level. T (hash_path (Suc j) i) = Some (bs ! j)"
  shows "\<exists>B T'. clear_buckets ht i bs level = Inr (ht\<lparr>bucket_at := B\<rparr>) \<and>
    buckets_ok (ht\<lparr>bucket_at := B\<rparr>) T' H"
  using assms
proof (induction level arbitrary: ht T)
  case 0
  let ?p = "hash_path 1 i" and ?h = "ucast i :: byte"
  have p: "hash_path 1 i = [] @ [?h]" by (simp add: hash_path_def)
  have t: "T ([] @ [?h]) = Some (bs ! 0)" "T [] = Some (buckets ht)"
    using 0 p by (auto simp: buckets_ok_def)
  obtain cells where c: "bucket_at ht (bs ! 0) = Some cells" "0 < bs ! 0"
    by (rule buckets_okD [OF 0(1) t(1)])
  obtain cells' where d: "bucket_at ht (buckets ht) = Some cells'" "0 < buckets ht"
    by (rule buckets_okD [OF 0(1) t(2)])
  have ne: "bs ! 0 \<noteq> buckets ht"
    using t 0(1) unfolding buckets_ok_def inj_on_def by (metis domI self_append_conv2 not_Cons_self2)
  have at: "list_at bs 0 = Inr (bs ! 0)" using 0 by (simp add: list_at_def)
  show ?case
  proof (cases "\<forall>b. cells b = 0")
    case True
    have "clear_buckets ht i bs 0 = Inr (ht\<lparr>bucket_at := (bucket_at ht)(bs ! 0 := None, buckets ht \<mapsto> cells'(?h := 0))\<rparr>)"
      using True c d ne at hash_for_level [of 0 i]
      by (simp add: clear_buckets.simps cells_empty_eq all_cells free_bucket_def write_cell_def del: set_upt)
    then show ?thesis
      using buckets_ok_shrink [OF 0(1) t c(1) True d(1)] by blast
  next
    case False
    then have "clear_buckets ht i bs 0 = Inr (ht\<lparr>bucket_at := bucket_at ht\<rparr>)"
      using c at hash_for_level [of 0 i] by (simp add: clear_buckets.simps cells_empty_eq all_cells del: set_upt)
    then show ?thesis
      using 0(1) by (metis ff_hash_table.surjective ff_hash_table.update_convs(8))
  qed
next
  case (Suc level)
  let ?p = "hash_path (Suc level) i" and ?h = "ucast (drop_bit (8 * Suc level) i) :: byte"
  have t: "T (?p @ [?h]) = Some (bs ! Suc level)" "T ?p = Some (bs ! level)"
    using Suc.prems(5) [rule_format, of "Suc level"] Suc.prems(5) [rule_format, of level]
    by (simp_all add: hash_path_Suc)
  obtain cells where c: "bucket_at ht (bs ! Suc level) = Some cells" "0 < bs ! Suc level"
    by (rule buckets_okD [OF Suc.prems(1) t(1)])
  obtain cells' where d: "bucket_at ht (bs ! level) = Some cells'" "0 < bs ! level"
    by (rule buckets_okD [OF Suc.prems(1) t(2)])
  have ne: "bs ! Suc level \<noteq> bs ! level"
    using t Suc.prems(1) unfolding buckets_ok_def inj_on_def by (metis domI not_Cons_self2 append_self_conv)
  have at: "list_at bs (Suc level) = Inr (bs ! Suc level)" "list_at bs level = Inr (bs ! level)"
    using Suc.prems by (simp_all add: list_at_def)
  have hash: "FF_HASH_GET_FOR_LEVEL i (int (Suc level)) = Inr ?h"
    using Suc.prems by (intro hash_for_level) simp
  show ?case
  proof (cases "\<forall>b. cells b = 0")
    case True
    let ?ht = "ht\<lparr>bucket_at := (bucket_at ht)(bs ! Suc level := None, bs ! level \<mapsto> cells'(?h := 0))\<rparr>"
    have step: "clear_buckets ht i bs (Suc level) = clear_buckets ?ht i bs level"
      using True c d ne at hash
      by (subst clear_buckets.simps) (simp add: cells_empty_eq all_cells free_bucket_def write_cell_def del: set_upt of_nat_Suc)
    have "hash_path (Suc j) i \<noteq> ?p @ [?h]" if "j \<le> level" for j
      using that by (metis Suc_n_not_le_n hash_path_Suc length_hash_path nat.inject)
    then have keep: "\<forall>j\<le>level. (T(?p @ [?h] := None)) (hash_path (Suc j) i) = Some (bs ! j)"
      using Suc.prems(5) by (metis fun_upd_other le_SucI)
    have "\<exists>B T'. clear_buckets ?ht i bs level = Inr (?ht\<lparr>bucket_at := B\<rparr>) \<and> buckets_ok (?ht\<lparr>bucket_at := B\<rparr>) T' H"
      by (rule Suc.IH [OF buckets_ok_shrink [OF Suc.prems(1) t c(1) True d(1)] _ _ _ keep])
        (use Suc.prems in simp_all)
    then show ?thesis using step by simp
  next
    case False
    then have "clear_buckets ht i bs (Suc level) = Inr (ht\<lparr>bucket_at := bucket_at ht\<rparr>)"
      using c at hash by (subst clear_buckets.simps) (simp add: cells_empty_eq all_cells del: set_upt of_nat_Suc)
    then show ?thesis
      using Suc.prems(1) by (metis ff_hash_table.surjective ff_hash_table.update_convs(8))
  qed
qed

section \<open>Removing a node\<close>

text \<open>\<open>ht'\<close> has lost the node \<open>a\<close>, which stood between \<open>ls\<close> and \<open>rs\<close> in the list and after
  \<open>us\<close> in its chain.\<close>

definition node_removed :: "ff_hash_table \<Rightarrow> ff_hash_table \<Rightarrow> addr \<Rightarrow> addr list \<Rightarrow> addr list \<Rightarrow> addr list \<Rightarrow> bool" where
  "node_removed ht ht' a us ls rs \<longleftrightarrow>
     bucket_levels ht' = bucket_levels ht \<and> next_addr ht' = next_addr ht \<and> buckets ht' = buckets ht \<and>
     dom (node_at ht') = set (ls @ rs) \<and>
     (\<forall>c \<in> set (ls @ rs).
        node_id ht' c = node_id ht c \<and> node_value (the (node_at ht' c)) = node_value (the (node_at ht c)) \<and>
        next_node (the (node_at ht' c)) =
          (if us \<noteq> [] \<and> c = last us then next_node (the (node_at ht a)) else next_node (the (node_at ht c))) \<and>
        next_in_list (the (node_at ht' c)) =
          (if ls \<noteq> [] \<and> c = last ls then next_in_list (the (node_at ht a)) else next_in_list (the (node_at ht c))) \<and>
        prev_in_list (the (node_at ht' c)) =
          (if rs \<noteq> [] \<and> c = hd rs then prev_in_list (the (node_at ht a)) else prev_in_list (the (node_at ht c)))) \<and>
     linked_list ht' = (if ls = [] then next_in_list (the (node_at ht a)) else linked_list ht) \<and>
     linked_list_last ht' = (if rs = [] then prev_in_list (the (node_at ht a)) else linked_list_last ht) \<and>
     ht_length ht' = ht_length ht - 1"

lemma node_removed_old:
  assumes "node_removed ht ht' a us ls rs" and "c \<in> set (ls @ rs)"
  shows "node_id ht' c = node_id ht c"
    and "next_node (the (node_at ht' c)) =
      (if us \<noteq> [] \<and> c = last us then next_node (the (node_at ht a)) else next_node (the (node_at ht c)))"
    and "next_in_list (the (node_at ht' c)) =
      (if ls \<noteq> [] \<and> c = last ls then next_in_list (the (node_at ht a)) else next_in_list (the (node_at ht c)))"
    and "prev_in_list (the (node_at ht' c)) =
      (if rs \<noteq> [] \<and> c = hd rs then prev_in_list (the (node_at ht a)) else prev_in_list (the (node_at ht c)))"
  using assms by (simp_all add: node_removed_def)

lemma list_ok_removed:
  assumes ok: "list_ok ht (ls @ a # rs)" and rem: "node_removed ht ht' a us ls rs"
  shows "list_ok ht' (ls @ rs)"
proof -
  have fwd: "links_by next_in_list ht (linked_list ht) (ls @ a # rs)"
    and bwd: "links_by prev_in_list ht (linked_list_last ht) (rev rs @ a # rev ls)"
    and dist: "distinct (ls @ a # rs)" and inj: "inj_on (node_id ht) (set (ls @ a # rs))"
    and bound: "\<forall>c \<in> set (ls @ a # rs). 0 < c \<and> c < next_addr ht"
    and len: "ht_length ht = of_nat (length (ls @ a # rs))"
    using ok unfolding list_ok_def rev_append rev.simps append_assoc append_Cons append_Nil by blast+
  have ends: "linked_list ht' = (if ls = [] then next_in_list (the (node_at ht a)) else linked_list ht)"
      "linked_list_last ht' = (if rs = [] then prev_in_list (the (node_at ht a)) else linked_list_last ht)"
      "dom (node_at ht') = set (ls @ rs)" "ht_length ht' = ht_length ht - 1" "next_addr ht' = next_addr ht"
    using rem by (simp_all only: node_removed_def simp_thms)
  have "links_by next_in_list ht' (if ls = [] then next_in_list (the (node_at ht a)) else linked_list ht) (ls @ rs)"
  proof (rule links_remove [OF fwd dist])
    show "ls \<noteq> [] \<longrightarrow> next_in_list (the (node_at ht' (last ls))) = next_in_list (the (node_at ht a))"
      using node_removed_old(3) [OF rem, of "last ls"] by simp
    show "\<forall>c \<in> set (butlast ls) \<union> set rs. next_in_list (the (node_at ht' c)) = next_in_list (the (node_at ht c))"
    proof
      fix c assume c: "c \<in> set (butlast ls) \<union> set rs"
      then have "c \<in> set (ls @ rs)" "ls \<noteq> [] \<longrightarrow> c \<noteq> last ls"
        using dist last_not_in_butlast [of ls c] last_in_set [of ls] in_set_butlastD [of c ls] by (auto simp: disjoint_iff)
      then show "next_in_list (the (node_at ht' c)) = next_in_list (the (node_at ht c))"
        using node_removed_old(3) [OF rem] by auto
    qed
  qed
  moreover have "links_by prev_in_list ht' (if rev rs = [] then prev_in_list (the (node_at ht a)) else linked_list_last ht) (rev rs @ rev ls)"
  proof (rule links_remove [OF bwd])
    show "distinct (rev rs @ a # rev ls)" using dist by auto
    show "rev rs \<noteq> [] \<longrightarrow> prev_in_list (the (node_at ht' (last (rev rs)))) = prev_in_list (the (node_at ht a))"
      using node_removed_old(4) [OF rem, of "hd rs"] by (simp add: last_rev)
    show "\<forall>c \<in> set (butlast (rev rs)) \<union> set (rev ls). prev_in_list (the (node_at ht' c)) = prev_in_list (the (node_at ht c))"
    proof
      fix c assume c: "c \<in> set (butlast (rev rs)) \<union> set (rev ls)"
      then have "c \<in> set (ls @ rs)" "rs \<noteq> [] \<longrightarrow> c \<noteq> hd rs"
        using dist last_not_in_butlast [of "rev rs" c] hd_in_set [of rs] in_set_butlastD [of c "rev rs"]
        by (auto simp: last_rev disjoint_iff)
      then show "prev_in_list (the (node_at ht' c)) = prev_in_list (the (node_at ht c))"
        using node_removed_old(4) [OF rem] by auto
    qed
  qed
  moreover have "inj_on (node_id ht') (set (ls @ rs))"
  proof -
    have "inj_on (node_id ht) (set (ls @ rs))" using inj by (rule inj_on_subset) auto
    then show ?thesis using node_removed_old(1) [OF rem] by (simp add: inj_on_def)
  qed
  moreover have "\<forall>c \<in> set (ls @ rs). 0 < c \<and> c < next_addr ht" using bound by simp
  ultimately show ?thesis
    using dist len unfolding list_ok_def ends by simp
qed

lemma chain_ok_removed:
  assumes ok: "chain_ok ht (ls @ a # rs) q p" and rem: "node_removed ht ht' a us ls rs"
    and dist: "distinct (ls @ a # rs)"
    and xs: "links_by next_node ht r (us @ a # vs)" "distinct (us @ a # vs)"
      "set (us @ a # vs) = {c \<in> set (ls @ a # rs). hash_path (levels ht) (node_id ht c) = hash_path (levels ht) (node_id ht a)}"
  shows "chain_ok ht' (ls @ rs) q
    (if q = hash_path (levels ht) (node_id ht a) then (if us = [] then next_node (the (node_at ht a)) else r) else p)"
proof -
  let ?q = "hash_path (levels ht) (node_id ht a)"
  have lev: "levels ht' = levels ht" using rem by (simp add: node_removed_def)
  have nota: "a \<notin> set (ls @ rs)" using dist by auto
  have path: "hash_path (levels ht') (node_id ht' c) = hash_path (levels ht) (node_id ht c)" if "c \<in> set (ls @ rs)" for c
    using node_removed_old(1) [OF rem that] lev by simp
  show ?thesis
  proof (cases "q = ?q")
    case True
    have sub: "set (us @ vs) \<subseteq> set (ls @ rs)" using xs(2,3) by auto
    have "links_by next_node ht' (if us = [] then next_node (the (node_at ht a)) else r) (us @ vs)"
    proof (rule links_remove [OF xs(1,2)])
      show "us \<noteq> [] \<longrightarrow> next_node (the (node_at ht' (last us))) = next_node (the (node_at ht a))"
        using node_removed_old(2) [OF rem, of "last us"] subsetD [OF sub, of "last us"] by simp
      show "\<forall>c \<in> set (butlast us) \<union> set vs. next_node (the (node_at ht' c)) = next_node (the (node_at ht c))"
      proof
        fix c assume c: "c \<in> set (butlast us) \<union> set vs"
        then have "c \<in> set (us @ vs)" "us \<noteq> [] \<longrightarrow> c \<noteq> last us"
          using xs(2) last_not_in_butlast [of us c] last_in_set [of us] in_set_butlastD [of c us] by (auto simp: disjoint_iff)
        then show "next_node (the (node_at ht' c)) = next_node (the (node_at ht c))"
          using node_removed_old(2) [OF rem subsetD [OF sub]] by auto
      qed
    qed
    moreover have "set (us @ vs) = {c \<in> set (ls @ rs). hash_path (levels ht') (node_id ht' c) = q}"
    proof -
      have "{c \<in> set (ls @ rs). hash_path (levels ht') (node_id ht' c) = q}
          = {c \<in> set (ls @ a # rs). hash_path (levels ht) (node_id ht c) = ?q} - {a}"
        using path True nota by auto
      also have "\<dots> = set (us @ vs)" using xs(2) unfolding xs(3) [symmetric] by auto
      finally show ?thesis ..
    qed
    ultimately have "chain_ok ht' (ls @ rs) q (if us = [] then next_node (the (node_at ht a)) else r)"
      using xs(2) unfolding chain_ok_def by (intro exI [of _ "us @ vs"]) simp
    then show ?thesis using True by simp
  next
    case False
    obtain ys where ys: "links_by next_node ht p ys" "distinct ys"
        "set ys = {c \<in> set (ls @ a # rs). hash_path (levels ht) (node_id ht c) = q}"
      using ok by (auto simp: chain_ok_def)
    have sub: "set ys \<subseteq> set (ls @ rs)" using ys(3) False by auto
    have "last us \<notin> set ys" if "us \<noteq> []"
      using xs(3) ys(3) False last_in_set [OF that] by auto
    then have "next_node (the (node_at ht' c)) = next_node (the (node_at ht c))" if "c \<in> set ys" for c
      using node_removed_old(2) [OF rem subsetD [OF sub that]] that by auto
    then have "links_by next_node ht' p ys"
      using ys(1) by (subst links_cong) auto
    moreover have "set ys = {c \<in> set (ls @ rs). hash_path (levels ht') (node_id ht' c) = q}"
      using ys(3) False path by auto
    ultimately show ?thesis
      using False ys(2) unfolding chain_ok_def by auto
  qed
qed

lemma entries_removed:
  assumes ok: "list_ok ht (ls @ a # rs)" and rem: "node_removed ht ht' a us ls rs"
  shows "entries ht' (ls @ rs) = AList.delete (node_id ht a) (entries ht (ls @ a # rs))"
proof -
  have inj: "inj_on (node_id ht) (set (ls @ a # rs))" "distinct (ls @ a # rs)"
    using ok unfolding list_ok_def rev_append rev.simps append_assoc append_Cons append_Nil by blast+
  have other: "node_id ht c \<noteq> node_id ht a" if "c \<in> set (ls @ rs)" for c
    using inj that unfolding inj_on_def by auto
  have "AList.delete (node_id ht a) (entries ht cs) = entries ht cs" if "set cs \<subseteq> set (ls @ rs)" for cs
    using that other by (intro delete_id) (force simp: entries_def)
  from this [of ls] this [of rs] have "AList.delete (node_id ht a) (entries ht (ls @ a # rs)) = entries ht (ls @ rs)"
    by (simp add: entries_def AList.delete_eq)
  moreover have "entries ht' (ls @ rs) = entries ht (ls @ rs)"
    using rem unfolding entries_def node_removed_def by simp
  ultimately show ?thesis by simp
qed

text \<open>The writes of \<open>remove_item\<close> for an id that is present.\<close>

lemma list_ok_ends:
  assumes "list_ok ht (ls @ a # rs)"
  shows "prev_in_list (the (node_at ht a)) = (if ls = [] then 0 else last ls)"
    and "next_in_list (the (node_at ht a)) = (if rs = [] then 0 else hd rs)"
    and "linked_list ht = (if ls = [] then a else hd ls)"
    and "linked_list_last ht = (if rs = [] then a else last rs)"
proof -
  have fwd: "links_by next_in_list ht (linked_list ht) (ls @ a # rs)"
    and bwd: "links_by prev_in_list ht (linked_list_last ht) (rev (ls @ a # rs))"
    using assms unfolding list_ok_def by blast+
  show "prev_in_list (the (node_at ht a)) = (if ls = [] then 0 else last ls)"
    using links_rev_pred [OF bwd] .
  show "next_in_list (the (node_at ht a)) = (if rs = [] then 0 else hd rs)"
    using links_succ(1) [OF fwd] .
  show "linked_list ht = (if ls = [] then a else hd ls)"
    using links_hd [OF fwd] by simp
  show "linked_list_last ht = (if rs = [] then a else last rs)"
    using links_hd [OF bwd] by (simp add: hd_append hd_rev)
qed

lemma remove_from_list_removed:
  assumes l: "list_ok ht (ls @ a # rs)"
  shows "\<exists>ht'. remove_from_list ht a = Inr ht' \<and> node_removed ht ht' a [] ls rs \<and> bucket_at ht' = bucket_at ht"
proof -
  have dist: "distinct (ls @ a # rs)" and dom: "dom (node_at ht) = insert a (set ls \<union> set rs)"
    and nz: "0 \<notin> set (ls @ a # rs)"
    using l unfolding list_ok_def by auto
  have node: "\<exists>n. node_at ht d = Some n" if "d \<in> set (ls @ a # rs)" for d
    using dom that by auto
  obtain n where n: "node_at ht a = Some n" "a \<noteq> 0" using node nz by auto
  have doms: "dom ((node_at ht)(a := None)) = set ls \<union> set rs" using dom dist by auto
  have left: "\<exists>m. node_at ht (last ls) = Some m \<and> last ls \<noteq> 0 \<and> last ls \<noteq> a \<and> hd ls \<noteq> a \<and> last ls \<in> set ls"
    if "ls \<noteq> []"
  proof -
    have "last ls \<in> set ls" "hd ls \<in> set ls" using that by simp_all
    then show ?thesis using node [of "last ls"] nz dist by fastforce
  qed
  have right: "\<exists>m. node_at ht (hd rs) = Some m \<and> hd rs \<noteq> 0 \<and> hd rs \<noteq> a \<and> last rs \<noteq> a \<and> hd rs \<in> set rs"
    if "rs \<noteq> []"
  proof -
    have "last rs \<in> set rs" "hd rs \<in> set rs" using that by simp_all
    then show ?thesis using node [of "hd rs"] nz dist by fastforce
  qed
  note ends = list_ok_ends [OF l]
  note ops = node_removed_def update_node_def read_node_def remove_from_list_def free_node_def
  show ?thesis
  proof (cases "ls = []")
    case ls: True
    show ?thesis
    proof (cases "rs = []")
      case True
      then have "(node_at ht)(a := None) = Map.empty" using ls doms by (metis Un_empty dom_eq_empty_conv set_empty)
      then show ?thesis using True ls n ends by (simp add: ops)
    next
      case False
      then obtain r where r: "node_at ht (hd rs) = Some r" "hd rs \<noteq> 0" "hd rs \<noteq> a" "last rs \<noteq> a" "hd rs \<in> set rs"
        using right by blast
      then show ?thesis using ls False n doms ends dist by (auto simp: ops)
    qed
  next
    case ls: False
    then obtain m where m: "node_at ht (last ls) = Some m" "last ls \<noteq> 0" "last ls \<noteq> a" "hd ls \<noteq> a" "last ls \<in> set ls"
      using left by blast
    show ?thesis
    proof (cases "rs = []")
      case True
      then show ?thesis using ls m n doms ends dist by (auto simp: ops)
    next
      case False
      then obtain r where r: "node_at ht (hd rs) = Some r" "hd rs \<noteq> 0" "hd rs \<noteq> a" "last rs \<noteq> a" "hd rs \<in> set rs"
        using right by blast
      moreover have "last ls \<noteq> hd rs" using m(5) r(5) dist by (auto simp: disjoint_iff)
      ultimately show ?thesis using ls False m n doms ends dist by (auto simp: ops)
    qed
  qed
qed

lemma list_ok_cong:
  assumes "node_at ht' = node_at ht" "linked_list ht' = linked_list ht" "linked_list_last ht' = linked_list_last ht"
    "next_addr ht' = next_addr ht" "ht_length ht' = ht_length ht"
  shows "list_ok ht' ps = list_ok ht ps"
  unfolding list_ok_def assms ..

text \<open>The chain is unlinked first; the list of all nodes does not notice.\<close>

lemma list_ok_next_node:
  assumes "list_ok ht ps" and "p \<in> set ps"
  shows "list_ok (ht\<lparr>node_at := (node_at ht)(p \<mapsto> (the (node_at ht p))\<lparr>next_node := v\<rparr>)\<rparr>) ps"
proof -
  let ?ht = "ht\<lparr>node_at := (node_at ht)(p \<mapsto> (the (node_at ht p))\<lparr>next_node := v\<rparr>)\<rparr>"
  have same: "node_id ?ht c = node_id ht c" "prev_in_list (the (node_at ?ht c)) = prev_in_list (the (node_at ht c))"
    "next_in_list (the (node_at ?ht c)) = next_in_list (the (node_at ht c))" for c
    by simp_all
  have dom: "dom (node_at ?ht) = dom (node_at ht)" using assms by (auto simp: list_ok_def)
  show ?thesis
    using assms(1) unfolding list_ok_def same dom by simp
qed

lemma remove_found_removed:
  assumes l: "list_ok ht (ls @ a # rs)" and us: "set us \<subseteq> set (ls @ rs)"
    and c: "bucket_at ht t = Some cells" "0 < t"
  shows "\<exists>ht'. res_bind
        (if last (0 # us) \<noteq> 0
         then update_node ht (last (0 # us)) (next_node_update (\<lambda>_. next_node (the (node_at ht a))))
         else write_cell ht t h (next_node (the (node_at ht a)))) (\<lambda>ht. remove_from_list ht a) = Inr ht' \<and>
    node_removed ht ht' a us ls rs \<and>
    bucket_at ht' = (if us = [] then (bucket_at ht)(t \<mapsto> cells(h := next_node (the (node_at ht a)))) else bucket_at ht)"
proof (cases "us = []")
  case True
  let ?ht = "ht\<lparr>bucket_at := (bucket_at ht)(t \<mapsto> cells(h := next_node (the (node_at ht a))))\<rparr>"
  have "list_ok ?ht (ls @ a # rs)"
    using l list_ok_cong [of ?ht ht "ls @ a # rs"] by simp
  then obtain ht' where "remove_from_list ?ht a = Inr ht'" "node_removed ?ht ht' a [] ls rs" "bucket_at ht' = bucket_at ?ht"
    using remove_from_list_removed by blast
  moreover from this(2) have "node_removed ht ht' a [] ls rs"
    by (simp add: node_removed_def)
  ultimately show ?thesis
    using True c by (auto simp: write_cell_def)
next
  case False
  let ?v = "next_node (the (node_at ht a))" and ?p = "last us"
  let ?ht = "ht\<lparr>node_at := (node_at ht)(?p \<mapsto> (the (node_at ht ?p))\<lparr>next_node := ?v\<rparr>)\<rparr>"
  have p: "?p \<in> set (ls @ rs)" using False us last_in_set by blast
  then have p': "?p \<in> set (ls @ a # rs)" by auto
  have pa: "?p \<noteq> a" using p l unfolding list_ok_def by auto
  have p0: "?p \<noteq> 0" using list_ok_node(2) [OF l p'] .
  obtain ht' where ht': "remove_from_list ?ht a = Inr ht'" "node_removed ?ht ht' a [] ls rs" "bucket_at ht' = bucket_at ?ht"
    using remove_from_list_removed [OF list_ok_next_node [OF l p']] by blast
  have same: "node_id ?ht c = node_id ht c" "node_value (the (node_at ?ht c)) = node_value (the (node_at ht c))"
    "prev_in_list (the (node_at ?ht c)) = prev_in_list (the (node_at ht c))"
    "next_in_list (the (node_at ?ht c)) = next_in_list (the (node_at ht c))"
    "next_node (the (node_at ?ht c)) = (if c = ?p then ?v else next_node (the (node_at ht c)))" for c
    by simp_all
  have "node_removed ht ht' a us ls rs"
    using ht'(2) False unfolding node_removed_def same by simp
  then show ?thesis
    using False ht' p0 update_node_ok [OF l p'] by auto
qed

lemma table_ok_removed:
  assumes ok: "table_ok ht T H (ls @ a # rs)" and rem: "node_removed ht ht' a us ls rs"
    and xs: "links_by next_node ht (H (hash_path (levels ht) (node_id ht a))) (us @ a # vs)" "distinct (us @ a # vs)"
      "set (us @ a # vs) = {c \<in> set (ls @ a # rs). hash_path (levels ht) (node_id ht c) = hash_path (levels ht) (node_id ht a)}"
    and H': "H' = (if us = [] then H(hash_path (levels ht) (node_id ht a) := next_node (the (node_at ht a))) else H)"
    and bk: "buckets_ok ht' T H'"
  shows "table_ok ht' T H' (ls @ rs)"
proof -
  have l: "list_ok ht (ls @ a # rs)" and dist: "distinct (ls @ a # rs)"
    using ok unfolding table_ok_def list_ok_def by blast+
  have lev: "levels ht' = levels ht" using rem by (simp add: node_removed_def)
  have "chain_ok ht' (ls @ rs) q (H' q)" for q
  proof -
    let ?q = "hash_path (levels ht) (node_id ht a)"
    have "chain_ok ht (ls @ a # rs) q (H q)" using ok by (simp add: table_ok_def)
    note chain_ok_removed [OF this rem dist xs]
    moreover have "H' q = (if q = ?q then (if us = [] then next_node (the (node_at ht a)) else H ?q) else H q)"
      by (simp add: H')
    ultimately show ?thesis by (simp only:)
  qed
  then show ?thesis
    using ok bk list_ok_removed [OF l rem] lev by (simp add: table_ok_def)
qed

text \<open>Clearing buckets does not touch nodes.\<close>

lemma table_ok_buckets:
  assumes "table_ok ht T H ps" and "buckets_ok (ht\<lparr>bucket_at := B\<rparr>) T' H"
  shows "table_ok (ht\<lparr>bucket_at := B\<rparr>) T' H ps" and "entries (ht\<lparr>bucket_at := B\<rparr>) ps = entries ht ps"
  using assms by (simp_all add: table_ok_def chain_ok_def list_ok_def entries_def)

lemma remove_found_entries:
  assumes op: "bucket_opened ht T H ps i t cells (us @ p # vs)" and p: "p \<in> set ps" "node_id ht p = i"
  shows "\<exists>ht' H' ps'. res_bind
        (if last (0 # us) \<noteq> 0
         then update_node ht (last (0 # us)) (next_node_update (\<lambda>_. next_node (the (node_at ht p))))
         else write_cell ht t (last (hash_path (levels ht) i)) (next_node (the (node_at ht p))))
        (\<lambda>ht. remove_from_list ht p) = Inr ht' \<and>
    table_ok ht' T H' ps' \<and> bucket_levels ht' = bucket_levels ht \<and>
    read_cell ht' t (last (hash_path (levels ht) i)) = Inr (H' (hash_path (levels ht) i)) \<and>
    entries ht' ps' = AList.delete i (entries ht ps)"
proof -
  let ?q = "hash_path (levels ht) i" and ?v = "next_node (the (node_at ht p))"
  note op' = bucket_openedD [OF op]
  obtain ls rs where lr: "ps = ls @ p # rs" using p(1) by (meson split_list)
  have "set us \<subseteq> set (ls @ rs)" using op'(12,13) lr by auto
  then obtain ht' where ht': "res_bind
        (if last (0 # us) \<noteq> 0 then update_node ht (last (0 # us)) (next_node_update (\<lambda>_. ?v))
         else write_cell ht t (last ?q) ?v) (\<lambda>ht. remove_from_list ht p) = Inr ht'"
      "node_removed ht ht' p us ls rs"
      "bucket_at ht' = (if us = [] then (bucket_at ht)(t \<mapsto> cells(last ?q := ?v)) else bucket_at ht)"
    using remove_found_removed [OF op'(3) [unfolded lr] _ op'(7,8)] by blast
  let ?H = "if us = [] then H(?q := ?v) else H"
  have lev: "bucket_levels ht' = bucket_levels ht" "next_addr ht \<le> next_addr ht'" "buckets ht' = buckets ht"
    using ht'(2) by (simp_all add: node_removed_def)
  have b: "buckets_ok ht' T ?H"
    by (rule buckets_ok_relinked [OF op lev(1,3,2) ht'(3)])
  have "table_ok ht' T ?H (ls @ rs)"
    by (rule table_ok_removed [OF op'(1) [unfolded lr] ht'(2) _ _ _ _ b, of vs])
      (use op'(11,12,14) p(2) lr in simp_all)
  moreover have "entries ht' (ls @ rs) = AList.delete i (entries ht ps)"
    using entries_removed [OF op'(3) [unfolded lr] ht'(2)] p(2) lr by simp
  moreover have "read_cell ht' t (last ?q) = Inr (?H ?q)"
  proof -
    have "?q \<noteq> []" using op'(4) by (intro hash_path_not_Nil) simp
    then show ?thesis
      using read_cell_ok [OF b op'(6), of "last ?q"] lev(1) op'(4) by simp
  qed
  ultimately show ?thesis
    using ht'(1) lev(1) by blast
qed

text \<open>The end of \<open>remove_item\<close>, from line 225.\<close>

lemma remove_tail_entries:
  assumes ok: "table_ok ht T H ps" and two: "2 \<le> levels ht"
    and bs: "length bs = levels ht" "\<forall>j<levels ht - 1. T (hash_path (Suc j) i) = Some (bs ! j)"
  shows "\<exists>ht' T'. (if nodes = 0 then clear_buckets ht i bs (unat (bucket_levels ht - 2)) else Inr ht) = Inr ht' \<and>
    table_ok ht' T' H ps \<and> bucket_levels ht' = bucket_levels ht \<and> entries ht' ps = entries ht ps"
proof (cases "nodes = 0")
  case True
  have b: "buckets_ok ht T H" "levels ht \<le> 8" using ok by (simp_all add: table_ok_def)
  have "unat (bucket_levels ht - 2) = levels ht - 2"
    using two by (simp add: unat_sub word_le_nat_alt)
  moreover have "\<exists>B T'. clear_buckets ht i bs (levels ht - 2) = Inr (ht\<lparr>bucket_at := B\<rparr>) \<and>
      buckets_ok (ht\<lparr>bucket_at := B\<rparr>) T' H"
    by (rule clear_buckets_ok [OF b]) (use two bs in simp_all)
  ultimately obtain B T' where "clear_buckets ht i bs (unat (bucket_levels ht - 2)) = Inr (ht\<lparr>bucket_at := B\<rparr>)"
      "buckets_ok (ht\<lparr>bucket_at := B\<rparr>) T' H" by auto
  then show ?thesis
    using table_ok_buckets [OF ok] True by fastforce
next
  case False
  then show ?thesis using ok by auto
qed

lemma remove_item_entries:
  assumes ok: "table_ok ht T H ps" and two: "2 \<le> levels ht"
  shows "\<exists>ht' T' H' ps'. ff_hash_table_remove_item ht i = Inr ht' \<and> table_ok ht' T' H' ps' \<and>
    bucket_levels ht' = bucket_levels ht \<and> entries ht' ps' = AList.delete i (entries ht ps)"
proof -
  let ?bl = "Some (replicate (levels ht) 0)"
  obtain ht1 T1 t cells xs bs where gob: "ff_hash_table_get_or_create_bucket ht i True ?bl =
        Inr (ht1, Some (t, last (hash_path (levels ht1) i)), Some bs)"
      and op: "bucket_opened ht1 T1 H ps i t cells xs" and ent: "entries ht1 ps = entries ht ps"
      and lev: "bucket_levels ht1 = bucket_levels ht"
      and bs: "length bs = levels ht" "\<forall>j<levels ht - 1. T1 (hash_path (Suc j) i) = Some (bs ! j)"
    using open_bucket [OF ok, of ?bl i] by auto
  note op' = bucket_openedD [OF op]
  let ?q = "hash_path (levels ht1) i"
  have rem: "ff_hash_table_remove_item ht i =
     (if H ?q = 0 then Inr ht1
      else res_bind (find_loop (next_addr ht1) ht1 i (H ?q) 0) (\<lambda>(p, prev_node).
           res_bind
             (if p = 0 then Inr ht1
              else
                res_bind (read_node ht1 p) (\<lambda>node.
                res_bind
                  (if prev_node \<noteq> 0 then update_node ht1 prev_node (next_node_update (\<lambda>_. next_node node))
                   else write_cell ht1 t (last ?q) (next_node node)) (\<lambda>ht.
                remove_from_list ht p))) (\<lambda>ht.
           res_bind (read_cell ht t (last ?q)) (\<lambda>nodes.
           if nodes = 0 then clear_buckets ht i bs (unat (bucket_levels ht - 2)) else Inr ht))))"
    using gob op'(10) by (simp add: ff_hash_table_remove_item_def cong del: if_weak_cong)
  show ?thesis
  proof (cases "i \<in> node_id ht1 ` set ps")
    case False
    have "ff_hash_table_remove_item ht i = Inr ht1"
      using rem find_loop_absent [OF op False] op'(10) by simp
    moreover have "AList.delete i (entries ht ps) = entries ht1 ps"
      using False ent by (intro trans [OF delete_id]) (force simp: entries_def)+
    ultimately show ?thesis using op'(1) lev by metis
  next
    case True
    then obtain p where p: "p \<in> set ps" "node_id ht1 p = i" by auto
    then obtain us vs where uv: "xs = us @ p # vs" using op'(14) split_list [of p xs] by auto
    have Hq: "H ?q \<noteq> 0" using op'(11) uv by (cases us) auto
    note node = list_ok_node [OF op'(3) p(1)]
    obtain ht2 H2 ps2 where ht2: "res_bind
          (if last (0 # us) \<noteq> 0
           then update_node ht1 (last (0 # us)) (next_node_update (\<lambda>_. next_node (the (node_at ht1 p))))
           else write_cell ht1 t (last ?q) (next_node (the (node_at ht1 p)))) (\<lambda>ht. remove_from_list ht p) = Inr ht2"
        "table_ok ht2 T1 H2 ps2" "bucket_levels ht2 = bucket_levels ht1"
        "read_cell ht2 t (last ?q) = Inr (H2 ?q)" "entries ht2 ps2 = AList.delete i (entries ht1 ps)"
      using remove_found_entries [OF op [unfolded uv] p] by blast
    have "ff_hash_table_remove_item ht i =
        (if H2 ?q = 0 then clear_buckets ht2 i bs (unat (bucket_levels ht2 - 2)) else Inr ht2)"
      unfolding rem find_loop_present [OF op [unfolded uv] p(2)] if_not_P [OF Hq] res_bind_simps prod.case
        if_not_P [OF node(2)] node(1) ht2(1,4) ..
    then show ?thesis
      using remove_tail_entries [OF ht2(2), of bs i "H2 ?q"] ht2(3,5) two bs lev ent by fastforce
  qed
qed

end
