(* ===== verification/Hash_Table_Free.thy ===== *)
theory Hash_Table_Free
  imports Hash_Table_Remove
begin

text \<open>
  \<open>ff_hash_table_free\<close> visits every node and every bucket array exactly once: it never touches
  freed memory and leaves nothing behind.
\<close>

text \<open>The table after the nodes \<open>X\<close> and the arrays \<open>Y\<close> have been freed.\<close>

definition ht_minus :: "ff_hash_table \<Rightarrow> addr set \<Rightarrow> addr set \<Rightarrow> ff_hash_table" where
  "ht_minus ht X Y = ht\<lparr>node_at := node_at ht |` (- X), bucket_at := bucket_at ht |` (- Y)\<rparr>"

lemma ht_minus_sel [simp]: "next_addr (ht_minus ht X Y) = next_addr ht"
  by (simp add: ht_minus_def)

lemma ht_minus_node:
  assumes "list_ok ht ps" and "a \<in> set ps" and "a \<notin> X"
  shows "read_node (ht_minus ht X Y) a = Inr (the (node_at ht a))"
    and "free_node (ht_minus ht X Y) a = Inr (ht_minus ht (insert a X) Y)"
proof -
  show read: "read_node (ht_minus ht X Y) a = Inr (the (node_at ht a))"
    using list_ok_node [OF assms(1,2)] assms(3) by (simp add: read_node_def ht_minus_def)
  have "(node_at ht |` (- X))(a := None) = node_at ht |` (- insert a X)"
    by (auto simp: restrict_map_def)
  then show "free_node (ht_minus ht X Y) a = Inr (ht_minus ht (insert a X) Y)"
    using read by (simp add: free_node_def) (simp add: ht_minus_def)
qed

lemma free_chain_minus:
  assumes "list_ok ht ps" and "links_by next_node ht p xs" and "distinct xs" and "set xs \<subseteq> set ps"
    and "X \<inter> set xs = {}" and "length xs \<le> fuel"
  shows "free_chain fuel p (ht_minus ht X Y) = Inr (ht_minus ht (X \<union> set xs) Y)"
  using assms(2-)
proof (induction xs arbitrary: fuel p X)
  case Nil
  then show ?case by (cases fuel) simp_all
next
  case (Cons a xs)
  then obtain fuel' where fuel: "fuel = Suc fuel'" by (cases fuel) auto
  have a: "a \<in> set ps" "a \<notin> X" using Cons.prems by auto
  have "free_chain fuel' (next_node (the (node_at ht a))) (ht_minus ht (insert a X) Y)
      = Inr (ht_minus ht (insert a X \<union> set xs) Y)"
    using Cons.prems fuel by (intro Cons.IH) auto
  then show ?case
    using Cons.prems fuel a ht_minus_node [OF assms(1) a] by simp
qed

text \<open>A loop over the cells of the array \<open>t\<close> that frees \<open>N i\<close> and \<open>M i\<close> at cell \<open>i\<close>.\<close>

lemma res_fold_minus:
  assumes "\<And>i X Y. i \<in> set idxs \<Longrightarrow> X \<inter> N i = {} \<Longrightarrow> Y \<inter> M i = {} \<Longrightarrow> t \<notin> Y \<Longrightarrow>
      f i (ht_minus ht X Y) = Inr (ht_minus ht (X \<union> N i) (Y \<union> M i))"
    and "\<And>i j. i \<in> set idxs \<Longrightarrow> j \<in> set idxs \<Longrightarrow> i \<noteq> j \<Longrightarrow> N i \<inter> N j = {} \<and> M i \<inter> M j = {}"
    and "\<And>i. i \<in> set idxs \<Longrightarrow> t \<notin> M i" and "distinct idxs"
    and "\<And>i. i \<in> set idxs \<Longrightarrow> X \<inter> N i = {} \<and> Y \<inter> M i = {}" and "t \<notin> Y"
  shows "res_fold f idxs (ht_minus ht X Y) =
    Inr (ht_minus ht (X \<union> (\<Union>i \<in> set idxs. N i)) (Y \<union> (\<Union>i \<in> set idxs. M i)))"
  using assms
proof (induction idxs arbitrary: X Y)
  case Nil
  then show ?case by simp
next
  case (Cons i idxs)
  have "res_fold f (i # idxs) (ht_minus ht X Y) = res_fold f idxs (ht_minus ht (X \<union> N i) (Y \<union> M i))"
    using Cons.prems(1) [of i X Y] Cons.prems(5) [of i] Cons.prems(6) by simp
  also have "\<dots> = Inr (ht_minus ht ((X \<union> N i) \<union> (\<Union>j \<in> set idxs. N j)) ((Y \<union> M i) \<union> (\<Union>j \<in> set idxs. M j)))"
  proof (rule Cons.IH)
    show "t \<notin> Y \<union> M i" using Cons.prems(3) [of i] Cons.prems(6) by simp
    fix j assume j: "j \<in> set idxs"
    then have "i \<noteq> j" using Cons.prems(4) by auto
    then show "(X \<union> N i) \<inter> N j = {} \<and> (Y \<union> M i) \<inter> M j = {}"
      using Cons.prems(2) [of i j] Cons.prems(5) [of j] j by auto
  qed (use Cons.prems in simp_all)
  finally show ?case by (simp add: Un_assoc)
qed

section \<open>Subtrees\<close>

definition nodes_under :: "ff_hash_table \<Rightarrow> addr list \<Rightarrow> byte list \<Rightarrow> addr set" where
  "nodes_under ht ps p = {a \<in> set ps. \<exists>r. hash_path (levels ht) (node_id ht a) = p @ r}"

definition buckets_under :: "(byte list \<rightharpoonup> addr) \<Rightarrow> byte list \<Rightarrow> addr set" where
  "buckets_under T p = {t. \<exists>r. T (p @ r) = Some t}"

lemma bytes_upt: "(\<Union>i \<in> set [0..<256]. F (of_nat i :: byte)) = (\<Union>b. F b)"
proof -
  have "b \<in> of_nat ` {0..<256}" for b :: byte
    using unat_lt_8 [of b] by (intro image_eqI [of _ _ "unat b"]) simp_all
  then have "(of_nat :: nat \<Rightarrow> byte) ` {0..<256} = UNIV" by auto
  then show ?thesis by (metis image_image set_upt)
qed

lemma of_nat_byte_inj: "i < 256 \<Longrightarrow> j < 256 \<Longrightarrow> (of_nat i :: byte) = of_nat j \<longleftrightarrow> i = j"
  by (simp add: word_unat_eq_iff unat_of_nat)

lemma under_disjoint:
  assumes "buckets_ok ht T H" and "b \<noteq> c"
  shows "nodes_under ht ps (p @ [b]) \<inter> nodes_under ht ps (p @ [c]) = {}"
    and "buckets_under T (p @ [b]) \<inter> buckets_under T (p @ [c]) = {}"
proof -
  show "nodes_under ht ps (p @ [b]) \<inter> nodes_under ht ps (p @ [c]) = {}"
    using assms(2) by (auto simp: nodes_under_def)
  have uniq: "q = q'" if "T q = Some t" "T q' = Some t" for q q' t
    using assms(1) that unfolding buckets_ok_def inj_on_def by (metis domI)
  show "buckets_under T (p @ [b]) \<inter> buckets_under T (p @ [c]) = {}"
    using assms(2) uniq [of "(p @ [b]) @ r" _ "(p @ [c]) @ r'" for r r'] by (auto simp: buckets_under_def)
qed

lemma nodes_under_split:
  assumes "length p < levels ht"
  shows "nodes_under ht ps p = (\<Union>b. nodes_under ht ps (p @ [b]))"
proof -
  have "\<exists>b r'. hash_path (levels ht) i = p @ b # r'" if "hash_path (levels ht) i = p @ r" for i r
    using that assms by (cases r) (auto dest: arg_cong [where f = length])
  then show ?thesis by (fastforce simp: nodes_under_def)
qed

lemma buckets_under_split:
  assumes "T p = Some t"
  shows "buckets_under T p = insert t (\<Union>b. buckets_under T (p @ [b]))"
proof -
  have "T (p @ r) = Some u \<Longrightarrow> u = t \<or> (\<exists>b r'. T (p @ b # r') = Some u)" for r u
    using assms by (cases r) auto
  then show ?thesis using assms by (fastforce simp: buckets_under_def intro: exI [of _ "[]"])
qed

lemma nodes_under_leaf:
  assumes "Suc (length p) = levels ht"
  shows "nodes_under ht ps (p @ [b]) = {a \<in> set ps. hash_path (levels ht) (node_id ht a) = p @ [b]}"
proof -
  have "r = []" if "hash_path (levels ht) i = (p @ [b]) @ r" for i r
    using arg_cong [OF that, of length] assms by simp
  then show ?thesis by (force simp: nodes_under_def)
qed

lemma buckets_under_leaf:
  assumes "buckets_ok ht T H" and "levels ht \<le> length p"
  shows "buckets_under T p = {}"
  using assms(2) by (auto simp: buckets_under_def elim: buckets_okD [OF assms(1)])

text \<open>Below a path without an array there is nothing.\<close>

lemma under_None:
  assumes ok: "table_ok ht T H ps" and p: "T p = None" "length p < levels ht"
  shows "nodes_under ht ps p = {}" and "buckets_under T p = {}"
proof -
  have b: "buckets_ok ht T H" using ok by (simp add: table_ok_def)
  then show "buckets_under T p = {}"
    using not_None_prefix [OF b, of p] p(1) by (auto simp: buckets_under_def)
  have False if a: "a \<in> set ps" and path: "hash_path (levels ht) (node_id ht a) = p @ r" for a r
  proof -
    let ?q = "hash_path (levels ht) (node_id ht a)"
    obtain xs where "links_by next_node ht (H ?q) xs" "a \<in> set xs"
      using ok a unfolding table_ok_def chain_ok_def by blast
    then have "H ?q \<noteq> 0" by (cases xs) auto
    then have "T (butlast ?q) \<noteq> None" using b by (simp add: buckets_ok_def)
    moreover have "r \<noteq> []" using arg_cong [OF path, of length] p(2) by auto
    then have "butlast ?q = p @ butlast r" by (simp add: path butlast_append)
    ultimately show False using not_None_prefix [OF b] p(1) by metis
  qed
  then show "nodes_under ht ps p = {}" by (auto simp: nodes_under_def)
qed

lemma ht_minus_cell:
  assumes "buckets_ok ht T H" and "T p = Some t" and "t \<notin> Y"
  shows "read_cell (ht_minus ht X Y) t b = Inr (if Suc (length p) = levels ht then H (p @ [b]) else ptr (T (p @ [b])))"
    and "free_bucket (ht_minus ht X Y) t = Inr (ht_minus ht X (insert t Y))"
proof -
  obtain cells where c: "bucket_at ht t = Some cells" "0 < t" by (rule buckets_okD [OF assms(1,2)])
  show "read_cell (ht_minus ht X Y) t b = Inr (if Suc (length p) = levels ht then H (p @ [b]) else ptr (T (p @ [b])))"
    using read_cell_ok [OF assms(1,2), of b] c assms(3) by (simp add: read_cell_def ht_minus_def)
  have "(bucket_at ht |` (- Y))(t := None) = bucket_at ht |` (- insert t Y)"
    by (auto simp: restrict_map_def)
  then show "free_bucket (ht_minus ht X Y) t = Inr (ht_minus ht X (insert t Y))"
    using c assms(3) by (simp add: free_bucket_def ht_minus_def)
qed

lemma free_leaf_cell:
  assumes ok: "table_ok ht T H ps" and p: "T p = Some t" "Suc (length p) = levels ht"
    and X: "X \<inter> nodes_under ht ps (p @ [b]) = {}" "t \<notin> Y"
  shows "res_bind (read_cell (ht_minus ht X Y) t b) (\<lambda>c.
      if c \<noteq> 0 then free_chain (next_addr (ht_minus ht X Y)) c (ht_minus ht X Y) else Inr (ht_minus ht X Y))
    = Inr (ht_minus ht (X \<union> nodes_under ht ps (p @ [b])) Y)"
proof -
  have b: "buckets_ok ht T H" and l: "list_ok ht ps" using ok by (simp_all add: table_ok_def)
  have "chain_ok ht ps (p @ [b]) (H (p @ [b]))" using ok by (simp add: table_ok_def)
  then obtain xs where xs: "links_by next_node ht (H (p @ [b])) xs" "distinct xs" "set xs = nodes_under ht ps (p @ [b])"
    unfolding chain_ok_def nodes_under_leaf [OF p(2)] by blast
  have sub: "set xs \<subseteq> set ps" using xs(3) by (auto simp: nodes_under_def)
  have len: "length xs \<le> next_addr ht" using chain_length [OF l xs(2) sub] by auto
  have free: "free_chain (next_addr ht) (H (p @ [b])) (ht_minus ht X Y) = Inr (ht_minus ht (X \<union> nodes_under ht ps (p @ [b])) Y)"
    using free_chain_minus [OF l xs(1,2) sub _ len, of X Y] X(1) xs(3) by simp
  have cell: "read_cell (ht_minus ht X Y) t b = Inr (H (p @ [b]))"
    using ht_minus_cell(1) [OF b p(1) X(2)] p(2) by simp
  show ?thesis
  proof (cases "H (p @ [b]) = 0")
    case True
    then have "nodes_under ht ps (p @ [b]) = {}" using xs(1,3) by (simp add: links_Null)
    then show ?thesis using True cell by simp
  next
    case False
    then show ?thesis using cell free by simp
  qed
qed

lemma free_bucket_level_minus:
  assumes ok: "table_ok ht T H ps"
  shows "T p = Some t \<Longrightarrow> Suc n = levels ht - length p \<Longrightarrow>
    X \<inter> nodes_under ht ps p = {} \<Longrightarrow> Y \<inter> buckets_under T p = {} \<Longrightarrow>
    ff_hash_table_free_bucket_level (Suc n) t (ht_minus ht X Y) =
      Inr (ht_minus ht (X \<union> nodes_under ht ps p) (Y \<union> buckets_under T p))"
proof (induction n arbitrary: p t X Y)
  case (0 p t X Y)
  have b: "buckets_ok ht T H" using ok by (simp add: table_ok_def)
  have len: "Suc (length p) = levels ht" using 0(2) by simp
  let ?f = "\<lambda>i ht. res_bind (read_cell ht t (of_nat i)) (\<lambda>c.
          if c \<noteq> 0 then free_chain (next_addr ht) c ht else Inr ht)"
  let ?N = "\<lambda>i. nodes_under ht ps (p @ [of_nat i])"
  have tY: "t \<notin> Y" using 0(1,4) buckets_under_split [of T p t] by auto
  have "res_fold ?f [0..<256] (ht_minus ht X Y) =
      Inr (ht_minus ht (X \<union> (\<Union>i \<in> set [0..<256]. ?N i)) (Y \<union> (\<Union>i \<in> set [0..<256]. {})))"
  proof (rule res_fold_minus [where t = t])
    show "?f i (ht_minus ht X Y) = Inr (ht_minus ht (X \<union> ?N i) (Y \<union> {}))"
      if "X \<inter> ?N i = {}" "t \<notin> Y" for i X Y
      using free_leaf_cell [OF ok 0(1) len that] by simp
    show "?N i \<inter> ?N j = {} \<and> {} \<inter> {} = {}"
      if "i \<in> set [0..<256]" "j \<in> set [0..<256]" "i \<noteq> j" for i j
      using that under_disjoint(1) [OF b, of "of_nat i" "of_nat j" ps p] by (simp add: of_nat_byte_inj)
    show "X \<inter> ?N i = {} \<and> Y \<inter> {} = {}" for i
      using 0(3) nodes_under_split [of p ht ps] len by auto
  qed (use tY in simp_all)
  moreover have "(\<Union>i \<in> set [0..<256]. ?N i) = nodes_under ht ps p"
    using nodes_under_split [of p ht ps] len bytes_upt [of "\<lambda>b. nodes_under ht ps (p @ [b])"] by simp
  moreover have "buckets_under T p = {t}"
    using buckets_under_split [of T p t] 0(1) buckets_under_leaf [OF b] len by simp
  ultimately show ?case
    using ht_minus_cell(2) [OF b 0(1) tY] by simp
next
  case (Suc n p t X Y)
  have b: "buckets_ok ht T H" using ok by (simp add: table_ok_def)
  have len: "Suc (length p) < levels ht" using Suc.prems(2) by simp
  let ?f = "\<lambda>i ht. res_bind (read_cell ht t (of_nat i)) (\<lambda>c.
          if c \<noteq> 0 then ff_hash_table_free_bucket_level (Suc n) c ht else Inr ht)"
  let ?N = "\<lambda>i. nodes_under ht ps (p @ [of_nat i])" and ?M = "\<lambda>i. buckets_under T (p @ [of_nat i])"
  have tY: "t \<notin> Y" using Suc.prems(1,4) buckets_under_split [of T p t] by auto
  have uniq: "q = p" if "T q = Some t" for q
    using b that Suc.prems(1) unfolding buckets_ok_def inj_on_def by (metis domI)
  have "res_fold ?f [0..<256] (ht_minus ht X Y) =
      Inr (ht_minus ht (X \<union> (\<Union>i \<in> set [0..<256]. ?N i)) (Y \<union> (\<Union>i \<in> set [0..<256]. ?M i)))"
  proof (rule res_fold_minus [where t = t])
    show "?f i (ht_minus ht X Y) = Inr (ht_minus ht (X \<union> ?N i) (Y \<union> ?M i))"
      if "X \<inter> ?N i = {}" "Y \<inter> ?M i = {}" "t \<notin> Y" for i X Y
    proof (cases "T (p @ [of_nat i])")
      case None
      then show ?thesis
        using under_None [OF ok None] len ht_minus_cell(1) [OF b Suc.prems(1) that(3)] by simp
    next
      case (Some u)
      then have "u \<noteq> 0" using ptr_pos [OF b, of "p @ [of_nat i]"] by simp
      moreover have "Suc n = levels ht - length (p @ [of_nat i :: byte])" using Suc.prems(2) by simp
      from Suc.IH [OF Some this that(1,2)]
      have "ff_hash_table_free_bucket_level (Suc n) u (ht_minus ht X Y) = Inr (ht_minus ht (X \<union> ?N i) (Y \<union> ?M i))" .
      ultimately show ?thesis
        using Some len ht_minus_cell(1) [OF b Suc.prems(1) that(3)] by simp
    qed
    show "?N i \<inter> ?N j = {} \<and> ?M i \<inter> ?M j = {}"
      if "i \<in> set [0..<256]" "j \<in> set [0..<256]" "i \<noteq> j" for i j
      using that under_disjoint [OF b, of "of_nat i" "of_nat j"] by (simp add: of_nat_byte_inj)
    show "t \<notin> ?M i" for i using uniq by (auto simp: buckets_under_def)
    show "X \<inter> ?N i = {} \<and> Y \<inter> ?M i = {}" for i
    proof -
      have "?N i \<subseteq> nodes_under ht ps p" "?M i \<subseteq> buckets_under T p"
        by (auto simp: nodes_under_def buckets_under_def)
      then show ?thesis using Suc.prems(3,4) by blast
    qed
  qed (use tY in simp_all)
  moreover have "(\<Union>i \<in> set [0..<256]. ?N i) = nodes_under ht ps p"
    using nodes_under_split [of p ht ps] len bytes_upt [of "\<lambda>b. nodes_under ht ps (p @ [b])"] by simp
  moreover have M: "(\<Union>i \<in> set [0..<256]. ?M i) = (\<Union>b. buckets_under T (p @ [b]))"
    by (rule bytes_upt)
  moreover have "t \<notin> Y \<union> (\<Union>b. buckets_under T (p @ [b]))"
    using uniq tY by (auto simp: buckets_under_def)
  ultimately show ?case
    using ht_minus_cell(2) [OF b Suc.prems(1), of "Y \<union> (\<Union>b. buckets_under T (p @ [b]))"]
      buckets_under_split [of T p t] Suc.prems(1) by simp
qed

lemma restrict_compl_dom: "m |` (- dom m) = Map.empty"
  by (rule ext) (auto simp: restrict_map_def)

lemma hash_table_free_all:
  assumes ok: "table_ok ht T H ps"
  shows "ff_hash_table_free ht = Inr (ht\<lparr>node_at := Map.empty, bucket_at := Map.empty\<rparr>)"
proof -
  have b: "buckets_ok ht T H" and l: "list_ok ht ps" and lev: "1 \<le> levels ht"
    using ok by (simp_all add: table_ok_def)
  obtain n where n: "levels ht = Suc n" using lev by (cases "levels ht") auto
  have root: "T [] = Some (buckets ht)" using b by (simp add: buckets_ok_def)
  have all: "nodes_under ht ps [] = dom (node_at ht)" "buckets_under T [] = dom (bucket_at ht)"
    using b l by (auto simp: nodes_under_def buckets_under_def buckets_ok_def list_ok_def ran_def)
  have "ht_minus ht {} {} = ht"
    by (cases ht) (simp add: ht_minus_def restrict_map_def)
  moreover have "ht_minus ht (dom (node_at ht)) (dom (bucket_at ht)) = ht\<lparr>node_at := Map.empty, bucket_at := Map.empty\<rparr>"
    by (simp add: ht_minus_def restrict_compl_dom)
  moreover have "ff_hash_table_free_bucket_level (Suc n) (buckets ht) (ht_minus ht {} {}) =
      Inr (ht_minus ht ({} \<union> nodes_under ht ps []) ({} \<union> buckets_under T []))"
    by (rule free_bucket_level_minus [OF ok root]) (use n in simp_all)
  ultimately show ?thesis
    using all n by (simp add: ff_hash_table_free_def)
qed

end
