(* ===== verification/Hash_Table_Spec.thy ===== *)
theory Hash_Table_Spec
  imports Hash_Table_Free
begin

text \<open>
  The contract of the request table, as the server relies on it: a map from request ids to
  pointers that remembers the order of insertion. The locale \<open>request_store\<close> states the contract,
  the hash table is an instance of it, and the properties follow: any sequence of operations
  behaves as on the ordered association list, iteration lists the values in order, freeing
  leaves no memory behind. The last section has the prefix lengths for which the code does not
  keep the contract.
\<close>

section \<open>Iteration\<close>

text \<open>The loop \<open>while ((item = ff_hash_table_iterator_next(it)) != NULL)\<close> of a caller.\<close>

fun iterate :: "nat \<Rightarrow> ff_hash_table \<Rightarrow> ff_hash_table_iterator \<Rightarrow> addr list res" where
  "iterate 0 ht iterator = Inl Diverges"
| "iterate (Suc fuel) ht iterator =
     res_bind (ff_hash_table_iterator_next ht iterator) (\<lambda>(item, iterator).
     if item = 0 then Inr []
     else res_bind (iterate fuel ht iterator) (\<lambda>items. Inr (item # items)))"

definition table_items :: "ff_hash_table \<Rightarrow> addr list res" where
  "table_items ht = iterate (next_addr ht) ht ff_hash_table_iterator_init"

lemma iterate_list:
  assumes l: "list_ok ht ps" and "\<exists>ls. ps = ls @ rs" and "length rs < fuel"
    and "\<not> started it \<and> rs = ps \<or>
      started it \<and> (\<exists>ls a. ps = ls @ a # rs \<and> current_node it = a)"
  shows "iterate fuel ht it = Inr (takeWhile (\<lambda>v. v \<noteq> 0) (map (\<lambda>a. node_value (the (node_at ht a))) rs))"
  using assms(2-)
proof (induction rs arbitrary: fuel it)
  case Nil
  then obtain fuel' where fuel: "fuel = Suc fuel'" by (cases fuel) auto
  have "ff_hash_table_iterator_next ht it = Inr (0, it\<lparr>current_node := 0, started := True\<rparr>)"
    using Nil.prems(3)
  proof (elim disjE conjE exE)
    assume "\<not> started it" "[] = ps"
    then show ?thesis using l by (auto simp: ff_hash_table_iterator_next_def list_ok_def)
  next
    fix ls a assume a: "started it" "ps = ls @ [a]" "current_node it = a"
    then show ?thesis
      using list_ok_ends(2) [of ht ls a "[]"] list_ok_node [OF l, of a] l
      by (cases it) (simp add: ff_hash_table_iterator_next_def)
  qed
  then show ?case using fuel by simp
next
  case (Cons b rs)
  then obtain fuel' where fuel: "fuel = Suc fuel'" by (cases fuel) auto
  have b: "b \<in> set ps" using Cons.prems(1) by auto
  note node = list_ok_node [OF l b]
  let ?it = "it\<lparr>current_node := b, started := True\<rparr>"
  have step: "ff_hash_table_iterator_next ht it = Inr (node_value (the (node_at ht b)), ?it)"
    using Cons.prems(3)
  proof (elim disjE conjE exE)
    assume "\<not> started it" "b # rs = ps"
    then show ?thesis using node list_ok_ends(3) [of ht "[]" b rs] l
      by (auto simp: ff_hash_table_iterator_next_def)
  next
    fix ls a assume a: "started it" "ps = ls @ a # b # rs" "current_node it = a"
    then show ?thesis
      using list_ok_ends(2) [of ht ls a "b # rs"] list_ok_node [OF l, of a] l node
      by (cases it) (simp add: ff_hash_table_iterator_next_def)
  qed
  have "\<exists>ls a. ps = ls @ a # rs \<and> current_node ?it = a" using Cons.prems(1) by auto
  moreover have "\<exists>ls. ps = ls @ rs" using Cons.prems(1) by (metis append.assoc append_Cons append_Nil)
  ultimately have "iterate fuel' ht ?it = Inr (takeWhile (\<lambda>v. v \<noteq> 0) (map (\<lambda>a. node_value (the (node_at ht a))) rs))"
    using Cons.prems(2) fuel by (intro Cons.IH) simp_all
  then show ?case using step fuel by simp
qed

section \<open>The contract\<close>

datatype store_op = Put "64 word" addr | Get "64 word" | Remove "64 word"

text \<open>A sequence of operations and the values its lookups return.\<close>

fun run_ops ::
  "('s \<Rightarrow> 64 word \<Rightarrow> addr res) \<Rightarrow> ('s \<Rightarrow> 64 word \<Rightarrow> addr \<Rightarrow> 's res) \<Rightarrow> ('s \<Rightarrow> 64 word \<Rightarrow> 's res) \<Rightarrow>
   's \<Rightarrow> store_op list \<Rightarrow> ('s \<times> addr list) res" where
  "run_ops get put remove s [] = Inr (s, [])"
| "run_ops get put remove s (Put i v # ops) =
     res_bind (put s i v) (\<lambda>s. run_ops get put remove s ops)"
| "run_ops get put remove s (Get i # ops) =
     res_bind (get s i) (\<lambda>v.
     res_bind (run_ops get put remove s ops) (\<lambda>(s, vs). Inr (s, v # vs)))"
| "run_ops get put remove s (Remove i # ops) =
     res_bind (remove s i) (\<lambda>s. run_ops get put remove s ops)"

fun spec_run :: "(64 word \<times> addr) list \<Rightarrow> store_op list \<Rightarrow> (64 word \<times> addr) list \<times> addr list" where
  "spec_run es [] = (es, [])"
| "spec_run es (Put i v # ops) = spec_run (AList.update i v es) ops"
| "spec_run es (Get i # ops) = (let (es', vs) = spec_run es ops in (es', ptr (map_of es i) # vs))"
| "spec_run es (Remove i # ops) = spec_run (AList.delete i es) ops"

locale request_store =
  fixes repr :: "'s \<Rightarrow> (64 word \<times> addr) list \<Rightarrow> bool"
    and get :: "'s \<Rightarrow> 64 word \<Rightarrow> addr res"
    and put :: "'s \<Rightarrow> 64 word \<Rightarrow> addr \<Rightarrow> 's res"
    and remove :: "'s \<Rightarrow> 64 word \<Rightarrow> 's res"
    and items :: "'s \<Rightarrow> addr list res"
  assumes get_law: "repr s es \<Longrightarrow> get s i = Inr (ptr (map_of es i))"
    and put_law: "repr s es \<Longrightarrow> \<exists>s'. put s i v = Inr s' \<and> repr s' (AList.update i v es)"
    and remove_law: "repr s es \<Longrightarrow> \<exists>s'. remove s i = Inr s' \<and> repr s' (AList.delete i es)"
    and items_law: "repr s es \<Longrightarrow> items s = Inr (takeWhile (\<lambda>v. v \<noteq> 0) (map snd es))"
begin

lemma get_after_put:
  assumes "repr s es"
  shows "\<exists>s'. put s i v = Inr s' \<and> get s' i = Inr v \<and> (\<forall>j. j \<noteq> i \<longrightarrow> get s' j = get s j)"
proof -
  obtain s' where s': "put s i v = Inr s'" "repr s' (AList.update i v es)"
    using put_law [OF assms] by blast
  then show ?thesis
    using get_law [OF s'(2)] get_law [OF assms] by (auto simp: update_conv')
qed

lemma get_after_remove:
  assumes "repr s es"
  shows "\<exists>s'. remove s i = Inr s' \<and> get s' i = Inr 0 \<and> (\<forall>j. j \<noteq> i \<longrightarrow> get s' j = get s j)"
proof -
  obtain s' where s': "remove s i = Inr s'" "repr s' (AList.delete i es)"
    using remove_law [OF assms] by blast
  then show ?thesis
    using get_law [OF s'(2)] get_law [OF assms] by (auto simp: delete_conv')
qed

lemma run_ops_spec:
  "repr s es \<Longrightarrow>
     \<exists>s'. run_ops get put remove s ops = Inr (s', snd (spec_run es ops)) \<and> repr s' (fst (spec_run es ops))"
proof (induction ops arbitrary: s es)
  case (Cons op ops)
  show ?case
  proof (cases op)
    case (Put i v)
    obtain s' where "put s i v = Inr s'" "repr s' (AList.update i v es)"
      using put_law [OF Cons.prems] by blast
    with Put Cons.IH show ?thesis by auto
  next
    case (Get i)
    with get_law [OF Cons.prems, of i] Cons.IH [OF Cons.prems] show ?thesis
      by (auto split: prod.splits)
  next
    case (Remove i)
    obtain s' where "remove s i = Inr s'" "repr s' (AList.delete i es)"
      using remove_law [OF Cons.prems] by blast
    with Remove Cons.IH show ?thesis by auto
  qed
qed simp

end

section \<open>The hash table keeps the contract\<close>

text \<open>The entries of a table with at least two levels, as the server creates it.\<close>

definition stores :: "ff_hash_table \<Rightarrow> (64 word \<times> addr) list \<Rightarrow> bool" where
  "stores ht es \<longleftrightarrow> holds ht es \<and> 2 \<le> levels ht"

interpretation ht: request_store stores ff_hash_table_get_item ff_hash_table_put_item
  ff_hash_table_remove_item table_items
proof
  fix ht es i v
  assume s: "stores ht es"
  then obtain T H ps where ok: "table_ok ht T H ps" and es: "es = entries ht ps" and two: "2 \<le> levels ht"
    by (auto simp: stores_def holds_def)
  show "ff_hash_table_get_item ht i = Inr (ptr (map_of es i))"
    using get_item_entries [OF ok] es by simp
  show "\<exists>ht'. ff_hash_table_put_item ht i v = Inr ht' \<and> stores ht' (AList.update i v es)"
    using put_item_entries [OF ok, of i v] es two by (auto simp: stores_def holds_def) metis
  show "\<exists>ht'. ff_hash_table_remove_item ht i = Inr ht' \<and> stores ht' (AList.delete i es)"
    using remove_item_entries [OF ok two, of i] es two by (auto simp: stores_def holds_def) metis
  have l: "list_ok ht ps" and b: "buckets_ok ht T H"
    using ok by (simp_all add: table_ok_def)
  have root: "T [] = Some (buckets ht)" using b by (simp add: buckets_ok_def)
  have "0 < next_addr ht" by (rule buckets_okD [OF b root]) simp
  then have "length ps < next_addr ht"
    using chain_length [OF l, of ps] l by (auto simp: list_ok_def)
  then show "table_items ht = Inr (takeWhile (\<lambda>v. v \<noteq> 0) (map snd es))"
    using iterate_list [OF l, of ps "next_addr ht" ff_hash_table_iterator_init]
    by (simp add: table_items_def es entries_def comp_def ff_hash_table_iterator_init_def)
qed

lemma init_table_ok:
  assumes "8 \<le> unat prefix" and "unat prefix < 72"
  shows "\<exists>ht. ff_hash_table_init prefix = Inr ht \<and> levels ht = unat prefix div 8 \<and>
    table_ok ht [[] \<mapsto> buckets ht] (\<lambda>_. 0) []"
proof -
  let ?ht = "\<lparr>prefix_bit_length = prefix, bucket_levels = prefix div 8, ht_length = 0, buckets = 1,
    linked_list = 0, linked_list_last = 0, node_at = Map.empty, bucket_at = [1 \<mapsto> (\<lambda>_. 0)], next_addr = 2\<rparr>"
  have lev: "levels ?ht = unat prefix div 8" by (simp add: unat_div)
  have "prefix \<noteq> 0" using assms(1) by auto
  then have "ff_hash_table_init prefix = Inr ?ht"
    by (simp add: ff_hash_table_init_def ff_hash_table_init_bucket_def numeral_2_eq_2)
  moreover have "table_ok ?ht [[] \<mapsto> buckets ?ht] (\<lambda>_. 0) []"
    using assms lev unfolding table_ok_def
    by (auto simp: buckets_ok_def cells_ok_def list_ok_def chain_ok_def split: if_splits)
  ultimately show ?thesis using lev by auto
qed

lemma init_stores:
  assumes "16 \<le> unat prefix" and "unat prefix < 72"
  shows "\<exists>ht. ff_hash_table_init prefix = Inr ht \<and> stores ht []"
  using init_table_ok [of prefix] assms by (fastforce simp: stores_def holds_def entries_def)

section \<open>Properties\<close>

text \<open>
  C11. The request table refines an ordered map. For a prefix of 16 to 71 bits, every sequence of
  \<open>put_item\<close>, \<open>get_item\<close> and \<open>remove_item\<close> on a new table runs without a fault, its lookups
  return what the association list returns (NULL for an absent id), and the table holds exactly
  the entries of that list, in order.
\<close>

theorem hash_table_refines_map:
  assumes "16 \<le> unat prefix" and "unat prefix < 72"
  shows "\<exists>ht ht'. ff_hash_table_init prefix = Inr ht \<and>
    run_ops ff_hash_table_get_item ff_hash_table_put_item ff_hash_table_remove_item ht ops
      = Inr (ht', snd (spec_run [] ops)) \<and> stores ht' (fst (spec_run [] ops))"
  using init_stores [OF assms] ht.run_ops_spec [of _ "[]" ops] by blast

theorem hash_table_refines_map_witness:
  "\<exists>ht ht'. ff_hash_table_init 16 = Inr ht \<and>
    run_ops ff_hash_table_get_item ff_hash_table_put_item ff_hash_table_remove_item ht
      [Put 7 100, Put 0x10007 200, Get 7, Get 0x10007, Remove 7, Get 7, Get 0x10007] = Inr (ht', [100, 200, 0, 200]) \<and>
    stores ht' [(0x10007, 200)]"
  using hash_table_refines_map [of 16 "[Put 7 100, Put 0x10007 200, Get 7, Get 0x10007, Remove 7, Get 7, Get 0x10007]"]
  by (simp add: AList.delete_eq)

text \<open>
  C12. Iteration visits every request once, in order of insertion. The iterator of a table that
  holds non-NULL values returns these values in order and then NULL.
\<close>

theorem iterator_lists_items:
  assumes "stores ht es" and "0 \<notin> snd ` set es"
  shows "table_items ht = Inr (map snd es)"
proof -
  have "takeWhile (\<lambda>v. v \<noteq> 0) (map snd es) = map snd es"
    using assms(2) by (force simp: takeWhile_eq_all_conv)
  then show ?thesis using ht.items_law [OF assms(1)] by simp
qed

text \<open>A table with two requests whose ids share both hashes, for the witnesses.\<close>

lemma sample_table:
  "\<exists>ht. run_ops ff_hash_table_get_item ff_hash_table_put_item ff_hash_table_remove_item
      (projr (ff_hash_table_init 16)) [Put 7 100, Put 0x10007 200] = Inr (ht, []) \<and>
    stores ht [(7, 100), (0x10007, 200)]"
proof -
  obtain ht where ht: "ff_hash_table_init 16 = Inr ht" "stores ht []"
    using init_stores [of 16] by auto
  then show ?thesis using ht.run_ops_spec [OF ht(2), of "[Put 7 100, Put 0x10007 200]"] by simp
qed

theorem iterator_lists_items_witness:
  "\<exists>ht. run_ops ff_hash_table_get_item ff_hash_table_put_item ff_hash_table_remove_item
      (projr (ff_hash_table_init 16)) [Put 7 100, Put 0x10007 200] = Inr (ht, []) \<and>
    table_items ht = Inr [100, 200]"
proof -
  obtain ht where ht: "run_ops ff_hash_table_get_item ff_hash_table_put_item ff_hash_table_remove_item
      (projr (ff_hash_table_init 16)) [Put 7 100, Put 0x10007 200] = Inr (ht, [])"
      "stores ht [(7, 100), (0x10007, 200)]"
    using sample_table by blast
  then show ?thesis using iterator_lists_items [OF ht(2)] by simp
qed

text \<open>
  C13. Freeing the table frees everything. \<open>ff_hash_table_free\<close> never touches freed memory and
  leaves neither a node nor a bucket array on the heap.
\<close>

theorem free_leaves_nothing:
  assumes "stores ht es"
  shows "\<exists>ht'. ff_hash_table_free ht = Inr ht' \<and> node_at ht' = Map.empty \<and> bucket_at ht' = Map.empty"
  using assms hash_table_free_all by (fastforce simp: stores_def holds_def)

theorem free_leaves_nothing_witness:
  "\<exists>ht ht'. run_ops ff_hash_table_get_item ff_hash_table_put_item ff_hash_table_remove_item
      (projr (ff_hash_table_init 16)) [Put 7 100, Put 0x10007 200] = Inr (ht, []) \<and>
    ff_hash_table_free ht = Inr ht' \<and> node_at ht' = Map.empty \<and> bucket_at ht' = Map.empty"
  using sample_table free_leaves_nothing by blast

section \<open>Prefix lengths outside the contract\<close>

text \<open>
  C14. A one-level table cannot remove its items. With a prefix of 8 to 15 bits the table has one
  level; removing the only item of a cell starts the clearing loop at level \<open>1 - 2\<close>, which is 255
  in 8 bits, and reads \<open>bucket_list[255]\<close> outside its one element.
\<close>

theorem one_level_remove_out_of_bounds:
  assumes "8 \<le> unat prefix" and "unat prefix < 16"
  shows "\<exists>ht ht'. ff_hash_table_init prefix = Inr ht \<and> ff_hash_table_put_item ht i v = Inr ht' \<and>
    ff_hash_table_remove_item ht' i = Inl OutOfBounds"
proof -
  have p: "prefix div 8 = 1" "prefix \<noteq> 0"
    using assms by (auto simp: word_unat_eq_iff unat_div)
  have h: "FF_HASH_GET_FOR_LEVEL i 0 = Inr (ucast i)"
    using hash_for_level [of 0 i] by simp
  have m: "unat (- 1 :: 8 word) = 255" by (simp add: unsigned_minus_1_eq_mask mask_eq_exp_minus_1)
  show ?thesis
    using p by (simp add: m ff_hash_table_init_def ff_hash_table_init_bucket_def ff_hash_table_put_item_def
      ff_hash_table_get_or_create_bucket_def h read_cell_def write_cell_def alloc_node_def append_to_list_def
      ff_hash_table_remove_item_def read_node_def remove_from_list_def free_node_def clear_buckets.simps list_at_def
      numeral_2_eq_2)
qed

theorem one_level_remove_out_of_bounds_witness:
  "\<exists>ht ht'. ff_hash_table_init 8 = Inr ht \<and> ff_hash_table_put_item ht 123 1 = Inr ht' \<and>
    ff_hash_table_remove_item ht' 123 = Inl OutOfBounds"
  by (rule one_level_remove_out_of_bounds) simp_all

text \<open>
  C15. A prefix of fewer than 8 bits makes every access undefined. \<open>ceil\<close> is applied after an
  integer division, so such a table has no level, and the hash of level -1 shifts by 64.
\<close>

theorem short_prefix_bad_shift:
  assumes "0 < unat prefix" and "unat prefix < 8"
  shows "\<exists>ht. ff_hash_table_init prefix = Inr ht \<and> ff_hash_table_get_item ht i = Inl BadShift \<and>
    ff_hash_table_put_item ht i v = Inl BadShift \<and> ff_hash_table_remove_item ht i = Inl BadShift"
proof -
  have p: "prefix div 8 = 0" "prefix \<noteq> 0"
    using assms by (auto simp: word_unat_eq_iff unat_div)
  show ?thesis
    using p by (simp add: ff_hash_table_init_def ff_hash_table_init_bucket_def ff_hash_table_put_item_def
      ff_hash_table_get_item_def ff_hash_table_remove_item_def ff_hash_table_get_or_create_bucket_def
      FF_HASH_GET_FOR_LEVEL_def)
qed

theorem short_prefix_bad_shift_witness:
  "\<exists>ht. ff_hash_table_init 7 = Inr ht \<and> ff_hash_table_get_item ht 1 = Inl BadShift \<and>
    ff_hash_table_put_item ht 1 1 = Inl BadShift \<and> ff_hash_table_remove_item ht 1 = Inl BadShift"
  by (rule short_prefix_bad_shift) simp_all

end
