(* ===== verification/Logging.thy ===== *)
theory Logging
  imports Prelude
begin

text \<open>
  Logging: \<open>src/logging.c\<close> and \<open>src/logging.h\<close>. The current level is an argument of \<open>ff_log\<close>, as is
  the local time; the message is the text \<open>vsprintf\<close> makes of the format and its arguments. The
  result is the line printed, or nothing for a message below the level.
\<close>

section \<open>Levels\<close>

datatype ff_log_type = FF_DEBUG | FF_INFO | FF_WARNING | FF_ERROR | FF_FATAL

fun log_value :: "ff_log_type \<Rightarrow> nat" where
  "log_value FF_DEBUG = 1"
| "log_value FF_INFO = 2"
| "log_value FF_WARNING = 3"
| "log_value FF_ERROR = 4"
| "log_value FF_FATAL = 5"

instantiation ff_log_type :: linorder
begin

definition less_eq_ff_log_type :: "ff_log_type \<Rightarrow> ff_log_type \<Rightarrow> bool" where
  "less_eq_ff_log_type a b \<longleftrightarrow> log_value a \<le> log_value b"

definition less_ff_log_type :: "ff_log_type \<Rightarrow> ff_log_type \<Rightarrow> bool" where
  "less_ff_log_type a b \<longleftrightarrow> log_value a < log_value b"

instance
proof
  fix a b :: ff_log_type
  show "a \<le> b \<Longrightarrow> b \<le> a \<Longrightarrow> a = b"
    by (cases a; cases b) (simp_all add: less_eq_ff_log_type_def)
qed (auto simp: less_eq_ff_log_type_def less_ff_log_type_def)

end

fun log_prefix :: "ff_log_type \<Rightarrow> string" where
  "log_prefix FF_DEBUG = ''DEBUG''"
| "log_prefix FF_INFO = ''INFO''"
| "log_prefix FF_WARNING = ''WARNING''"
| "log_prefix FF_ERROR = ''ERROR''"
| "log_prefix FF_FATAL = ''FATAL''"

section \<open>The time stamp\<close>

text \<open>The fields of \<open>struct tm\<close> that the format names, with the year in full and months from 1.\<close>

record tm =
  tm_year :: nat
  tm_mon :: nat
  tm_mday :: nat
  tm_hour :: nat
  tm_min :: nat
  tm_sec :: nat

definition two_digits :: "nat \<Rightarrow> byte list" where
  "two_digits n = [of_nat (48 + n div 10 mod 10), of_nat (48 + n mod 10)]"

text \<open>\<open>strftime\<close> with the format \<open>%Y-%m-%d %H:%I:%S\<close>; \<open>%I\<close> is the hour on a 12-hour clock.\<close>

definition time_str :: "tm \<Rightarrow> byte list" where
  "time_str now =
     two_digits (tm_year now div 100) @ two_digits (tm_year now mod 100) @ map of_char ''-'' @
     two_digits (tm_mon now) @ map of_char ''-'' @ two_digits (tm_mday now) @ map of_char '' '' @
     two_digits (tm_hour now) @ map of_char '':'' @
     two_digits (if tm_hour now mod 12 = 0 then 12 else tm_hour now mod 12) @ map of_char '':'' @
     two_digits (tm_sec now)"

section \<open>\<open>ff_log\<close>\<close>

definition full_message_size :: nat where
  "full_message_size = 255"

definition ff_log :: "ff_log_type \<Rightarrow> tm \<Rightarrow> ff_log_type \<Rightarrow> byte list \<Rightarrow> byte list option res" where
  "ff_log ff_log_level now type message =
     (if type < ff_log_level then Inr None
      else
        res_bind (block_write (block_alloc full_message_size) 0 (bytes (message @ [0]))) (\<lambda>full_message.
        res_bind (block_reads full_message 0 (length message)) (\<lambda>full_message.
        Inr (Some (map of_char ''['' @ time_str now @ map of_char ''] '' @ map of_char (log_prefix type) @
          map of_char '' '' @ full_message @ [10])))))"

lemma ff_log_overflow:
  "level \<le> type \<Longrightarrow> 255 \<le> length message \<Longrightarrow> ff_log level now type message = Inl OutOfBounds"
  by (auto simp: ff_log_def block_write_def block_alloc_def full_message_size_def)

lemma ff_log_short:
  assumes "length message < 255"
  shows "ff_log level now type message =
    (if type < level then Inr None
     else Inr (Some (map of_char ''['' @ time_str now @ map of_char ''] '' @ map of_char (log_prefix type) @
       map of_char '' '' @ message @ [10])))"
proof -
  have "block_write (block_alloc full_message_size) 0 (bytes (message @ [0])) =
      Inr (bytes message @ Some 0 # drop (Suc (length message)) (block_alloc full_message_size))"
    using assms by (simp add: block_write_def block_alloc_def full_message_size_def)
  then show ?thesis
    by (simp add: ff_log_def block_reads_bytes del: bytes_simps)
qed

text \<open>
  C24. The log buffer has 255 bytes and \<open>vsprintf\<close> does not check it. A message that is logged at
  the current level is printed in full if it has at most 254 characters, and overflows
  \<open>full_message\<close> otherwise; a message below the level is never formatted.
\<close>

theorem log_message_limit:
  "ff_log level now type message =
    (if type < level then Inr None
     else if length message \<le> 254
     then Inr (Some (map of_char ''['' @ time_str now @ map of_char ''] '' @ map of_char (log_prefix type) @
       map of_char '' '' @ message @ [10]))
     else Inl OutOfBounds)"
  using ff_log_short [of message level now type] ff_log_overflow [of level type message now]
  by (cases "type < level") (auto simp: ff_log_def)

text \<open>The format \<open>%H:%I:%S\<close> prints the hour twice, so the line does not depend on the minute.\<close>

lemma log_time_without_minutes:
  "ff_log level (now\<lparr>tm_min := m\<rparr>) type message = ff_log level now type message"
  by (simp add: ff_log_def time_str_def)

end
