(* ===== verification/Config.thy ===== *)
theory Config
  imports Crypto Logging
begin

text \<open>
  The command line of the proxy: \<open>src/config.c\<close> and \<open>src/config.h\<close>. Arguments are C strings;
  \<open>inet_pton\<close> is an argument, true for a string it accepts as an IPv6 or an IPv4 address.
\<close>

section \<open>Data\<close>

record ff_config =
  port :: "byte list option"
  ip_address :: "byte list option"
  timestamp_fudge_factor :: "16 word"
  encryption :: ff_encryption_config
  logging_level :: ff_log_type
  ipv6_v6only :: bool

datatype ff_action =
    FF_ACTION_START_PROXY
  | FF_ACTION_PRINT_VERSION
  | FF_ACTION_PRINT_USAGE
  | FF_ACTION_INVALID_ARGS

datatype parse_arg_state =
    FF_PARSE_ARG_STATE_DEFAULT
  | FF_PARSE_ARG_PARSE_PORT
  | FF_PARSE_ARG_PARSE_IP
  | FF_PARSE_ARG_PARSE_PSK
  | FF_PARSE_ARG_PARSE_PBKDF2_ITERATIONS
  | FF_PARSE_ARG_PARSE_TIMESTAMP_FUDGE_FACTOR

definition default_listen_address :: "byte list" where
  "default_listen_address = map of_char ''0.0.0.0''"

text \<open>The local variables of \<open>ff_parse_arguments\<close>, and the configuration it writes to.\<close>

record parse_args =
  pa_port :: "byte list option"
  pa_address :: "byte list"
  pa_state :: parse_arg_state
  pa_level :: ff_log_type
  pa_encryption :: ff_encryption_config
  pa_fudge :: "16 word"
  pa_config :: ff_config

definition parse_args_init :: "ff_config \<Rightarrow> parse_args" where
  "parse_args_init config =
     \<lparr>pa_port = None, pa_address = default_listen_address, pa_state = FF_PARSE_ARG_STATE_DEFAULT,
      pa_level = FF_ERROR, pa_encryption = \<lparr>enc_key = None, pbkdf2_iterations = 1000\<rparr>, pa_fudge = 30,
      pa_config = config\<rparr>"

section \<open>The loop over the arguments\<close>

text \<open>An argument in the default state. \<open>Some action\<close> is the jump to \<open>done\<close>.\<close>

definition parse_flag :: "parse_args \<Rightarrow> byte list \<Rightarrow> ff_action option \<times> parse_args" where
  "parse_flag p arg =
     (if strcasecmp_eq arg ''--help'' then (Some FF_ACTION_PRINT_USAGE, p)
      else if strcasecmp_eq arg ''--version'' then (Some FF_ACTION_PRINT_VERSION, p)
      else if strcasecmp_eq arg ''--port'' then (None, p\<lparr>pa_state := FF_PARSE_ARG_PARSE_PORT\<rparr>)
      else if strcasecmp_eq arg ''--ip-address'' then (None, p\<lparr>pa_state := FF_PARSE_ARG_PARSE_IP\<rparr>)
      else if strcasecmp_eq arg ''--ipv6-v6only'' then (None, p\<lparr>pa_config := (pa_config p)\<lparr>ipv6_v6only := True\<rparr>\<rparr>)
      else if strcasecmp_eq arg ''--pre-shared-key'' then (None, p\<lparr>pa_state := FF_PARSE_ARG_PARSE_PSK\<rparr>)
      else if strcasecmp_eq arg ''--pbkdf2-iterations'' then (None, p\<lparr>pa_state := FF_PARSE_ARG_PARSE_PBKDF2_ITERATIONS\<rparr>)
      else if strcasecmp_eq arg ''--timestamp-fudge-factor'' then (None, p\<lparr>pa_state := FF_PARSE_ARG_PARSE_TIMESTAMP_FUDGE_FACTOR\<rparr>)
      else if strcasecmp_eq arg ''-vvv'' then (None, p\<lparr>pa_level := FF_DEBUG\<rparr>)
      else if strcasecmp_eq arg ''-vv'' then (None, p\<lparr>pa_level := FF_INFO\<rparr>)
      else if strcasecmp_eq arg ''-v'' then (None, p\<lparr>pa_level := FF_WARNING\<rparr>)
      else (Some FF_ACTION_INVALID_ARGS, p))"

text \<open>The body of the loop. The number of iterations is stored in an unsigned variable before it is
  compared with 0.\<close>

definition parse_arg :: "(bool \<Rightarrow> byte list \<Rightarrow> bool) \<Rightarrow> parse_args \<Rightarrow> byte list \<Rightarrow> ff_action option \<times> parse_args" where
  "parse_arg inet_pton p arg =
     (case pa_state p of
        FF_PARSE_ARG_STATE_DEFAULT \<Rightarrow> parse_flag p arg
      | FF_PARSE_ARG_PARSE_PORT \<Rightarrow>
          if atoi arg \<le> 0 \<or> atoi arg > 65535 then (Some FF_ACTION_INVALID_ARGS, p)
          else (None, p\<lparr>pa_port := Some arg, pa_state := FF_PARSE_ARG_STATE_DEFAULT\<rparr>)
      | FF_PARSE_ARG_PARSE_IP \<Rightarrow>
          if \<not> inet_pton (58 \<in> set arg) arg then (Some FF_ACTION_INVALID_ARGS, p)
          else (None, p\<lparr>pa_address := arg, pa_state := FF_PARSE_ARG_STATE_DEFAULT\<rparr>)
      | FF_PARSE_ARG_PARSE_PSK \<Rightarrow>
          (None, p\<lparr>pa_encryption := (pa_encryption p)\<lparr>enc_key := Some arg\<rparr>, pa_state := FF_PARSE_ARG_STATE_DEFAULT\<rparr>)
      | FF_PARSE_ARG_PARSE_PBKDF2_ITERATIONS \<Rightarrow>
          (let p = p\<lparr>pa_encryption := (pa_encryption p)\<lparr>pbkdf2_iterations := of_int (atoi arg)\<rparr>\<rparr> in
           if pbkdf2_iterations (pa_encryption p) \<le> 0 then (Some FF_ACTION_INVALID_ARGS, p)
           else (None, p\<lparr>pa_state := FF_PARSE_ARG_STATE_DEFAULT\<rparr>))
      | FF_PARSE_ARG_PARSE_TIMESTAMP_FUDGE_FACTOR \<Rightarrow>
          if atoi arg \<le> 0 \<or> atoi arg > 65535 then (Some FF_ACTION_INVALID_ARGS, p)
          else (None, p\<lparr>pa_fudge := of_int (atoi arg), pa_state := FF_PARSE_ARG_STATE_DEFAULT\<rparr>))"

fun parse_loop :: "(bool \<Rightarrow> byte list \<Rightarrow> bool) \<Rightarrow> parse_args \<Rightarrow> byte list list \<Rightarrow> ff_action \<times> parse_args" where
  "parse_loop inet_pton p [] = (FF_ACTION_START_PROXY, p)"
| "parse_loop inet_pton p (arg # args) =
     (case parse_arg inet_pton p arg of
        (Some action, p) \<Rightarrow> (action, p)
      | (None, p) \<Rightarrow> parse_loop inet_pton p args)"

text \<open>The action and the configuration afterwards.\<close>

definition ff_parse_arguments ::
  "(bool \<Rightarrow> byte list \<Rightarrow> bool) \<Rightarrow> ff_config \<Rightarrow> byte list list \<Rightarrow> ff_action \<times> ff_config" where
  "ff_parse_arguments inet_pton config argv =
     (let (action, p) = parse_loop inet_pton (parse_args_init config) (tl argv) in
      if action = FF_ACTION_START_PROXY then
        case pa_port p of
          None \<Rightarrow> (FF_ACTION_INVALID_ARGS, pa_config p)
        | Some pt \<Rightarrow>
            (action, (pa_config p)\<lparr>ip_address := Some (pa_address p), port := Some pt,
               encryption := pa_encryption p, logging_level := pa_level p,
               timestamp_fudge_factor := pa_fudge p\<rparr>)
      else (action, pa_config p))"

section \<open>Accepted configurations\<close>

definition parse_args_ok :: "(bool \<Rightarrow> byte list \<Rightarrow> bool) \<Rightarrow> parse_args \<Rightarrow> bool" where
  "parse_args_ok inet_pton p \<longleftrightarrow>
     (\<forall>pt. pa_port p = Some pt \<longrightarrow> 0 < atoi pt \<and> atoi pt \<le> 65535) \<and>
     (pa_address p = default_listen_address \<or> inet_pton (58 \<in> set (pa_address p)) (pa_address p)) \<and>
     pbkdf2_iterations (pa_encryption p) \<noteq> 0 \<and>
     pa_fudge p \<noteq> 0"

lemma parse_flag_ok:
  "parse_args_ok inet_pton p \<Longrightarrow> pa_state p = FF_PARSE_ARG_STATE_DEFAULT \<Longrightarrow> parse_flag p arg = (None, p') \<Longrightarrow>
     parse_args_ok inet_pton p'"
  by (auto simp: parse_flag_def parse_args_ok_def split: if_splits)

lemma fudge_nonzero:
  assumes "0 < i" "i \<le> 65535"
  shows "(of_int i :: 16 word) \<noteq> 0"
proof -
  have "uint (of_int i :: 16 word) = i"
    using assms by (simp add: unsigned_of_int take_bit_int_eq_self)
  then show ?thesis using assms by auto
qed

lemma parse_arg_ok:
  assumes "parse_args_ok inet_pton p" and "parse_arg inet_pton p arg = (None, p')"
  shows "parse_args_ok inet_pton p'"
proof (cases "pa_state p")
  case FF_PARSE_ARG_STATE_DEFAULT
  then show ?thesis using assms parse_flag_ok by (simp add: parse_arg_def)
qed (use assms in \<open>auto simp: parse_arg_def parse_args_ok_def fudge_nonzero Let_def word_le_nat_alt split: if_splits\<close>)

lemma parse_arg_not_start: "parse_arg inet_pton p arg \<noteq> (Some FF_ACTION_START_PROXY, q)"
  by (auto simp: parse_arg_def parse_flag_def Let_def split: parse_arg_state.splits)

lemma parse_loop_ok:
  "parse_args_ok inet_pton p \<Longrightarrow> parse_loop inet_pton p args = (FF_ACTION_START_PROXY, p') \<Longrightarrow> parse_args_ok inet_pton p'"
  by (induction args arbitrary: p)
    (auto split: prod.splits option.splits dest: parse_arg_ok simp: parse_arg_not_start)

text \<open>
  C25. A configuration the proxy starts with is well formed, whatever the arguments: a port between
  1 and 65535, the default address or one that \<open>inet_pton\<close> accepts, and positive numbers for the
  PBKDF2 iterations and the timestamp window.
\<close>

theorem started_config_well_formed:
  assumes "ff_parse_arguments inet_pton config argv = (FF_ACTION_START_PROXY, config')"
  shows "\<exists>pt addr. port config' = Some pt \<and> 0 < atoi pt \<and> atoi pt \<le> 65535 \<and>
    ip_address config' = Some addr \<and> (addr = default_listen_address \<or> inet_pton (58 \<in> set addr) addr) \<and>
    pbkdf2_iterations (encryption config') \<noteq> 0 \<and> timestamp_fudge_factor config' \<noteq> 0"
proof -
  obtain action p where loop: "parse_loop inet_pton (parse_args_init config) (tl argv) = (action, p)"
    by (cases "parse_loop inet_pton (parse_args_init config) (tl argv)")
  have action: "action = FF_ACTION_START_PROXY"
    using assms loop by (auto simp: ff_parse_arguments_def split: if_splits)
  have "parse_args_ok inet_pton (parse_args_init config)"
    by (simp add: parse_args_ok_def parse_args_init_def)
  then have "parse_args_ok inet_pton p"
    using loop action by (auto dest: parse_loop_ok)
  then show ?thesis
    using assms loop action by (auto simp: ff_parse_arguments_def parse_args_ok_def split: option.splits)
qed

definition zero_config :: ff_config where
  "zero_config = \<lparr>port = None, ip_address = None, timestamp_fudge_factor = 0,
     encryption = \<lparr>enc_key = None, pbkdf2_iterations = 0\<rparr>, logging_level = FF_DEBUG, ipv6_v6only = False\<rparr>"

definition sample_argv :: "byte list list" where
  "sample_argv = map (map of_char) [''ff'', ''--port'', ''8080'', ''--timestamp-fudge-factor'', ''5'']"

definition sample_started :: ff_config where
  "sample_started = \<lparr>port = Some (map of_char ''8080''), ip_address = Some default_listen_address,
     timestamp_fudge_factor = 5, encryption = \<lparr>enc_key = None, pbkdf2_iterations = 1000\<rparr>,
     logging_level = FF_ERROR, ipv6_v6only = False\<rparr>"

theorem started_config_well_formed_witness:
  "\<exists>pt addr. port sample_started = Some pt \<and> 0 < atoi pt \<and> atoi pt \<le> 65535 \<and>
    ip_address sample_started = Some addr \<and> (addr = default_listen_address \<or> addr = []) \<and>
    pbkdf2_iterations (encryption sample_started) \<noteq> 0 \<and> timestamp_fudge_factor sample_started \<noteq> 0"
proof -
  have "ff_parse_arguments (\<lambda>v6 a. a = []) zero_config sample_argv = (FF_ACTION_START_PROXY, sample_started)"
    by code_simp
  from started_config_well_formed [OF this] show ?thesis by simp
qed

section \<open>Writing a configuration as arguments\<close>

text \<open>A string literal as an argument.\<close>

definition c_string :: "string \<Rightarrow> byte list" where
  "c_string s = map of_char s"

fun level_args :: "ff_log_type \<Rightarrow> byte list list" where
  "level_args FF_DEBUG = [c_string ''-vvv'']"
| "level_args FF_INFO = [c_string ''-vv'']"
| "level_args FF_WARNING = [c_string ''-v'']"
| "level_args FF_ERROR = []"
| "level_args FF_FATAL = []"

definition config_args :: "byte list \<Rightarrow> byte list \<Rightarrow> ff_config \<Rightarrow> byte list list" where
  "config_args pt addr config =
     [c_string ''ff'', c_string ''--port'', pt, c_string ''--ip-address'', addr,
      c_string ''--pbkdf2-iterations'', decimal (unat (pbkdf2_iterations (encryption config))),
      c_string ''--timestamp-fudge-factor'', decimal (unat (timestamp_fudge_factor config))] @
     (case enc_key (encryption config) of None \<Rightarrow> [] | Some k \<Rightarrow> [c_string ''--pre-shared-key'', k]) @
     (if ipv6_v6only config then [c_string ''--ipv6-v6only''] else []) @
     level_args (logging_level config)"

lemma parse_flag_simps:
  "parse_flag p (c_string ''--port'') = (None, p\<lparr>pa_state := FF_PARSE_ARG_PARSE_PORT\<rparr>)"
  "parse_flag p (c_string ''--ip-address'') = (None, p\<lparr>pa_state := FF_PARSE_ARG_PARSE_IP\<rparr>)"
  "parse_flag p (c_string ''--pbkdf2-iterations'') = (None, p\<lparr>pa_state := FF_PARSE_ARG_PARSE_PBKDF2_ITERATIONS\<rparr>)"
  "parse_flag p (c_string ''--timestamp-fudge-factor'') = (None, p\<lparr>pa_state := FF_PARSE_ARG_PARSE_TIMESTAMP_FUDGE_FACTOR\<rparr>)"
  "parse_flag p (c_string ''--pre-shared-key'') = (None, p\<lparr>pa_state := FF_PARSE_ARG_PARSE_PSK\<rparr>)"
  "parse_flag p (c_string ''--ipv6-v6only'') = (None, p\<lparr>pa_config := (pa_config p)\<lparr>ipv6_v6only := True\<rparr>\<rparr>)"
  "parse_flag p (c_string ''-vvv'') = (None, p\<lparr>pa_level := FF_DEBUG\<rparr>)"
  "parse_flag p (c_string ''-vv'') = (None, p\<lparr>pa_level := FF_INFO\<rparr>)"
  "parse_flag p (c_string ''-v'') = (None, p\<lparr>pa_level := FF_WARNING\<rparr>)"
  by (simp_all add: c_string_def parse_flag_def strcasecmp_eq_def tolower_def)

lemma parse_loop_Cons:
  "parse_arg inet_pton p arg = (None, p') \<Longrightarrow> parse_loop inet_pton p (arg # args) = parse_loop inet_pton p' args"
  by simp

lemma parse_loop_flag:
  "pa_state p = FF_PARSE_ARG_STATE_DEFAULT \<Longrightarrow> parse_flag p arg = (None, p') \<Longrightarrow>
     parse_loop inet_pton p (arg # args) = parse_loop inet_pton p' args"
  by (simp add: parse_arg_def)

lemma parse_values:
  "pa_state p = FF_PARSE_ARG_PARSE_PORT \<Longrightarrow> 0 < atoi a \<Longrightarrow> atoi a \<le> 65535 \<Longrightarrow>
     parse_arg inet_pton p a = (None, p\<lparr>pa_port := Some a, pa_state := FF_PARSE_ARG_STATE_DEFAULT\<rparr>)"
  "pa_state p = FF_PARSE_ARG_PARSE_IP \<Longrightarrow> inet_pton (58 \<in> set a) a \<Longrightarrow>
     parse_arg inet_pton p a = (None, p\<lparr>pa_address := a, pa_state := FF_PARSE_ARG_STATE_DEFAULT\<rparr>)"
  "pa_state p = FF_PARSE_ARG_PARSE_PSK \<Longrightarrow>
     parse_arg inet_pton p a =
       (None, p\<lparr>pa_encryption := (pa_encryption p)\<lparr>enc_key := Some a\<rparr>, pa_state := FF_PARSE_ARG_STATE_DEFAULT\<rparr>)"
  by (simp_all add: parse_arg_def)

lemma parse_iterations:
  assumes "pa_state p = FF_PARSE_ARG_PARSE_PBKDF2_ITERATIONS" and "w \<noteq> 0" "unat w < 2 ^ 31"
  shows "parse_arg inet_pton p (decimal (unat w)) =
    (None, p\<lparr>pa_encryption := (pa_encryption p)\<lparr>pbkdf2_iterations := w\<rparr>, pa_state := FF_PARSE_ARG_STATE_DEFAULT\<rparr>)"
proof -
  have "of_int (atoi (decimal (unat w))) = w" using assms(3) by (simp add: atoi_decimal)
  then show ?thesis using assms(1,2) by (simp add: parse_arg_def Let_def)
qed

lemma parse_fudge:
  assumes "pa_state p = FF_PARSE_ARG_PARSE_TIMESTAMP_FUDGE_FACTOR" and "w \<noteq> 0"
  shows "parse_arg inet_pton p (decimal (unat w)) =
    (None, p\<lparr>pa_fudge := w, pa_state := FF_PARSE_ARG_STATE_DEFAULT\<rparr>)"
proof -
  define n where "n = unat w"
  have n: "n \<le> 65535" "0 < n" using unat_lt_16 [of w] assms(2) by (simp_all add: n_def unat_gt_0)
  have a: "atoi (decimal n) = int n" using n by (intro atoi_decimal) simp
  have w: "(of_int (int n) :: 16 word) = w" by (simp add: n_def)
  show ?thesis
    unfolding n_def [symmetric] using assms(1) n by (simp add: parse_arg_def a w del: of_int_of_nat_eq)
qed

lemma parse_level:
  assumes "pa_state p = FF_PARSE_ARG_STATE_DEFAULT" and "pa_level p = FF_ERROR" and "l \<noteq> FF_FATAL"
  shows "parse_loop inet_pton p (level_args l) = (FF_ACTION_START_PROXY, p\<lparr>pa_level := l\<rparr>)"
  using assms by (cases l) (simp_all add: parse_arg_def parse_flag_simps)

definition writable_config :: "(bool \<Rightarrow> byte list \<Rightarrow> bool) \<Rightarrow> byte list \<Rightarrow> byte list \<Rightarrow> ff_config \<Rightarrow> bool" where
  "writable_config inet_pton pt addr config \<longleftrightarrow>
     port config = Some pt \<and> 0 < atoi pt \<and> atoi pt \<le> 65535 \<and>
     ip_address config = Some addr \<and> inet_pton (58 \<in> set addr) addr \<and>
     pbkdf2_iterations (encryption config) \<noteq> 0 \<and> unat (pbkdf2_iterations (encryption config)) < 2 ^ 31 \<and>
     timestamp_fudge_factor config \<noteq> 0 \<and> logging_level config \<noteq> FF_FATAL"

definition parsed_config :: "byte list \<Rightarrow> byte list \<Rightarrow> ff_config \<Rightarrow> parse_args" where
  "parsed_config pt addr config =
     (parse_args_init zero_config)\<lparr>pa_port := Some pt, pa_address := addr, pa_level := logging_level config,
       pa_encryption := encryption config, pa_fudge := timestamp_fudge_factor config,
       pa_config := zero_config\<lparr>ipv6_v6only := ipv6_v6only config\<rparr>\<rparr>"

lemma parse_loop_config_args:
  assumes "writable_config inet_pton pt addr config"
  shows "parse_loop inet_pton (parse_args_init zero_config) (tl (config_args pt addr config)) =
    (FF_ACTION_START_PROXY, parsed_config pt addr config)"
proof -
  let ?p = "(parsed_config pt addr config)\<lparr>pa_level := FF_ERROR\<rparr>"
  obtain k it where enc: "encryption config = \<lparr>enc_key = k, pbkdf2_iterations = it\<rparr>"
    by (cases "encryption config") auto
  have "parse_loop inet_pton (parse_args_init zero_config) (tl (config_args pt addr config)) =
      parse_loop inet_pton ?p (level_args (logging_level config))"
    using assms enc unfolding writable_config_def
    by (cases k)
      (simp_all add: config_args_def parse_loop_flag parse_flag_simps parse_loop_Cons parse_values parse_iterations
        parse_fudge parse_args_init_def parsed_config_def zero_config_def del: parse_loop.simps)
  also have "\<dots> = (FF_ACTION_START_PROXY, parsed_config pt addr config)"
    using assms by (subst parse_level) (simp_all add: parse_args_init_def parsed_config_def writable_config_def)
  finally show ?thesis .
qed

lemma parse_loop_append:
  "parse_loop inet_pton p args = (FF_ACTION_START_PROXY, p') \<Longrightarrow>
     parse_loop inet_pton p (args @ args') = parse_loop inet_pton p' args'"
  by (induction args arbitrary: p) (auto split: prod.splits option.splits simp: parse_arg_not_start)

lemma started_parsed_config:
  "writable_config inet_pton pt addr config \<Longrightarrow>
     ff_parse_arguments inet_pton zero_config argv = (FF_ACTION_START_PROXY, config)"
  if "parse_loop inet_pton (parse_args_init zero_config) (tl argv) = (FF_ACTION_START_PROXY, p)"
    and "p\<lparr>pa_state := s\<rparr> = (parsed_config pt addr config)\<lparr>pa_state := s\<rparr>"
proof -
  assume ok: "writable_config inet_pton pt addr config"
  from that(2) have "pa_port p = Some pt" "pa_address p = addr" "pa_level p = logging_level config"
    "pa_encryption p = encryption config" "pa_fudge p = timestamp_fudge_factor config"
    "pa_config p = zero_config\<lparr>ipv6_v6only := ipv6_v6only config\<rparr>"
    by (cases p; simp add: parsed_config_def parse_args_init_def)+
  with that(1) ok show ?thesis
    by (simp add: ff_parse_arguments_def zero_config_def writable_config_def)
qed

text \<open>
  C26. Every configuration can be reached. Writing a configuration with a valid port and address,
  PBKDF2 iterations below \<open>2 ^ 31\<close>, a positive timestamp window and a level other than \<open>FATAL\<close> as
  arguments and parsing them starts the proxy with that configuration.
\<close>

theorem config_args_roundtrip:
  assumes "writable_config inet_pton pt addr config"
  shows "ff_parse_arguments inet_pton zero_config (config_args pt addr config) = (FF_ACTION_START_PROXY, config)"
  using started_parsed_config [OF parse_loop_config_args [OF assms] refl assms] .

definition sample_writable :: ff_config where
  "sample_writable = sample_started\<lparr>ipv6_v6only := True, logging_level := FF_INFO,
     encryption := \<lparr>enc_key = Some [65, 66], pbkdf2_iterations = 77\<rparr>\<rparr>"

lemma sample_writable_ok:
  "writable_config (\<lambda>v6 a. \<not> v6) (map of_char ''8080'') default_listen_address sample_writable"
  "writable_config (\<lambda>v6 a. \<not> v6) (map of_char ''8080'') default_listen_address sample_started"
proof -
  have "atoi (map of_char ''8080'') = 8080" by code_simp
  then show "writable_config (\<lambda>v6 a. \<not> v6) (map of_char ''8080'') default_listen_address sample_writable"
    "writable_config (\<lambda>v6 a. \<not> v6) (map of_char ''8080'') default_listen_address sample_started"
    by (simp_all add: writable_config_def sample_writable_def sample_started_def default_listen_address_def)
qed

theorem config_args_roundtrip_witness:
  "ff_parse_arguments (\<lambda>v6 a. \<not> v6) zero_config (config_args (map of_char ''8080'') default_listen_address sample_writable) =
    (FF_ACTION_START_PROXY, sample_writable)"
  by (rule config_args_roundtrip [OF sample_writable_ok(1)])

text \<open>
  C27. A flag without its value is ignored. The loop ends in the state that waits for the value and
  nothing looks at it: if \<open>--pre-shared-key\<close> is the last argument, the proxy starts all the same,
  without a key, so it accepts unencrypted requests.
\<close>

theorem missing_key_value_ignored:
  assumes "writable_config inet_pton pt addr config" and "enc_key (encryption config) = None"
  shows "ff_parse_arguments inet_pton zero_config (config_args pt addr config @ [c_string ''--pre-shared-key'']) =
    (FF_ACTION_START_PROXY, config)"
proof -
  have "parse_loop inet_pton (parse_args_init zero_config) (tl (config_args pt addr config @ [c_string ''--pre-shared-key''])) =
      parse_loop inet_pton (parsed_config pt addr config) [c_string ''--pre-shared-key'']"
    using parse_loop_append [OF parse_loop_config_args [OF assms(1)]] by (simp add: config_args_def)
  also have "\<dots> = (FF_ACTION_START_PROXY, (parsed_config pt addr config)\<lparr>pa_state := FF_PARSE_ARG_PARSE_PSK\<rparr>)"
    by (simp add: parse_arg_def parse_flag_simps parsed_config_def parse_args_init_def)
  finally show ?thesis
    by (rule started_parsed_config [where s = FF_PARSE_ARG_PARSE_PSK, OF _ _ assms(1)]) simp
qed

theorem missing_key_value_ignored_witness:
  "ff_parse_arguments (\<lambda>v6 a. \<not> v6) zero_config
     (config_args (map of_char ''8080'') default_listen_address sample_started @ [c_string ''--pre-shared-key'']) =
    (FF_ACTION_START_PROXY, sample_started)"
  by (rule missing_key_value_ignored [OF sample_writable_ok(2)]) (simp add: sample_started_def)

text \<open>A negative number of iterations is stored as an unsigned one, so only 0 is refused.\<close>

lemma negative_iterations_accepted:
  assumes "pa_state p = FF_PARSE_ARG_PARSE_PBKDF2_ITERATIONS"
  shows "parse_arg inet_pton p (map of_char ''-1'') =
    (None, p\<lparr>pa_encryption := (pa_encryption p)\<lparr>pbkdf2_iterations := 4294967295\<rparr>, pa_state := FF_PARSE_ARG_STATE_DEFAULT\<rparr>)"
proof -
  have "(of_int (atoi (map of_char ''-1'')) :: 32 word) = 4294967295" by code_simp
  then show ?thesis using assms by (simp add: parse_arg_def Let_def)
qed

end
