(* ===== verification/Server.thy ===== *)
theory Server
  imports Http Hash_Table_Spec Config
begin

text \<open>
  The proxy server: \<open>src/server.c\<close> and \<open>src/server_p.h\<close>.

  The state shared by the threads is a record: the table, the heap of requests (an address that was
  freed is unmapped), the receive buffer of the main thread, the worker threads with the call each
  is about to make, and the requests the clean-up thread is about to remove. The table's functions
  hold its mutex, so the threads interleave between calls, not within them. What the workers send
  is recorded in \<open>outbox\<close>. The clock, the network and OpenSSL are in the environment \<open>env\<close>.
\<close>

section \<open>State\<close>

definition FF_PROXY_BUFF_SIZE :: nat where "FF_PROXY_BUFF_SIZE = 2000"
definition FF_PROXY_OLD_REQUEST_THRESHOLD_SECS :: int where "FF_PROXY_OLD_REQUEST_THRESHOLD_SECS = 60"

text \<open>The calls of \<open>ff_proxy_process_request\<close>, in order.\<close>

datatype worker_call =
    Vectorise
  | Decrypt
  | Parse_Options
  | Validate
  | Send
  | Remove_Item
  | Free_Request

record proxy =
  requests :: ff_hash_table
  heap :: "addr \<rightharpoonup> ff_request"
  next_request :: addr
  buffer :: block
  workers :: "(addr \<times> worker_call) list"
  requests_to_remove :: "addr list"
  outbox :: "(transport \<times> byte list) list"

record 'c env =
  env_config :: ff_config
  env_evp :: "'c evp"
  env_pbkdf2 :: pbkdf2
  env_now :: int
  env_net :: net
  env_tls :: tls

definition proxy_init :: "proxy res" where
  "proxy_init =
     res_bind (ff_hash_table_init 16) (\<lambda>table.
     Inr \<lparr>requests = table, heap = Map.empty, next_request = 1, buffer = block_alloc FF_PROXY_BUFF_SIZE,
          workers = [], requests_to_remove = [], outbox = []\<rparr>)"

definition read_request :: "proxy \<Rightarrow> addr \<Rightarrow> ff_request res" where
  "read_request s a =
     (if a = 0 then Inl NullDeref
      else case heap s a of None \<Rightarrow> Inl UseAfterFree | Some request \<Rightarrow> Inr request)"

definition write_request :: "proxy \<Rightarrow> addr \<Rightarrow> ff_request \<Rightarrow> proxy" where
  "write_request s a request = s\<lparr>heap := (heap s)(a \<mapsto> request)\<rparr>"

definition alloc_request :: "proxy \<Rightarrow> ff_request \<Rightarrow> addr \<times> proxy" where
  "alloc_request s request =
     (next_request s, s\<lparr>heap := (heap s)(next_request s \<mapsto> request), next_request := Suc (next_request s)\<rparr>)"

definition free_request :: "proxy \<Rightarrow> addr \<Rightarrow> proxy res" where
  "free_request s a =
     res_bind (read_request s a) (\<lambda>request.
     res_bind (ff_request_free request) (\<lambda>_.
     Inr (s\<lparr>heap := (heap s)(a := None)\<rparr>)))"

definition remove_item :: "proxy \<Rightarrow> 64 word \<Rightarrow> proxy res" where
  "remove_item s i = res_bind (ff_hash_table_remove_item (requests s) i) (\<lambda>table. Inr (s\<lparr>requests := table\<rparr>))"

section \<open>Receiving packets\<close>

text \<open>Lines 169 to 200: what is done with the request after a packet was parsed.\<close>

definition packet_parsed :: "proxy \<Rightarrow> 64 word \<Rightarrow> addr \<Rightarrow> proxy res" where
  "packet_parsed s i a =
     res_bind (read_request s a) (\<lambda>request.
     case state request of
       FF_REQUEST_STATE_RECEIVING_FAIL \<Rightarrow>
         res_bind (if i \<noteq> 0 then remove_item s i else Inr s) (\<lambda>s. free_request s a)
     | FF_REQUEST_STATE_RECEIVED \<Rightarrow> Inr (s\<lparr>workers := workers s @ [(a, Vectorise)]\<rparr>)
     | _ \<Rightarrow> Inr s)"

text \<open>Lines 151 to 159: the request of an id, made when there is none.\<close>

definition lookup_request :: "proxy \<Rightarrow> int \<Rightarrow> sockaddr \<Rightarrow> 64 word \<Rightarrow> (addr \<times> proxy) res" where
  "lookup_request s now src i =
     res_bind (ff_hash_table_get_item (requests s) i) (\<lambda>a.
     if a = 0 then
       let (a, s) = alloc_request s (ff_request_alloc\<lparr>received_at := now, source := take 16 src\<rparr>) in
       res_bind (ff_hash_table_put_item (requests s) i a) (\<lambda>table. Inr (a, s\<lparr>requests := table\<rparr>))
     else Inr (a, s))"

definition ff_proxy_process_incoming_packet ::
  "proxy \<Rightarrow> int \<Rightarrow> sockaddr \<Rightarrow> block \<Rightarrow> 32 word \<Rightarrow> proxy res" where
  "ff_proxy_process_incoming_packet s now src packet_buff buff_len =
     res_bind (ff_request_is_raw_http buff_len packet_buff) (\<lambda>is_raw_http.
     if is_raw_http then
       res_bind (ff_request_parse_chunk ff_request_alloc buff_len packet_buff) (\<lambda>request.
       let (a, s) = alloc_request s request in packet_parsed s 0 a)
     else
       res_bind (ff_request_parse_id buff_len packet_buff) (\<lambda>i.
       if i = 0 then Inr s
       else
         res_bind (lookup_request s now src i) (\<lambda>(a, s).
         res_bind (read_request s a) (\<lambda>request.
         if source request \<noteq> take 16 src then Inr s
         else
           res_bind (ff_request_parse_chunk request buff_len packet_buff) (\<lambda>request.
           packet_parsed (write_request s a request) i a)))))"

text \<open>\<open>recvfrom\<close> stores a datagram at the start of the buffer, cut off at its size.\<close>

definition receive_packet :: "proxy \<Rightarrow> int \<Rightarrow> sockaddr \<Rightarrow> byte list \<Rightarrow> proxy res" where
  "receive_packet s now src bs =
     (let bs = take FF_PROXY_BUFF_SIZE bs in
      res_bind (block_write (buffer s) 0 (bytes bs)) (\<lambda>buff.
      ff_proxy_process_incoming_packet (s\<lparr>buffer := buff\<rparr>) now src buff (of_nat (length bs))))"

section \<open>Processing a request\<close>

definition timestamp_step :: "ff_request_option_node \<Rightarrow> 64 word \<Rightarrow> 64 word res" where
  "timestamp_step node timestamp =
     (if opt_type node = FF_REQUEST_OPTION_TYPE_TIMESTAMP \<and> opt_length node = 8
      then res_bind (load_field (opt_value node) 0 8) (\<lambda>t. Inr (ntohll t))
      else Inr timestamp)"

definition ff_proxy_validate_request_timestamp :: "int \<Rightarrow> ff_request \<Rightarrow> ff_config \<Rightarrow> bool res" where
  "ff_proxy_validate_request_timestamp time request config =
     res_bind (scan_options request (rev [0..<unat (options_length request)]) timestamp_step 0) (\<lambda>timestamp.
     if timestamp = 0 then Inr True
     else
       let now = of_int time;
           diff = (if now > timestamp then now - timestamp else timestamp - now)
       in Inr (diff \<le> ucast (timestamp_fudge_factor config)))"

text \<open>The whole handler. The result is \<open>None\<close> if the destination never answers.\<close>

definition cleanup_request :: "proxy \<Rightarrow> addr \<Rightarrow> proxy res" where
  "cleanup_request s a =
     res_bind (read_request s a) (\<lambda>request.
     res_bind (if request_id request \<noteq> 0 then remove_item s (request_id request) else Inr s) (\<lambda>s.
     free_request s a))"

definition ff_proxy_process_request :: "'c env \<Rightarrow> proxy \<Rightarrow> addr \<Rightarrow> proxy option res" where
  "ff_proxy_process_request env s a =
     res_bind (read_request s a) (\<lambda>request.
     res_bind (ff_request_vectorise_payload request) (\<lambda>request.
     res_bind (ff_decrypt_request (env_evp env) (env_pbkdf2 env) request (encryption (env_config env))) (\<lambda>request.
     if state request \<noteq> FF_REQUEST_STATE_DECRYPTED
     then res_bind (cleanup_request (write_request s a request) a) (\<lambda>s. Inr (Some s))
     else
       res_bind (ff_request_parse_options_from_payload request) (\<lambda>request.
       if state request \<noteq> FF_REQUEST_STATE_PARSED_OPTIONS
       then res_bind (cleanup_request (write_request s a request) a) (\<lambda>s. Inr (Some s))
       else
         res_bind (ff_proxy_validate_request_timestamp (env_now env) request (env_config env)) (\<lambda>valid.
         if \<not> valid
         then res_bind (cleanup_request (write_request s a request) a) (\<lambda>s. Inr (Some s))
         else
           res_bind (ff_http_send_request (env_net env) (env_tls env) request) (\<lambda>r.
           case r of
             None \<Rightarrow> Inr None
           | Some (request, transport, out) \<Rightarrow>
               res_bind (cleanup_request ((write_request s a request)\<lparr>outbox := outbox s @ [(transport, out)]\<rparr>) a)
                 (\<lambda>s. Inr (Some s))))))))"

text \<open>The same handler call by call, as the thread scheduler sees it: the state after a call and the
  next call, if there is one.\<close>

fun worker_step :: "'c env \<Rightarrow> proxy \<Rightarrow> addr \<Rightarrow> worker_call \<Rightarrow> (proxy \<times> worker_call option) option res" where
  "worker_step env s a Vectorise =
     res_bind (read_request s a) (\<lambda>request.
     res_bind (ff_request_vectorise_payload request) (\<lambda>request.
     Inr (Some (write_request s a request, Some Decrypt))))"
| "worker_step env s a Decrypt =
     res_bind (read_request s a) (\<lambda>request.
     res_bind (ff_decrypt_request (env_evp env) (env_pbkdf2 env) request (encryption (env_config env))) (\<lambda>request.
     Inr (Some (write_request s a request,
       Some (if state request = FF_REQUEST_STATE_DECRYPTED then Parse_Options else Remove_Item)))))"
| "worker_step env s a Parse_Options =
     res_bind (read_request s a) (\<lambda>request.
     res_bind (ff_request_parse_options_from_payload request) (\<lambda>request.
     Inr (Some (write_request s a request,
       Some (if state request = FF_REQUEST_STATE_PARSED_OPTIONS then Validate else Remove_Item)))))"
| "worker_step env s a Validate =
     res_bind (read_request s a) (\<lambda>request.
     res_bind (ff_proxy_validate_request_timestamp (env_now env) request (env_config env)) (\<lambda>valid.
     Inr (Some (s, Some (if valid then Send else Remove_Item)))))"
| "worker_step env s a Send =
     res_bind (read_request s a) (\<lambda>request.
     res_bind (ff_http_send_request (env_net env) (env_tls env) request) (\<lambda>r.
     Inr (map_option (\<lambda>(request, transport, out).
       ((write_request s a request)\<lparr>outbox := outbox s @ [(transport, out)]\<rparr>, Some Remove_Item)) r)))"
| "worker_step env s a Remove_Item =
     res_bind (read_request s a) (\<lambda>request.
     res_bind (if request_id request \<noteq> 0 then remove_item s (request_id request) else Inr s) (\<lambda>s.
     Inr (Some (s, Some Free_Request))))"
| "worker_step env s a Free_Request =
     res_bind (free_request s a) (\<lambda>s. Inr (Some (s, None)))"

text \<open>A worker that is not interrupted. It makes at most seven calls.\<close>

fun run_worker :: "nat \<Rightarrow> 'c env \<Rightarrow> proxy \<Rightarrow> addr \<Rightarrow> worker_call \<Rightarrow> proxy option res" where
  "run_worker 0 env s a c = Inl Diverges"
| "run_worker (Suc fuel) env s a c =
     res_bind (worker_step env s a c) (\<lambda>r.
     case r of
       None \<Rightarrow> Inr None
     | Some (s, None) \<Rightarrow> Inr (Some s)
     | Some (s, Some c) \<Rightarrow> run_worker fuel env s a c)"

section \<open>Cleaning up\<close>

definition has_expired :: "int \<Rightarrow> ff_request \<Rightarrow> bool" where
  "has_expired now request \<longleftrightarrow>
     state request = FF_REQUEST_STATE_RECEIVING \<and>
     now - received_at request \<ge> FF_PROXY_OLD_REQUEST_THRESHOLD_SECS"

text \<open>The loop of lines 306 to 315; \<open>n\<close> is the number of elements that were allocated.\<close>

fun scan_expired :: "proxy \<Rightarrow> int \<Rightarrow> nat \<Rightarrow> addr list \<Rightarrow> addr list \<Rightarrow> addr list res" where
  "scan_expired s now n [] found = Inr found"
| "scan_expired s now n (a # items) found =
     res_bind (read_request s a) (\<lambda>request.
     if has_expired now request then
       if length found < n then scan_expired s now n items (found @ [a]) else Inl OutOfBounds
     else scan_expired s now n items found)"

text \<open>One pass is a scan, which holds the mutex from \<open>iterator_init\<close> to \<open>iterator_free\<close>, and then one
  removal after the other.\<close>

definition clean_up_scan :: "proxy \<Rightarrow> int \<Rightarrow> proxy res" where
  "clean_up_scan s now =
     res_bind (table_items (requests s)) (\<lambda>items.
     res_bind (scan_expired s now (unat (ht_length (requests s))) items []) (\<lambda>found.
     Inr (s\<lparr>requests_to_remove := found\<rparr>)))"

definition clean_up_remove :: "addr \<Rightarrow> proxy \<Rightarrow> proxy res" where
  "clean_up_remove a s =
     res_bind (read_request s a) (\<lambda>request.
     res_bind (remove_item s (request_id request)) (\<lambda>s.
     Inr (s\<lparr>requests_to_remove := tl (requests_to_remove s)\<rparr>)))"

definition ff_proxy_clean_up_old_requests :: "proxy \<Rightarrow> int \<Rightarrow> proxy res" where
  "ff_proxy_clean_up_old_requests s now =
     res_bind (clean_up_scan s now) (\<lambda>s. res_fold clean_up_remove (requests_to_remove s) s)"

section \<open>The main thread\<close>

text \<open>The results of successive calls of \<open>recvfrom\<close>: a datagram with its source and the time, or an
  error. The value is that of \<open>ff_proxy_start\<close> when it returns, \<open>None\<close> while the call is blocked.\<close>

datatype receive = Datagram int sockaddr "byte list" | Receive_Error

fun receive_loop :: "proxy \<Rightarrow> receive list \<Rightarrow> (int option \<times> proxy) res" where
  "receive_loop s [] = Inr (None, s)"
| "receive_loop s (Receive_Error # rs) = Inr (Some EXIT_FAILURE, s)"
| "receive_loop s (Datagram now src bs # rs) =
     (if bs = [] then
        res_bind (ff_hash_table_free (requests s)) (\<lambda>table. Inr (Some 0, s\<lparr>requests := table\<rparr>))
      else res_bind (receive_packet s now src bs) (\<lambda>s. receive_loop s rs))"

text \<open>The results of the calls that set the socket up: whether \<open>getaddrinfo\<close> accepts an address and a
  port, \<open>socket\<close> and \<open>bind\<close>. The result of \<open>getaddrinfo\<close> is not checked, and \<open>res\<close> is only set when
  it succeeds; failures of \<open>setsockopt\<close> are only logged.\<close>

record listener =
  getaddrinfo_ok :: "byte list \<Rightarrow> byte list \<Rightarrow> bool"
  listen_socket_ok :: bool
  bind_ok :: bool

definition ff_proxy_start :: "listener \<Rightarrow> ff_config \<Rightarrow> receive list \<Rightarrow> (int option \<times> proxy) res" where
  "ff_proxy_start net config rs =
     res_bind proxy_init (\<lambda>s.
     case (ip_address config, port config) of
       (Some addr, Some pt) \<Rightarrow>
         if \<not> getaddrinfo_ok net addr pt then Inl Uninitialised
         else if \<not> listen_socket_ok net \<or> \<not> bind_ok net then Inr (Some EXIT_FAILURE, s)
         else receive_loop s rs
     | _ \<Rightarrow> Inl NullDeref)"

text \<open>The main program: the exit code, and \<open>None\<close> as long as the server runs.\<close>

definition main :: "(bool \<Rightarrow> byte list \<Rightarrow> bool) \<Rightarrow> listener \<Rightarrow> ff_config \<Rightarrow> byte list list \<Rightarrow> receive list \<Rightarrow> int option res" where
  "main inet_pton net ff_global_config argv rs =
     (case ff_parse_arguments inet_pton ff_global_config argv of
        (FF_ACTION_START_PROXY, config) \<Rightarrow> res_bind (ff_proxy_start net config rs) (\<lambda>(ret, s). Inr ret)
      | (FF_ACTION_PRINT_VERSION, config) \<Rightarrow> Inr (Some 0)
      | (FF_ACTION_PRINT_USAGE, config) \<Rightarrow> Inr (Some 0)
      | (FF_ACTION_INVALID_ARGS, config) \<Rightarrow> Inr (Some EXIT_FAILURE))"

section \<open>Interleaving\<close>

definition work :: "'c env \<Rightarrow> proxy \<Rightarrow> nat \<Rightarrow> proxy res" where
  "work env s k =
     (let (a, c) = workers s ! k in
      res_bind (worker_step env s a c) (\<lambda>r.
      case r of
        None \<Rightarrow> Inr s
      | Some (s, Some c) \<Rightarrow> Inr (s\<lparr>workers := (workers s)[k := (a, c)]\<rparr>)
      | Some (s, None) \<Rightarrow> Inr (s\<lparr>workers := take k (workers s) @ drop (Suc k) (workers s)\<rparr>)))"

text \<open>A step of the system: the main thread handles a datagram, a worker makes its next call, or the
  clean-up thread scans the table or removes one request.\<close>

inductive proxy_step :: "('c env \<Rightarrow> bool) \<Rightarrow> proxy \<Rightarrow> proxy res \<Rightarrow> bool" for envs where
  packet: "bs \<noteq> [] \<Longrightarrow> proxy_step envs s (receive_packet s now src bs)"
| work: "envs env \<Longrightarrow> k < length (workers s) \<Longrightarrow> proxy_step envs s (work env s k)"
| scan: "requests_to_remove s = [] \<Longrightarrow> proxy_step envs s (clean_up_scan s now)"
| clean: "requests_to_remove s = a # as \<Longrightarrow> proxy_step envs s (clean_up_remove a s)"

inductive reachable :: "('c env \<Rightarrow> bool) \<Rightarrow> proxy \<Rightarrow> bool" for envs where
  start: "proxy_init = Inr s \<Longrightarrow> reachable envs s"
| step: "reachable envs s \<Longrightarrow> proxy_step envs s (Inr t) \<Longrightarrow> reachable envs t"

end
