(* ===== verification/Http_Host.thy ===== *)
theory Http_Host
  imports Http
begin

text \<open>
  The search for the Host header: which host it finds in a well-formed request, that a host name
  of 256 or more characters overflows its buffer, and that a request without a Host header is
  read past its end.
\<close>

section \<open>Stepping through a request\<close>

text \<open>A line of a request, without its newline.\<close>

definition line_ok :: "byte list \<Rightarrow> bool" where
  "line_ok l \<longleftrightarrow> 10 \<notin> set l \<and> 0 \<notin> set l"

definition host_prefix :: "byte list \<Rightarrow> bool" where
  "host_prefix l \<longleftrightarrow> map tolower (take 5 l) = map of_char ''host:''"

lemma consume_char_bytes:
  assumes "i + x < length bs" and "bs ! (i + x) \<noteq> 0" and "i + x < 8096" and "i + x \<le> n"
  shows "consume_char (bytes bs @ rest) n i x = Inr (Some (i + x))"
  using assms by (simp add: consume_char_def Let_def block_read_bytes FF_HTTP_HOST_HEADER_MAX_SEARCH_LENGTH_def)

lemma skip_line_bytes:
  assumes "line_ok l" and "length pre + length l < 8096" and "length pre + length l \<le> n"
  shows "skip_line (bytes (pre @ l @ 10 # post) @ rest) n (length pre) = Inr (Some (length pre + length l))"
  using assms
proof (induction l arbitrary: pre)
  case Nil
  have "block_read (bytes (pre @ 10 # post) @ rest) (length pre) = Inr 10"
    by (subst block_read_bytes) simp_all
  then show ?case by (subst skip_line.simps) simp
next
  case (Cons c l)
  let ?bs = "pre @ (c # l) @ 10 # post"
  have here: "block_read (bytes ?bs @ rest) (length pre) = Inr c"
    by (subst block_read_bytes) simp_all
  have "?bs ! (length pre + 1) = (l @ 10 # post) ! 0"
    by (simp add: nth_append)
  moreover have "(l @ 10 # post) ! 0 \<noteq> 0"
    using Cons.prems(1) by (cases l) (auto simp: line_ok_def)
  ultimately have nx: "consume_char (bytes ?bs @ rest) n (length pre) 1 = Inr (Some (length pre + 1))"
    using Cons.prems by (intro consume_char_bytes) simp_all
  have "c \<noteq> 10" using Cons.prems(1) by (auto simp: line_ok_def)
  moreover have "skip_line (bytes ((pre @ [c]) @ l @ 10 # post) @ rest) n (length (pre @ [c]))
      = Inr (Some (length (pre @ [c]) + length l))"
    using Cons.prems by (intro Cons.IH) (auto simp: line_ok_def)
  ultimately show ?case
    using here nx by (subst skip_line.simps) simp
qed

lemma strncasecmp_bytes:
  "i + length s \<le> length bs \<Longrightarrow>
     strncasecmp_eq s (bytes bs @ rest) i = Inr (map tolower (take (length s) (drop i bs)) = map of_char s)"
proof (induction s arbitrary: i)
  case Nil
  then show ?case by simp
next
  case (Cons c s)
  then have "drop i bs = bs ! i # drop (Suc i) bs"
    by (simp add: Cons_nth_drop_Suc)
  with Cons show ?case by (simp add: block_read_bytes)
qed

lemma strncasecmp_host:
  assumes "i + 5 \<le> length bs"
  shows "strncasecmp_eq ''host:'' (bytes bs @ rest) i = Inr (host_prefix (drop i bs))"
proof -
  have len: "length ''host:'' = 5" by simp
  show ?thesis
    using strncasecmp_bytes [of i "''host:''" bs rest] assms unfolding len host_prefix_def by blast
qed

lemma host_prefix_line:
  assumes "\<not> host_prefix l"
  shows "\<not> host_prefix (l @ 10 # post)"
proof (cases "5 \<le> length l")
  case True
  then show ?thesis using assms by (simp add: host_prefix_def)
next
  case False
  have "tolower 10 = 10" by (simp add: tolower_def)
  moreover have "10 \<in> set (take 5 (l @ 10 # post))"
    using False by (cases "5 - length l") auto
  ultimately have "10 \<in> set (map tolower (take 5 (l @ 10 # post)))"
    by (metis image_eqI set_map)
  moreover have "(10 :: byte) \<notin> set (map of_char ''host:'')" by simp
  ultimately show ?thesis unfolding host_prefix_def by metis
qed

text \<open>The lines before the Host header: none is a Host header, and none after the first is empty.\<close>

definition other_line :: "bool \<Rightarrow> byte list \<Rightarrow> bool" where
  "other_line first l \<longleftrightarrow> line_ok l \<and> \<not> host_prefix l \<and> (first \<or> l \<noteq> [] \<and> l \<noteq> [13])"

lemma end_of_headers_line:
  assumes "other_line (pre = []) l"
  shows "end_of_headers (bytes (pre @ l @ 10 # post) @ rest) n (length pre) = Inr False"
proof (cases "pre = []")
  case True
  then show ?thesis by (simp add: end_of_headers_def)
next
  case False
  with assms obtain c l' where l: "l = c # l'" "c \<noteq> 10" "c = 13 \<longrightarrow> l' \<noteq> []" "10 \<notin> set l'"
    by (cases l) (auto simp: other_line_def line_ok_def)
  let ?bs = "pre @ l @ 10 # post"
  have "block_read (bytes ?bs @ rest) (length pre) = Inr c"
    using l by (subst block_read_bytes) simp_all
  moreover have "block_read (bytes ?bs @ rest) (Suc (length pre)) = Inr (hd l')" if "l' \<noteq> []"
    using l that by (subst block_read_bytes) (auto simp: nth_append hd_conv_nth)
  moreover have "l' \<noteq> [] \<Longrightarrow> hd l' \<noteq> 10" using l(4) by (cases l') auto
  ultimately show ?thesis
    using l by (auto simp: end_of_headers_def)
qed

lemma find_host_other_line:
  assumes l: "other_line (pre = []) l"
    and n: "n = length (pre @ l @ 10 # post)" "n < 2 ^ 64" and lim: "length pre + length l < 8096"
  shows "find_host (bytes (pre @ l @ 10 # post) @ rest) (of_nat n) (length pre) =
    res_bind (consume_char (bytes (pre @ l @ 10 # post) @ rest) n (length pre + length l) 1) (\<lambda>r.
      case r of None \<Rightarrow> Inr None | Some i \<Rightarrow> find_host (bytes (pre @ l @ 10 # post) @ rest) (of_nat n) i)"
proof -
  let ?bs = "pre @ l @ 10 # post"
  have un: "unat (of_nat n :: 64 word) = n" using n(2) by (intro unat_of_nat_64) simp
  have found: "(if (of_nat n :: 64 word) - of_nat (length pre) > 5
      then strncasecmp_eq ''host:'' (bytes ?bs @ rest) (length pre) else Inr False) = Inr False"
  proof (cases "(of_nat n :: 64 word) - of_nat (length pre) > 5")
    case True
    have "unat ((of_nat n :: 64 word) - of_nat (length pre)) = n - length pre"
      using n un by (subst unat_sub) (simp_all add: word_le_nat_alt unat_of_nat)
    then have len: "length pre + 5 \<le> length ?bs"
      using True n(1) by (simp add: word_less_nat_alt)
    have "\<not> host_prefix (l @ 10 # post)"
      using host_prefix_line l by (simp add: other_line_def)
    then have "strncasecmp_eq ''host:'' (bytes ?bs @ rest) (length pre) = Inr False"
      using strncasecmp_host [OF len, of rest] by (simp del: strncasecmp_eq.simps bytes_simps)
    then show ?thesis by (simp del: strncasecmp_eq.simps bytes_simps)
  qed simp
  have skip: "skip_line (bytes ?bs @ rest) n (length pre) = Inr (Some (length pre + length l))"
    using l lim n(1) by (intro skip_line_bytes) (simp_all add: other_line_def)
  show ?thesis
    by (subst find_host.simps)
      (simp only: end_of_headers_line [OF l] found un skip res_bind_simps if_False option.case)
qed

lemma find_host_line:
  assumes l: "other_line (pre = []) l" and post: "post \<noteq> []" "hd post \<noteq> 0"
    and n: "n = length (pre @ l @ 10 # post)" "n < 2 ^ 64" and lim: "Suc (length pre + length l) < 8096"
  shows "find_host (bytes (pre @ l @ 10 # post) @ rest) (of_nat n) (length pre) =
    find_host (bytes (pre @ l @ 10 # post) @ rest) (of_nat n) (Suc (length pre + length l))"
proof -
  let ?bs = "pre @ l @ 10 # post"
  have "?bs ! (length pre + length l + 1) = hd post"
    using post(1) by (simp add: nth_append hd_conv_nth)
  then have "consume_char (bytes ?bs @ rest) n (length pre + length l) 1 = Inr (Some (length pre + length l + 1))"
    using post n(1) lim by (intro consume_char_bytes) auto
  then show ?thesis
    using find_host_other_line [OF l n, of rest] lim by simp
qed

text \<open>All the lines before the Host header.\<close>

definition text_of :: "byte list list \<Rightarrow> byte list" where
  "text_of ls = concat (map (\<lambda>l. l @ [10]) ls)"

lemma text_of_simps [simp]: "text_of [] = []" "text_of (l # ls) = l @ 10 # text_of ls"
  by (simp_all add: text_of_def)

lemma find_host_lines:
  assumes "pre = [] \<longrightarrow> ls = [] \<or> other_line True (hd ls)" and "list_all (other_line False) (if pre = [] then tl ls else ls)"
    and "post \<noteq> []" "hd post \<noteq> 0" and "list_all line_ok ls"
    and "n = length (pre @ text_of ls @ post)" "n < 2 ^ 64" and "length pre + length (text_of ls) < 8096"
  shows "find_host (bytes (pre @ text_of ls @ post) @ rest) (of_nat n) (length pre) =
    find_host (bytes (pre @ text_of ls @ post) @ rest) (of_nat n) (length pre + length (text_of ls))"
  using assms
proof (induction ls arbitrary: pre)
  case Nil
  then show ?case by simp
next
  case (Cons l ls)
  let ?post = "text_of ls @ post"
  have l: "other_line (pre = []) l" using Cons.prems(1,2) by (auto split: if_splits)
  have post: "?post \<noteq> []" "hd ?post \<noteq> 0"
  proof -
    show "?post \<noteq> []" using Cons.prems(3) by simp
    show "hd ?post \<noteq> 0"
    proof (cases ls)
      case Nil
      then show ?thesis using Cons.prems(3,4) by simp
    next
      case (Cons l' ls')
      then have "line_ok l'" using Cons.prems(5) by simp
      then show ?thesis using Cons by (cases l') (auto simp: line_ok_def)
    qed
  qed
  have "find_host (bytes (pre @ l @ 10 # ?post) @ rest) (of_nat n) (length pre) =
      find_host (bytes (pre @ l @ 10 # ?post) @ rest) (of_nat n) (Suc (length pre + length l))"
    using Cons.prems by (intro find_host_line [OF l post]) simp_all
  moreover have "find_host (bytes ((pre @ l @ [10]) @ text_of ls @ post) @ rest) (of_nat n) (length (pre @ l @ [10])) =
      find_host (bytes ((pre @ l @ [10]) @ text_of ls @ post) @ rest) (of_nat n) (length (pre @ l @ [10]) + length (text_of ls))"
    using Cons.prems by (intro Cons.IH) (auto split: if_splits)
  ultimately show ?case by (simp add: add.assoc)
qed

section \<open>The header line\<close>

lemma skip_spaces_bytes:
  assumes "c \<noteq> 32" "c \<noteq> 0" and "length pre + k < 8096" and "length pre + k \<le> n"
  shows "skip_spaces (bytes (pre @ replicate k 32 @ c # post) @ rest) n (length pre) = Inr (Some (length pre + k))"
  using assms
proof (induction k arbitrary: pre)
  case 0
  have "block_read (bytes (pre @ c # post) @ rest) (length pre) = Inr c"
    by (subst block_read_bytes) simp_all
  then show ?case using 0(1) by (subst skip_spaces.simps) simp
next
  case (Suc k)
  let ?bs = "pre @ 32 # replicate k 32 @ c # post"
  have here: "block_read (bytes ?bs @ rest) (length pre) = Inr 32"
    by (subst block_read_bytes) simp_all
  have "?bs ! (length pre + 1) = (replicate k 32 @ c # post) ! 0"
    by (simp add: nth_append)
  moreover have "(replicate k 32 @ c # post) ! 0 \<noteq> 0"
    using Suc.prems by (cases k) auto
  ultimately have nx: "consume_char (bytes ?bs @ rest) n (length pre) 1 = Inr (Some (length pre + 1))"
    using Suc.prems by (intro consume_char_bytes) simp_all
  have "skip_spaces (bytes ((pre @ [32]) @ replicate k 32 @ c # post) @ rest) n (length (pre @ [32]))
      = Inr (Some (length (pre @ [32]) + k))"
    using Suc.prems by (intro Suc.IH) auto
  then show ?case
    using here nx by (subst skip_spaces.simps) simp
qed

lemma host_char_nonzero: "host_char b \<Longrightarrow> b \<noteq> 32 \<and> b \<noteq> 0"
  by (auto simp: host_char_def isalnum_def)

text \<open>The copy of the host name: up to 256 characters are written.\<close>

lemma host_loop_bytes:
  assumes "list_all host_char host" and "length cp + length host = m" and "m \<le> 256"
    and "m = 256 \<or> \<not> host_char c" and "length pre + length host \<le> n" and "length cells = 256 - length cp"
  shows "host_loop (bytes (pre @ host @ c # post) @ rest) n (length pre) (bytes cp @ cells) (length cp) =
    Inr (bytes (cp @ host) @ drop (length host) cells, m)"
  using assms
proof (induction host arbitrary: pre cp cells)
  case Nil
  have "block_read (bytes (pre @ c # post) @ rest) (length pre) = Inr c"
    by (subst block_read_bytes) simp_all
  then show ?case using Nil by (subst host_loop.simps) auto
next
  case (Cons d host)
  let ?bs = "pre @ (d # host) @ c # post"
  have here: "block_read (bytes ?bs @ rest) (length pre) = Inr d"
    by (subst block_read_bytes) simp_all
  obtain x cells' where cells: "cells = x # cells'" using Cons.prems by (cases cells) auto
  have wr: "block_write (bytes cp @ cells) (length cp) [Some d] = Inr (bytes (cp @ [d]) @ cells')"
    using cells by (simp add: block_write_def)
  have "host_loop (bytes ((pre @ [d]) @ host @ c # post) @ rest) n (length (pre @ [d])) (bytes (cp @ [d]) @ cells') (length (cp @ [d])) =
      Inr (bytes ((cp @ [d]) @ host) @ drop (length host) cells', m)"
    using Cons.prems cells by (intro Cons.IH) auto
  moreover have "host_char d" "length cp \<le> 255" "length pre \<le> n" using Cons.prems by auto
  ultimately show ?case
    using here wr cells by (subst host_loop.simps) simp
qed

lemma find_host_start:
  assumes name: "map tolower name = map of_char ''host:''"
    and n: "n = length (pre @ name @ c # post)" "n < 2 ^ 64"
  shows "find_host (bytes (pre @ name @ c # post) @ rest) (of_nat n) (length pre) =
    read_host (bytes (pre @ name @ c # post) @ rest) n (length pre)"
proof -
  let ?bs = "pre @ name @ c # post"
  have len: "length name = 5" using arg_cong [OF name, of length] by simp
  have un: "unat (of_nat n :: 64 word) = n" using n(2) by (intro unat_of_nat_64) simp
  have "unat ((of_nat n :: 64 word) - of_nat (length pre)) = n - length pre"
    using n un by (subst unat_sub) (simp_all add: word_le_nat_alt unat_of_nat)
  then have more: "(of_nat n :: 64 word) - of_nat (length pre) > 5"
    using n(1) len by (simp add: word_less_nat_alt)
  obtain d name' where d: "name = d # name'" using len by (cases name) auto
  have "tolower d = 104" using name d by simp
  then have d': "d \<noteq> 10" "d \<noteq> 13" by (auto simp: tolower_def)
  have "block_read (bytes ?bs @ rest) (length pre) = Inr d"
    using d by (subst block_read_bytes) simp_all
  then have 1: "end_of_headers (bytes ?bs @ rest) (of_nat n) (length pre) = Inr False"
    using d' by (simp add: end_of_headers_def)
  have 2: "strncasecmp_eq ''host:'' (bytes ?bs @ rest) (length pre) = Inr True"
  proof -
    have "length pre + 5 \<le> length ?bs" using len by simp
    then have "strncasecmp_eq ''host:'' (bytes ?bs @ rest) (length pre) = Inr (host_prefix (drop (length pre) ?bs))"
      by (rule strncasecmp_host)
    moreover have "host_prefix (drop (length pre) ?bs)"
      using name len by (simp add: host_prefix_def)
    ultimately show ?thesis by (simp only:)
  qed
  show ?thesis
    by (subst find_host.simps)
      (simp only: 1 2 if_P [OF more] un res_bind_simps if_False if_True)
qed

lemma read_host_bytes:
  assumes name: "length name = 5" and d: "e = c # post" "c \<noteq> 32" "c \<noteq> 0"
    and lim: "length pre + 5 + k < 8096" and n: "length pre + 5 + k \<le> n"
  shows "read_host (bytes (pre @ name @ replicate k 32 @ e) @ rest) n (length pre) =
    res_bind (host_loop (bytes ((pre @ name @ replicate k 32) @ e) @ rest) n (length (pre @ name @ replicate k 32))
      (block_alloc host_name_size) 0) (\<lambda>(host_name, host_len).
    res_bind (block_write host_name host_len [Some 0]) (\<lambda>host_name.
    res_bind (block_reads host_name 0 host_len) (\<lambda>host. Inr (Some host))))"
proof -
  let ?bs = "pre @ name @ replicate k 32 @ e"
  have "?bs ! (length pre + 5) = (replicate k 32 @ e) ! 0"
    using name by (simp add: nth_append)
  moreover have "(replicate k 32 @ e) ! 0 \<noteq> 0"
    using d by (cases k) auto
  ultimately have 1: "consume_char (bytes ?bs @ rest) n (length pre) 5 = Inr (Some (length pre + 5))"
    using lim n name d(1) by (intro consume_char_bytes) simp_all
  have 2: "skip_spaces (bytes ((pre @ name) @ replicate k 32 @ c # post) @ rest) n (length (pre @ name))
      = Inr (Some (length (pre @ name) + k))"
    using d(2,3) lim n name by (intro skip_spaces_bytes) auto
  show ?thesis
    using 1 2 name d(1) by (simp add: read_host_def add.assoc)
qed

lemma read_host_short:
  assumes name: "length name = 5" and host: "list_all host_char host" "length host \<le> 255"
    and c: "\<not> host_char c" "host = [] \<longrightarrow> c \<noteq> 32 \<and> c \<noteq> 0"
    and lim: "length pre + 5 + k < 8096" and n: "length pre + 5 + k + length host \<le> n"
  shows "read_host (bytes (pre @ name @ replicate k 32 @ host @ c # post) @ rest) n (length pre) = Inr (Some host)"
proof -
  let ?pre = "pre @ name @ replicate k 32"
  obtain d e where d: "host @ c # post = d # e" "d \<noteq> 32" "d \<noteq> 0"
    using host(1) c(2) by (cases host) (auto dest: host_char_nonzero)
  have loop: "host_loop (bytes (?pre @ host @ c # post) @ rest) n (length ?pre) (bytes [] @ block_alloc 256) (length ([] :: byte list)) =
      Inr (bytes ([] @ host) @ drop (length host) (block_alloc 256), length host)"
    using host c n name by (intro host_loop_bytes) (auto simp: block_alloc_def)
  have "length host < 256" using host(2) by simp
  then have "block_write (bytes host @ drop (length host) (block_alloc 256)) (length host) [Some 0] =
      Inr (bytes host @ Some 0 # drop (Suc (length host)) (block_alloc 256))"
    by (simp add: block_write_def block_alloc_def)
  moreover have "block_reads (bytes host @ Some 0 # drop (Suc (length host)) (block_alloc 256)) 0 (length host) = Inr host"
    by (simp add: block_reads_bytes)
  ultimately show ?thesis
    using loop lim n by (subst read_host_bytes [OF name d]) (simp_all add: host_name_size_def)
qed

lemma read_host_long:
  assumes name: "length name = 5" and host: "list_all host_char host" "256 \<le> length host"
    and lim: "length pre + 5 + k < 8096" and n: "length pre + 5 + k + length host \<le> n"
  shows "read_host (bytes (pre @ name @ replicate k 32 @ host @ c # post) @ rest) n (length pre) = Inl OutOfBounds"
proof -
  let ?pre = "pre @ name @ replicate k 32" and ?host = "take 256 host"
  obtain d e where d: "host @ c # post = d # e" "d \<noteq> 32" "d \<noteq> 0"
    using host by (cases host) (auto dest: host_char_nonzero)
  obtain c' post' where c': "drop 256 host @ c # post = c' # post'"
    by (cases "drop 256 host @ c # post") auto
  have "list_all host_char ?host" using host(1) by (auto simp: list_all_iff dest: in_set_takeD)
  then have "host_loop (bytes (?pre @ ?host @ c' # post') @ rest) n (length ?pre) (bytes [] @ block_alloc 256) (length ([] :: byte list)) =
      Inr (bytes ([] @ ?host) @ drop (length ?host) (block_alloc 256), 256)"
    using host(2) n name by (intro host_loop_bytes) (auto simp: block_alloc_def)
  moreover have "?host @ c' # post' = host @ c # post"
    unfolding c' [symmetric] by (simp flip: append_assoc)
  ultimately have loop: "host_loop (bytes (?pre @ host @ c # post) @ rest) n (length ?pre) (block_alloc 256) 0 =
      Inr (bytes ?host @ drop (length ?host) (block_alloc 256), 256)"
    by simp
  have "block_write (bytes ?host @ drop (length ?host) (block_alloc 256)) 256 [Some 0] = Inl OutOfBounds"
    using host(2) by (simp add: block_write_def block_alloc_def)
  then show ?thesis
    using loop lim n by (subst read_host_bytes [OF name d]) (simp_all add: host_name_size_def)
qed

section \<open>Whole requests\<close>

definition header_lines :: "byte list list \<Rightarrow> bool" where
  "header_lines ls \<longleftrightarrow> (ls = [] \<or> other_line True (hd ls)) \<and> list_all (other_line False) (tl ls)"

lemma header_lines_ok: "header_lines ls \<Longrightarrow> list_all line_ok ls"
  by (cases ls) (auto simp: header_lines_def other_line_def list_all_iff)

text \<open>The search in a request whose first lines are \<open>ls\<close> and whose next line is a Host header.\<close>

lemma destination_host_header:
  assumes ls: "header_lines ls" and name: "map tolower name = map of_char ''host:''" and e: "e \<noteq> []"
    and pay: "holds_payload request (text_of ls @ name @ e)"
    and len: "payload_length request = of_nat (length (text_of ls @ name @ e))"
    and lim: "length (text_of ls) < 8096"
  shows "\<exists>rest. ff_http_get_destination_host request =
    read_host (bytes (text_of ls @ name @ e) @ rest) (length (text_of ls @ name @ e)) (length (text_of ls))"
proof -
  let ?bs = "text_of ls @ name @ e"
  obtain node rest where node: "payload request = [node]" "pl_live node" "unat (pl_length node) = length ?bs"
      "pl_value node = bytes ?bs @ rest"
    using pay by (auto simp: holds_payload_def)
  have small: "length ?bs < 2 ^ 64" using unat_lt_16 [of "pl_length node"] node(3) by simp
  obtain c post where c: "e = c # post" using e by (cases e) auto
  obtain d name' where d: "name = d # name'" using name by (cases name) auto
  have "tolower d = 104" using name d by simp
  then have "d \<noteq> 0" by (auto simp: tolower_def)
  then have "find_host (bytes ([] @ text_of ls @ (name @ e)) @ rest) (of_nat (length ?bs)) (length ([] :: byte list)) =
      find_host (bytes ([] @ text_of ls @ (name @ e)) @ rest) (of_nat (length ?bs)) (length ([] :: byte list) + length (text_of ls))"
    using ls small lim d header_lines_ok [OF ls] by (intro find_host_lines) (auto simp: header_lines_def simp del: of_nat_add)
  moreover have "find_host (bytes (text_of ls @ name @ c # post) @ rest) (of_nat (length ?bs)) (length (text_of ls)) =
      read_host (bytes (text_of ls @ name @ c # post) @ rest) (length ?bs) (length (text_of ls))"
    using small c by (intro find_host_start [OF name]) auto
  ultimately have *: "find_host (bytes ?bs @ rest) (of_nat (length ?bs)) 0 =
      read_host (bytes ?bs @ rest) (length ?bs) (length (text_of ls))"
    using c by (simp del: of_nat_add of_nat_Suc)
  have "payload_length request \<noteq> 0"
    using small d unfolding len by (metis unat_of_nat_64 unat_0 length_0_conv append_is_Nil_conv list.distinct(1))
  then show ?thesis
    using node * len by (intro exI [of _ rest]) (simp add: ff_http_get_destination_host_def)
qed

lemma destination_host_short:
  assumes "header_lines ls" and "map tolower name = map of_char ''host:''"
    and "list_all host_char host" "length host \<le> 255" "host \<noteq> []" "\<not> host_char c"
    and "holds_payload request (text_of ls @ name @ replicate k 32 @ host @ c # post)"
    and "payload_length request = of_nat (length (text_of ls @ name @ replicate k 32 @ host @ c # post))"
    and "length (text_of ls) + 5 + k < 8096"
  shows "ff_http_get_destination_host request = Inr (Some host)"
proof -
  have len: "length name = 5" using arg_cong [OF assms(2), of length] by simp
  obtain rest where "ff_http_get_destination_host request =
      read_host (bytes (text_of ls @ name @ replicate k 32 @ host @ c # post) @ rest)
        (length (text_of ls @ name @ replicate k 32 @ host @ c # post)) (length (text_of ls))"
    using destination_host_header [OF assms(1,2) _ assms(7,8)] assms(9) by auto
  also have "\<dots> = Inr (Some host)"
    using assms len by (intro read_host_short) auto
  finally show ?thesis .
qed


text \<open>A request with a given payload and no options.\<close>

definition request_of :: "byte list \<Rightarrow> ff_request" where
  "request_of bs = ff_request_alloc\<lparr>payload_length := of_nat (length bs),
     payload := [\<lparr>pl_offset = 0, pl_length = of_nat (length bs), pl_value = bytes bs, pl_live = True\<rparr>]\<rparr>"

lemma holds_request_of: "length bs < 2 ^ 16 \<Longrightarrow> holds_payload (request_of bs) bs"
  by (simp add: request_of_def holds_payload_def unat_of_nat_16)

lemma request_of_simps [simp]:
  "payload_length (request_of bs) = of_nat (length bs)" "options (request_of bs) = []" "options_length (request_of bs) = 0"
  by (simp_all add: request_of_def ff_request_alloc_def)

text \<open>\<open>GET / HTTP/1.1\<close> and \<open>HOST:\<close>.\<close>

definition sample_lines :: "byte list list" where
  "sample_lines = [map of_char ''GET / HTTP/1.1'' @ [13]]"

definition sample_name :: "byte list" where
  "sample_name = map of_char ''HOST:''"

lemma sample_header:
  "header_lines sample_lines" "map tolower sample_name = map of_char ''host:''"
  "length (text_of sample_lines) = 16" "length sample_name = 5"
  by code_simp+


text \<open>
  C19. A long host name overflows its buffer. The copy loop stops at 256 characters, the buffer has
  256 bytes, and the terminator is written after the characters: a Host header with 256 or more
  host name characters makes \<open>ff_http_get_destination_host\<close> write past the end of \<open>host_name\<close>.
\<close>

theorem long_host_heap_overflow:
  assumes "header_lines ls" and "map tolower name = map of_char ''host:''"
    and "list_all host_char host" "256 \<le> length host"
    and "holds_payload request (text_of ls @ name @ replicate k 32 @ host @ c # post)"
    and "payload_length request = of_nat (length (text_of ls @ name @ replicate k 32 @ host @ c # post))"
    and "length (text_of ls) + 5 + k < 8096"
  shows "ff_http_get_destination_host request = Inl OutOfBounds"
proof -
  have len: "length name = 5" using arg_cong [OF assms(2), of length] by simp
  obtain rest where "ff_http_get_destination_host request =
      read_host (bytes (text_of ls @ name @ replicate k 32 @ host @ c # post) @ rest)
        (length (text_of ls @ name @ replicate k 32 @ host @ c # post)) (length (text_of ls))"
    using destination_host_header [OF assms(1,2) _ assms(5,6)] assms(4,7) by auto
  also have "\<dots> = Inl OutOfBounds"
    using assms len by (intro read_host_long) auto
  finally show ?thesis .
qed

theorem long_host_heap_overflow_witness:
  "ff_http_get_destination_host (request_of (text_of sample_lines @ sample_name @ replicate 0 32 @
     replicate 256 97 @ 13 # [10])) = Inl OutOfBounds"
proof (rule long_host_heap_overflow [where k = 0 and c = 13 and post = "[10]", OF sample_header(1,2)])
  show "list_all host_char (replicate 256 97)" by (simp add: list_all_iff host_char_def isalnum_def)
qed (simp_all add: sample_header holds_request_of)

text \<open>
  C20. A request without a Host header is read past its end. If all lines of the payload are header
  lines other than Host, with no empty line after them, the search steps to the index
  \<open>payload_length\<close>, which its guard allows, and reads the byte after the payload: outside the
  buffer if it was made by \<open>ff_request_vectorise_payload\<close>, which allocates exactly the payload, and
  uninitialised memory if it was made by \<open>ff_request_payload_load_buff\<close>, which allocates more.
\<close>

theorem missing_host_reads_past_end:
  assumes "header_lines ls" "ls \<noteq> []" and "length (text_of ls) \<le> 8096"
    and "payload request = [node]" "pl_live node" "pl_value node = bytes (text_of ls) @ rest" "rest = [] \<or> hd rest = None"
    and "payload_length request = of_nat (length (text_of ls))"
  shows "ff_http_get_destination_host request = Inl (if rest = [] then OutOfBounds else Uninitialised)"
proof -
  let ?e = "if rest = [] then OutOfBounds else Uninitialised"
  obtain ls' l where ls: "ls = ls' @ [l]" using assms(2) by (cases ls rule: rev_cases) auto
  let ?bs = "text_of ls' @ l @ [10]" and ?n = "length (text_of ls)"
  have bs: "text_of ls = ?bs" by (simp add: ls text_of_def)
  have other: "other_line (text_of ls' = []) l" and ls': "header_lines ls'"
    using assms(1) unfolding ls by (cases ls'; auto simp: header_lines_def other_line_def text_of_def)+
  have l: "length (text_of ls') + length l < 8096" "?n < 2 ^ 64" using assms(3) bs by simp_all
  have hd: "hd (l @ [10]) \<noteq> 0" using other by (cases l) (auto simp: other_line_def line_ok_def)
  have start: "find_host (bytes ?bs @ rest) (of_nat ?n) 0 = find_host (bytes ?bs @ rest) (of_nat ?n) (length (text_of ls'))"
  proof -
    have "find_host (bytes ([] @ text_of ls' @ (l @ [10])) @ rest) (of_nat ?n) (length ([] :: byte list)) =
      find_host (bytes ([] @ text_of ls' @ (l @ [10])) @ rest) (of_nat ?n) (length ([] :: byte list) + length (text_of ls'))"
      using ls' header_lines_ok [OF ls'] l hd bs
      by (intro find_host_lines) (auto simp: header_lines_def simp del: of_nat_add hd_append2)
    then show ?thesis by simp
  qed
  have "consume_char (bytes ?bs @ rest) ?n (length (text_of ls') + length l) 1 = Inl ?e"
    using bs assms(7) by (cases rest) (simp_all add: consume_char_def block_read_def nth_append)
  then have "find_host (bytes ?bs @ rest) (of_nat ?n) (length (text_of ls')) = Inl ?e"
    using find_host_other_line [OF other _ l(2,1), of "[]" rest] bs by (simp del: of_nat_add of_nat_Suc)
  moreover have "payload_length request \<noteq> 0"
    using l(2) bs unfolding assms(8) by (metis unat_of_nat_64 unat_0 length_0_conv append_is_Nil_conv list.distinct(1))
  ultimately show ?thesis
    using start assms(4-6,8) bs by (simp add: ff_http_get_destination_host_def del: of_nat_add of_nat_Suc)
qed

theorem missing_host_reads_past_end_witness:
  "ff_http_get_destination_host (request_of (text_of sample_lines)) =
    Inl (if ([] :: block) = [] then OutOfBounds else Uninitialised)"
proof (rule missing_host_reads_past_end [OF sample_header(1)])
  show "payload (request_of (text_of sample_lines)) =
      [\<lparr>pl_offset = 0, pl_length = 16, pl_value = bytes (text_of sample_lines), pl_live = True\<rparr>]"
    by (simp add: request_of_def sample_header)
qed (simp_all add: sample_header(3), simp add: sample_lines_def)

end
