(* ===== verification/Http_Send.thy ===== *)
theory Http_Send
  imports Http_Host
begin

text \<open>
  What is sent, and over which transport: the HTTPS option, the write loops and the response
  loops of \<open>src/http.c\<close>.
\<close>

section \<open>The HTTPS option\<close>

text \<open>The loop runs downwards and overwrites its variable, so the option with the lowest index decides.\<close>

definition https_pure :: "byte \<times> byte list \<Rightarrow> bool \<Rightarrow> bool" where
  "https_pure w https = (if fst w = FF_REQUEST_OPTION_TYPE_HTTPS then snd w = [1] else https)"

lemma https_step_shows:
  assumes "shows_option node w"
  shows "https_step node https = Inr (https_pure w https)"
proof -
  have len: "opt_length node = 1 \<longleftrightarrow> length (snd w) = 1"
    using assms unfolding shows_option_def by (metis unat_1 word_unat_eq_iff)
  show ?thesis
  proof (cases "length (snd w) = 1")
    case True
    then obtain b where "snd w = [b]" by (auto simp: length_Suc_conv)
    then show ?thesis
      using assms len shows_option_reads(2) [OF assms, of 0]
      by (auto simp: https_step_def https_pure_def shows_option_def)
  next
    case False
    then have "snd w \<noteq> [1]" by auto
    then show ?thesis using assms len False by (auto simp: https_step_def https_pure_def shows_option_def)
  qed
qed

lemma fold_https_pure:
  "fold https_pure (rev ws) s =
     (case map_of ws FF_REQUEST_OPTION_TYPE_HTTPS of None \<Rightarrow> s | Some v \<Rightarrow> v = [1])"
  by (induction ws) (auto simp: https_pure_def)

lemma https_scan:
  assumes "has_options request ws"
  shows "scan_options request (rev [0..<unat (options_length request)]) https_step False =
    Inr (map_of ws FF_REQUEST_OPTION_TYPE_HTTPS = Some [1])"
  using scan_down_fold [OF assms https_step_shows, where s = False]
  by (simp add: fold_https_pure split: option.splits)

section \<open>The write loops\<close>

text \<open>\<open>write (fd, buf, count)\<close> and \<open>BIO_write (b, data, dlen)\<close> return at most the number of bytes they
  were given.\<close>

fun writes_within :: "nat \<Rightarrow> int list \<Rightarrow> bool" where
  "writes_within n [] = True"
| "writes_within n (c # cs) = (c \<le> int n \<and> writes_within (n - nat c) cs)"

lemma sent_plus:
  fixes sent :: "32 word"
  assumes "0 \<le> c" and "unat sent + nat c < 2 ^ 32"
  shows "unat (sent + of_int c) = unat sent + nat c"
proof -
  have c: "(of_int c :: 32 word) = of_nat (nat c)" using assms(1) by simp
  have "unat (of_nat (nat c) :: 32 word) = nat c" using assms(2) by (intro unat_of_nat_32) simp
  then show ?thesis using assms(2) unfolding c by (subst unat_plus_less) simp_all
qed

lemma chunk_fits: "0 < c \<Longrightarrow> s \<le> n \<Longrightarrow> c \<le> int (n - s) \<Longrightarrow> s + nat c \<le> n"
  by arith

lemma take_chunk: "take n xs @ take m (drop n xs) = take (n + m) xs"
  by (simp add: take_add)

lemma write_loop_step:
  assumes "0 < c" "unat sent + nat c \<le> length bs" "length bs < 2 ^ 16"
  shows "write_loop (bytes bs @ rest) (of_nat (length bs)) sent (take (unat sent) bs) (c # cs) =
    (if unat sent + nat c < length bs
     then write_loop (bytes bs @ rest) (of_nat (length bs)) (sent + of_int c) (take (unat (sent + of_int c)) bs) cs
     else Inr (Some (True, take (unat (sent + of_int c)) bs)))"
proof -
  have sum: "unat (sent + of_int c) = unat sent + nat c" using assms by (intro sent_plus) auto
  have "unat (of_nat (length bs) :: 64 word) = length bs" using assms(3) by (intro unat_of_nat_64) simp
  then have less: "(ucast (sent + of_int c) < (of_nat (length bs) :: 64 word)) = (unat sent + nat c < length bs)"
    by (simp add: word_less_nat_alt sum)
  show ?thesis
    using assms less by (simp add: block_reads_bytes Let_def sum take_chunk)
qed

lemma write_loop_prefix:
  assumes "writes_within (length bs - unat sent) cs" "unat sent \<le> length bs" "length bs < 2 ^ 16"
    and "write_loop (bytes bs @ rest) (of_nat (length bs)) sent (take (unat sent) bs) cs = Inr (Some (ok, out))"
  shows "take (length out) bs = out"
  using assms
proof (induction cs arbitrary: sent)
  case (Cons c cs)
  show ?case
  proof (cases "0 < c")
    case True
    with Cons.prems(1,2) have le: "unat sent + nat c \<le> length bs"
      by (intro chunk_fits) (auto simp only: writes_within.simps)
    then have sum: "unat (sent + of_int c) = unat sent + nat c"
      using True Cons.prems(3) by (intro sent_plus) auto
    show ?thesis
      using Cons.IH [of "sent + of_int c"] Cons.prems le sum
      unfolding write_loop_step [OF True le Cons.prems(3)] by (auto split: if_splits)
  qed (use Cons.prems(2,4) in \<open>auto split: if_splits\<close>)
qed simp

text \<open>Positive results that add up to the length send everything.\<close>

lemma write_loop_all:
  assumes "list_all (\<lambda>c. 0 < c) cs" "int (unat sent) + sum_list cs = int (length bs)" "unat sent < length bs" "length bs < 2 ^ 16"
  shows "write_loop (bytes bs @ rest) (of_nat (length bs)) sent (take (unat sent) bs) (cs @ cs') = Inr (Some (True, bs))"
  using assms
proof (induction cs arbitrary: sent)
  case Nil
  then have "int (unat sent) = int (length bs)" by (simp only: sum_list.Nil)
  then show ?case using Nil.prems(3) by linarith
next
  case (Cons c cs)
  have pos: "0 < c" using Cons.prems by simp
  have nonneg: "0 \<le> sum_list cs" using Cons.prems(1) by (induction cs) auto
  then have "c \<le> int (length bs) - int (unat sent)"
    using Cons.prems(2) unfolding sum_list.Cons by linarith
  then have le: "unat sent + nat c \<le> length bs"
    using pos Cons.prems(3) by (intro chunk_fits) linarith+
  then have sum: "unat (sent + of_int c) = unat sent + nat c"
    using pos Cons.prems(4) by (intro sent_plus) auto
  show ?case
    using Cons.IH [of "sent + of_int c"] Cons.prems le sum pos
    by (simp only: append_Cons write_loop_step [OF pos le Cons.prems(4)]) auto
qed

lemma bio_write_loop_prefix:
  assumes "writes_within (length bs - s) cs" "s \<le> length bs"
    and "bio_write_loop (bytes bs @ rest) (int s) (take s bs) cs = Inr (Some out)"
  shows "take (length out) bs = out"
  using assms
proof (induction cs arbitrary: s)
  case (Cons c cs)
  show ?case
  proof (cases "0 < c")
    case True
    then obtain d where c: "c = int d" "0 < d" by (metis zero_less_imp_eq_int)
    have le: "s + d \<le> length bs" using Cons.prems(1,2) c by auto
    then have "bio_write_loop (bytes bs @ rest) (int (s + d)) (take (s + d) bs) cs = Inr (Some out)"
      using Cons.prems(3) c by (simp add: block_reads_bytes take_chunk)
    then show ?thesis using Cons.IH [of "s + d"] Cons.prems(1) c le by auto
  qed (use Cons.prems(2,3) in \<open>auto split: if_splits\<close>)
qed simp

section \<open>The response loops\<close>

lemma response_http:
  assumes "map tolower (take 5 r) = map of_char ''http/''" and "length r < FF_HTTP_RESPONSE_BUFF_SIZE"
  shows "block_write (block_zero FF_HTTP_RESPONSE_BUFF_SIZE) 0 (bytes r) =
      Inr (bytes r @ drop (length r) (block_zero FF_HTTP_RESPONSE_BUFF_SIZE))"
    and "strncasecmp_eq ''http/'' (bytes r @ rest) 0 = Inr True"
    and "5 \<le> length r"
proof -
  show len: "5 \<le> length r" using arg_cong [OF assms(1), of length] by simp
  show "block_write (block_zero FF_HTTP_RESPONSE_BUFF_SIZE) 0 (bytes r) =
      Inr (bytes r @ drop (length r) (block_zero FF_HTTP_RESPONSE_BUFF_SIZE))"
    using assms(2) by (simp add: block_write_def block_zero_def)
  have five: "length ''http/'' = 5" by simp
  have "strncasecmp_eq ''http/'' (bytes r @ rest) 0 =
      Inr (map tolower (take (length ''http/'') (drop 0 r)) = map of_char ''http/'')"
    using len by (intro strncasecmp_bytes) simp
  then show "strncasecmp_eq ''http/'' (bytes r @ rest) 0 = Inr True"
    using assms(1) unfolding five by (simp only: drop0 simp_thms)
qed

lemma recv_http:
  assumes "map tolower (take 5 r) = map of_char ''http/''" and "length r < FF_HTTP_RESPONSE_BUFF_SIZE"
  shows "recv_loop (block_zero FF_HTTP_RESPONSE_BUFF_SIZE) 0 (Some r # results) = Inr (Some True)"
  using response_http [OF assms] by (auto simp del: strncasecmp_eq.simps)

lemma bio_read_http:
  assumes "map tolower (take 5 r) = map of_char ''http/''" and "length r < FF_HTTP_RESPONSE_BUFF_SIZE" and "5 < length r"
  shows "bio_read_loop (block_zero FF_HTTP_RESPONSE_BUFF_SIZE) 0 ((int (length r), r, retry) # results) = Inr (Some ())"
  using response_http [OF assms(1,2)] assms(3) by (auto simp del: strncasecmp_eq.simps)

section \<open>What is sent, and how\<close>

lemma unencrypted_prefix:
  assumes pay: "holds_payload request bs" "payload_length request = of_nat (length bs)"
    and "writes_within (length bs) (write_results net)"
    and "ff_http_send_request_unencrypted net request host = Inr (Some (ok, out))"
  shows "take (length out) bs = out"
proof -
  obtain node rest where node: "payload request = [node]" "pl_live node" "unat (pl_length node) = length bs"
      "pl_value node = bytes bs @ rest"
    using pay(1) by (auto simp: holds_payload_def)
  have small: "length bs < 2 ^ 16" using unat_lt_16 [of "pl_length node"] node(3) by simp
  show ?thesis
  proof (cases "out = []")
    case False
    let ?w = "write_loop (bytes bs @ rest) (of_nat (length bs)) 0 [] (write_results net)"
    have set: "dns_ok net host" "socket_ok net" "connect_ok net"
      using False assms(4) by (auto simp: ff_http_send_request_unencrypted_def split: if_splits)
    obtain ok' where "?w = Inr (Some (ok', out))"
    proof (cases ?w)
      case (Inr r)
      show ?thesis
      proof (cases r)
        case (Some r')
        obtain ok' out' where "r' = (ok', out')" by (cases r')
        then show ?thesis
          using that assms(4) set node Inr Some pay(2)
          by (cases ok') (auto simp: ff_http_send_request_unencrypted_def res_simps)
      qed (use assms(4) set node Inr pay(2) in \<open>simp add: ff_http_send_request_unencrypted_def\<close>)
    qed (use assms(4) set node pay(2) in \<open>simp add: ff_http_send_request_unencrypted_def\<close>)
    then show ?thesis
      using assms(3) small by (intro write_loop_prefix [where sent = 0 and cs = "write_results net" and rest = rest and ok = ok']) auto
  qed simp
qed

lemma tls_prefix:
  assumes pay: "holds_payload request bs"
    and "writes_within (length bs) (bio_writes tls)"
    and "ff_http_send_request_tls tls request host = Inr (Some (ok, out))"
  shows "take (length out) bs = out" and "out \<noteq> [] \<Longrightarrow> tls_setup tls"
proof -
  obtain node rest where node: "payload request = [node]" "pl_live node" "pl_value node = bytes bs @ rest"
    using pay by (auto simp: holds_payload_def)
  show "out \<noteq> [] \<Longrightarrow> tls_setup tls"
    using assms(3) by (auto simp: ff_http_send_request_tls_def split: if_splits)
  show "take (length out) bs = out"
  proof (cases "out = []")
    case False
    with assms(3) node have "bio_write_loop (bytes bs @ rest) (int 0) (take 0 bs) (bio_writes tls) = Inr (Some out)"
      by (auto simp: ff_http_send_request_tls_def res_simps split: if_splits option.splits)
    then show ?thesis
      using assms(2) by (intro bio_write_loop_prefix [where s = 0]) auto
  qed simp
qed


text \<open>A request with an HTTPS option, and two networks that work.\<close>

definition sample_text :: "byte list" where
  "sample_text = text_of sample_lines @ sample_name @ map of_char ''a.b'' @ [13, 10, 13, 10]"

definition sample_https :: ff_request where
  "sample_https = (request_of sample_text)\<lparr>options_length := 1, options := [option_node (FF_REQUEST_OPTION_TYPE_HTTPS, [1])]\<rparr>"

definition sample_net :: net where
  "sample_net = \<lparr>dns_ok = (\<lambda>_. True), socket_ok = True, connect_ok = True, write_results = [20, 8],
     recv_results = [Some (map of_char ''HTTP/1.1 200 OK'')]\<rparr>"

definition sample_tls :: tls where
  "sample_tls = \<lparr>method_ok = True, ctx_ok = True, bio_ok = True, port_ok = True, ssl_ok = True, ciphers_ok = True,
     sni_ok = True, verify_host_ok = True, tls_connect_ok = True, handshake_ok = True, cert_presented = True,
     cert_verified = True, bio_writes = [28, 0], bio_reads = [(15, map of_char ''HTTP/1.1 200 OK'', False)]\<rparr>"

lemma sample_text_length: "length sample_text = 28"
  by code_simp

lemma sample_text_host:
  assumes "holds_payload request sample_text" and "payload_length request = of_nat (length sample_text)"
  shows "ff_http_get_destination_host request = Inr (Some (map of_char ''a.b''))"
proof (rule destination_host_short [where k = 0 and c = 13 and post = "[10, 13, 10]", OF sample_header(1,2)])
  show "list_all host_char (map of_char ''a.b'')" "\<not> host_char 13" by code_simp+
qed (use assms in \<open>simp_all add: sample_header sample_text_def\<close>)

lemma sample_https_options: "has_options sample_https [(FF_REQUEST_OPTION_TYPE_HTTPS, [1])]"
  by (simp add: has_options_def options_ok_def sample_https_def option_view_def option_node_def option_ok_def
      FF_REQUEST_MAX_OPTIONS_def readable_def)

lemma sample_https_payload: "holds_payload sample_https sample_text"
  using holds_request_of [of sample_text] by (simp add: sample_https_def holds_payload_def sample_text_length)

lemma sample_response:
  "map tolower (take 5 (map of_char ''HTTP/1.1 200 OK'')) = map of_char ''http/''"
  "length (map of_char ''HTTP/1.1 200 OK'' :: byte list) = 15"
  by code_simp+

lemma sample_https_sent:
  "ff_http_send_request sample_net sample_tls sample_https =
     Inr (Some (sample_https\<lparr>state := FF_REQUEST_STATE_SENT\<rparr>, Tls, sample_text))"
proof -
  have host: "ff_http_get_destination_host sample_https = Inr (Some (map of_char ''a.b''))"
    by (rule sample_text_host [OF sample_https_payload]) (simp add: sample_https_def)
  have out: "bio_write_loop (bytes sample_text) 0 [] (bio_writes sample_tls) = Inr (Some sample_text)"
    by code_simp
  have reads: "bio_reads sample_tls =
      [(int (length (map of_char ''HTTP/1.1 200 OK'' :: byte list)), map of_char ''HTTP/1.1 200 OK'', False)]"
    unfolding sample_response(2) by (simp add: sample_tls_def)
  have resp: "bio_read_loop (block_zero FF_HTTP_RESPONSE_BUFF_SIZE) 0 (bio_reads sample_tls) = Inr (Some ())"
    unfolding reads
    by (rule bio_read_http [OF sample_response(1)])
      (unfold sample_response(2) FF_HTTP_RESPONSE_BUFF_SIZE_def, simp_all)
  have ready: "tls_setup sample_tls" by (simp add: sample_tls_def tls_setup_def)
  have "payload sample_https = [\<lparr>pl_offset = 0, pl_length = 28, pl_value = bytes sample_text, pl_live = True\<rparr>]"
    by (simp add: sample_https_def request_of_def sample_text_length)
  then have "ff_http_send_request_tls sample_tls sample_https h = Inr (Some (True, sample_text))" for h
    using out resp ready by (simp add: ff_http_send_request_tls_def)
  then show ?thesis
    using host by (simp add: ff_http_send_request_def https_scan [OF sample_https_options])
qed


section \<open>Delivery\<close>

text \<open>A destination that can be reached, takes \<open>n\<close> bytes in any number of pieces and answers with a
  response that starts with \<open>HTTP/\<close>, over TCP and over TLS.\<close>

definition http_response :: "byte list \<Rightarrow> bool" where
  "http_response r \<longleftrightarrow>
     map tolower (take 5 r) = map of_char ''http/'' \<and> 5 < length r \<and> length r < FF_HTTP_RESPONSE_BUFF_SIZE"

definition plain_serves :: "net \<Rightarrow> byte list \<Rightarrow> nat \<Rightarrow> bool" where
  "plain_serves net host n \<longleftrightarrow>
     dns_ok net host \<and> socket_ok net \<and> connect_ok net \<and>
     (\<exists>cs cs'. write_results net = cs @ cs' \<and> list_all (\<lambda>c. 0 < c) cs \<and> sum_list cs = int n) \<and>
     (\<exists>r results. recv_results net = Some r # results \<and> http_response r)"

definition tls_serves :: "tls \<Rightarrow> nat \<Rightarrow> bool" where
  "tls_serves tls n \<longleftrightarrow>
     tls_setup tls \<and>
     (\<exists>cs c cs'. bio_writes tls = cs @ c # cs' \<and> list_all (\<lambda>c. 0 < c) cs \<and> sum_list cs = int n \<and> c \<le> 0) \<and>
     (\<exists>r retry results. bio_reads tls = (int (length r), r, retry) # results \<and> http_response r)"

lemma unencrypted_delivered:
  assumes pay: "holds_payload request bs" "payload_length request = of_nat (length bs)" "bs \<noteq> []"
    and net: "dns_ok net host" "socket_ok net" "connect_ok net"
      "write_results net = cs @ cs'" "list_all (\<lambda>c. 0 < c) cs" "sum_list cs = int (length bs)"
      "recv_results net = Some r # results" "map tolower (take 5 r) = map of_char ''http/''" "length r < FF_HTTP_RESPONSE_BUFF_SIZE"
  shows "ff_http_send_request_unencrypted net request host = Inr (Some (True, bs))"
proof -
  obtain node rest where node: "payload request = [node]" "pl_live node" "unat (pl_length node) = length bs"
      "pl_value node = bytes bs @ rest"
    using pay(1) by (auto simp: holds_payload_def)
  have small: "length bs < 2 ^ 16" using unat_lt_16 [of "pl_length node"] node(3) by simp
  have "write_loop (bytes bs @ rest) (of_nat (length bs)) 0 (take (unat (0 :: 32 word)) bs) (cs @ cs') = Inr (Some (True, bs))"
    using net(5,6) pay(3) small by (intro write_loop_all) simp_all
  then show ?thesis
    using net node recv_http [OF net(8,9), of results]
    by (simp add: ff_http_send_request_unencrypted_def pay(2) del: recv_loop.simps)
qed

lemma bio_write_loop_all:
  assumes "list_all (\<lambda>c. 0 < c) cs" "int s + sum_list cs = int (length bs)" "s \<le> length bs" "c \<le> 0"
  shows "bio_write_loop (bytes bs @ rest) (int s) (take s bs) (cs @ c # cs') = Inr (Some bs)"
  using assms
proof (induction cs arbitrary: s)
  case (Cons d cs)
  then have "0 < d" by simp
  then obtain e where d: "d = int e" "0 < e" by (metis zero_less_imp_eq_int)
  have "0 \<le> sum_list cs" using Cons.prems(1) by (induction cs) auto
  then have "s + e \<le> length bs" using Cons.prems(2) d by simp
  moreover have "bio_write_loop (bytes bs @ rest) (int (s + e)) (take (s + e) bs) (cs @ c # cs') = Inr (Some bs)"
    using Cons.prems d calculation by (intro Cons.IH) simp_all
  ultimately show ?case
    using d by (simp add: block_reads_bytes take_chunk)
qed simp

lemma tls_delivered:
  assumes "holds_payload request bs" and "tls_serves tls (length bs)"
  shows "ff_http_send_request_tls tls request host = Inr (Some (True, bs))"
proof -
  obtain node rest where node: "payload request = [node]" "pl_live node" "pl_value node = bytes bs @ rest"
    using assms(1) by (auto simp: holds_payload_def)
  obtain cs c cs' where w: "bio_writes tls = cs @ c # cs'" "list_all (\<lambda>c. 0 < c) cs" "sum_list cs = int (length bs)" "c \<le> 0"
    using assms(2) by (auto simp: tls_serves_def)
  obtain r retry results where r: "bio_reads tls = (int (length r), r, retry) # results" "http_response r"
    using assms(2) by (auto simp: tls_serves_def)
  have "bio_write_loop (bytes bs @ rest) (int 0) (take 0 bs) (cs @ c # cs') = Inr (Some bs)"
    using w by (intro bio_write_loop_all) simp_all
  moreover have "bio_read_loop (block_zero FF_HTTP_RESPONSE_BUFF_SIZE) 0 (bio_reads tls) = Inr (Some ())"
    using r bio_read_http [of r retry results] by (simp add: http_response_def del: bio_read_loop.simps)
  ultimately show ?thesis
    using node w(1) assms(2) by (simp add: ff_http_send_request_tls_def tls_serves_def)
qed

lemma request_delivered:
  assumes opts: "has_options request ws" and pay: "holds_payload request bs" "payload_length request = of_nat (length bs)" "bs \<noteq> []"
    and host: "ff_http_get_destination_host request = Inr (Some host)"
    and https: "https \<longleftrightarrow> map_of ws FF_REQUEST_OPTION_TYPE_HTTPS = Some [1]"
    and serves: "if https then tls_serves tls (length bs) else plain_serves net host (length bs)"
  shows "ff_http_send_request net tls request =
    Inr (Some (request\<lparr>state := FF_REQUEST_STATE_SENT\<rparr>, if https then Tls else Plain, bs))"
proof (cases https)
  case True
  then show ?thesis
    using tls_delivered [OF pay(1)] serves host https by (simp add: ff_http_send_request_def https_scan [OF opts])
next
  case False
  then have "ff_http_send_request_unencrypted net request host = Inr (Some (True, bs))"
    using unencrypted_delivered [OF pay] serves by (auto simp: plain_serves_def http_response_def)
  then show ?thesis
    using False host https by (simp add: ff_http_send_request_def https_scan [OF opts])
qed



text \<open>
  C23. A TLS read that fails and may be retried corrupts the stack. The result -1 of \<open>BIO_read\<close> is
  added to \<open>received\<close>, so if \<open>BIO_should_retry\<close> holds, the next successful read stores its bytes
  before the start of \<open>response\<close>.
\<close>

theorem retried_tls_read_underflow:
  assumes "tls_setup tls" and "payload request = node # nodes" "pl_live node"
    and "bio_write_loop (pl_value node) 0 [] (bio_writes tls) = Inr (Some out)"
    and "bio_reads tls = (- 1, [], True) # (chunk, bs, retry) # reads" and "0 < chunk"
  shows "ff_http_send_request_tls tls request host = Inl OutOfBounds"
  using assms by (simp add: ff_http_send_request_tls_def del: strncasecmp_eq.simps)

theorem retried_tls_read_underflow_witness:
  "ff_http_send_request_tls (sample_tls\<lparr>bio_reads := [(- 1, [], True), (15, map of_char ''HTTP/1.1 200 OK'', False)]\<rparr>)
     sample_https (map of_char ''a.b'') = Inl OutOfBounds"
proof (rule retried_tls_read_underflow)
  show "tls_setup (sample_tls\<lparr>bio_reads := [(- 1, [], True), (15, map of_char ''HTTP/1.1 200 OK'', False)]\<rparr>)"
    by (simp add: sample_tls_def tls_setup_def)
  show "payload sample_https = [\<lparr>pl_offset = 0, pl_length = 28, pl_value = bytes sample_text, pl_live = True\<rparr>]"
    by (simp add: sample_https_def request_of_def sample_text_length)
  show "bio_write_loop (pl_value \<lparr>pl_offset = 0, pl_length = 28, pl_value = bytes sample_text, pl_live = True\<rparr>) 0 []
      (bio_writes (sample_tls\<lparr>bio_reads := [(- 1, [], True), (15, map of_char ''HTTP/1.1 200 OK'', False)]\<rparr>))
    = Inr (Some sample_text)"
    by code_simp
  show "bio_reads (sample_tls\<lparr>bio_reads := [(- 1, [], True), (15, map of_char ''HTTP/1.1 200 OK'', False)]\<rparr>) =
      (- 1, [], True) # (15, map of_char ''HTTP/1.1 200 OK'', False) # []"
    by simp
qed simp_all

end
