(* ===== verification/Packet_Safety.thy ===== *)
theory Packet_Safety
  imports Reassembly
begin

text \<open>
  What one packet can do to a request: the parser itself stays inside the packet and keeps the
  request well formed, raw HTTP is taken as it is, and a chunk whose offset wraps around in the
  32-bit range check is accepted and makes \<open>ff_request_vectorise_payload\<close> write outside its
  buffer.
\<close>

section \<open>Memory safety of the parser\<close>

text \<open>
  C4. Any datagram is parsed without a fault. For a well-formed request and any initialised
  buffer of at most 65535 bytes, \<open>ff_request_parse_chunk\<close> returns, the request is well formed
  again (its options and its chunk list agree with their counters, chunks are disjoint, nothing
  is dangling), and it can be freed.
\<close>

theorem parse_chunk_memory_safe:
  assumes "request_ok request" and "readable buff (unat n)" and "unat n < 2 ^ 16"
  shows "\<exists>request'. ff_request_parse_chunk request n buff = Inr request' \<and> request_ok request' \<and>
    ff_request_free request' = Inr ()"
proof -
  obtain bs rest where "buff = bytes bs @ rest" "length bs = unat n"
    using assms(2) by (auto simp: readable_iff_bytes)
  then show ?thesis
    using parse_chunk_safe [of request n bs rest] assms(1,3) request_ok_free by (metis order_refl)
qed

theorem parse_chunk_memory_safe_witness:
  "\<exists>request'. ff_request_parse_chunk ff_request_alloc 3 (bytes [1, 2, 3]) = Inr request' \<and>
     request_ok request' \<and> ff_request_free request' = Inr ()"
  by (rule parse_chunk_memory_safe) (simp_all add: request_ok_alloc readable_def bytes_def)

section \<open>Raw HTTP\<close>

lemma raw_http_loop_iff:
  assumes "unat n \<le> length bs" and "\<forall>m\<in>set ms. length m \<le> unat n"
  shows "raw_http_loop ms n (bytes bs @ rest) =
    Inr (\<exists>m\<in>set ms. map of_char m = take (length m) bs)"
  using assms by (induction ms) (auto simp: strncmp_eq_bytes)

lemma is_raw_http_iff:
  assumes "unat n = length bs" and "7 \<le> length bs"
  shows "ff_request_is_raw_http n (bytes bs @ rest) =
    Inr (\<exists>m\<in>set HTTP_METHODS. map of_char m = take (length m) bs)"
proof -
  have "n \<noteq> 0" using assms by auto
  moreover have "\<forall>m\<in>set HTTP_METHODS. length m \<le> unat n"
    using assms by (auto simp: HTTP_METHODS_def)
  ultimately show ?thesis
    using assms raw_http_loop_iff [of n bs HTTP_METHODS rest] by (simp add: ff_request_is_raw_http_def)
qed

text \<open>
  C5. A datagram that starts with an HTTP method is a complete request. If a datagram of 7 to
  65535 bytes starts with one of \<open>HTTP_METHODS\<close>, a fresh request becomes \<open>RECEIVED\<close> with version
  RAW, no options, and the whole datagram as its payload, which vectorising leaves as it is; its
  request id is 0.
\<close>

theorem raw_http_received:
  assumes "unat n = length bs" and "7 \<le> length bs" and "length bs < 2 ^ 16"
    and "m \<in> set HTTP_METHODS" and "map of_char m = take (length m) bs"
  shows "\<exists>request node. ff_request_parse_chunk ff_request_alloc n (bytes bs @ rest) = Inr request \<and>
    state request = FF_REQUEST_STATE_RECEIVED \<and> version request = FF_VERSION_RAW \<and>
    options request = [] \<and> payload request = [node] \<and> unat (pl_length node) = length bs \<and>
    take (length bs) (pl_value node) = bytes bs \<and>
    ff_request_vectorise_payload request = Inr request \<and>
    ff_request_parse_id n (bytes bs @ rest) = Inr 0"
proof -
  have raw: "ff_request_is_raw_http n (bytes bs @ rest) = Inr True"
    using assms by (auto simp: is_raw_http_iff)
  have load: "load_buff n (bytes bs @ rest) = Inr (bytes bs @ block_alloc (length bs * 7))"
    using assms(1) by (rule load_buff_bytes)
  have "unat (ucast n :: 16 word) = length bs"
    using assms by simp
  with raw load show ?thesis
    by (simp add: ff_request_parse_chunk_def ff_request_parse_first_chunk_def ff_request_parse_raw_http_def
        ff_request_payload_load_buff_def ff_request_payload_node_alloc_def ff_request_parse_id_def
        ff_request_vectorise_payload_def) (simp add: ff_request_alloc_def)
qed

definition sample_http :: "byte list" where
  "sample_http = map of_char ''GET / HTTP/1.1''"

theorem raw_http_received_witness:
  "\<exists>request node. ff_request_parse_chunk ff_request_alloc 14 (bytes sample_http @ []) = Inr request \<and>
    state request = FF_REQUEST_STATE_RECEIVED \<and> version request = FF_VERSION_RAW \<and>
    options request = [] \<and> payload request = [node] \<and> unat (pl_length node) = length sample_http \<and>
    take (length sample_http) (pl_value node) = bytes sample_http \<and>
    ff_request_vectorise_payload request = Inr request \<and>
    ff_request_parse_id 14 (bytes sample_http @ []) = Inr 0"
  by (rule raw_http_received [where m = "''GET''"]) (simp_all add: sample_http_def HTTP_METHODS_def)

section \<open>Offsets that wrap around\<close>

lemma vectorise_loop_fault:
  "list_all node_ok nodes \<Longrightarrow> vectorise_loop nodes dst = Inl e \<Longrightarrow> e = OutOfBounds"
  by (induction nodes arbitrary: dst)
    (auto simp: node_ok_def readable_def block_copy_def block_write_def ff_request_payload_node_free_def
      split: if_splits)

lemma vectorise_outside:
  assumes "list_all node_ok (payload request)" and "1 < length (payload request)"
    and "node \<in> set (payload request)"
    and "unat (payload_length request) < unat (pl_offset node) + unat (pl_length node)"
  shows "ff_request_vectorise_payload request = Inl OutOfBounds"
proof -
  let ?dst = "block_alloc (unat (payload_length request))"
  have "\<nexists>v. vectorise_loop (payload request) ?dst = Inr v"
    using assms(3,4) unfolding vectorise_loop_safe by (force simp: block_alloc_def)
  then have "vectorise_loop (payload request) ?dst = Inl OutOfBounds"
    using vectorise_loop_fault [OF assms(1)] by (metis sum.exhaust)
  then show ?thesis
    using assms(1,2) by (auto simp: ff_request_vectorise_payload_def node_ok_def split: list.splits)
qed

text \<open>The truncation of a wrapped offset keeps it beyond every 16-bit message length.\<close>

lemma unat_wrapped_offset:
  assumes "2 ^ 32 \<le> unat (c :: 32 word) + unat (l :: 16 word)"
  shows "2 ^ 16 \<le> unat (ucast c :: 16 word) + unat l" and "unat (c + ucast l) = unat c + unat l - 2 ^ 32"
proof -
  have c: "unat c = (unat c - 4294901760) + 65535 * 65536" "unat c < 4294967296"
    using assms unat_lt_16 [of l] unat_lt_32 [of c] by simp_all
  have "unat (ucast c :: 16 word) = ((unat c - 4294901760) + 65535 * 65536) mod 65536"
    using c(1) by (simp add: unat_ucast_mod)
  also have "\<dots> = unat c - 4294901760"
    using c(2) by (subst mod_mult_self1) simp
  finally show "2 ^ 16 \<le> unat (ucast c :: 16 word) + unat l"
    using assms c by simp
  show "unat (c + ucast l) = unat c + unat l - 2 ^ 32"
    using assms c(2) unat_lt_16 [of l] by (simp add: unat_word_ariths mod_if)
qed

text \<open>
  C6. A wrapped chunk offset writes outside the heap buffer. A request that has received all but
  \<open>l\<close> bytes accepts a final chunk whose offset \<open>c\<close> makes \<open>c + l\<close> wrap around in 32 bits: the range
  check passes, the request becomes \<open>RECEIVED\<close>, and \<open>ff_request_vectorise_payload\<close> writes outside
  the buffer it allocates.
\<close>

theorem wrapped_offset_heap_overflow:
  assumes ok: "request_ok request" and ne: "payload request \<noteq> []"
    and req: "version request = 1" "request_id request = r" "payload_length request = ucast tot"
    and tot: "unat tot < 2 ^ 16"
    and wrap: "2 ^ 32 \<le> unat c + unat l" "unat c + unat l - 2 ^ 32 \<le> unat tot"
    and left: "unat (received_length request) + unat l = unat tot"
    and apart: "\<forall>cur\<in>set (payload request).
      unat (pl_offset cur) + unat (pl_length cur) \<le> unat (ucast c :: 16 word)"
    and n: "length data = unat l" "unat n = length (data_packet r tot c l [] FF_REQUEST_OPTION_TYPE_EOL data)"
  shows "\<exists>request'. ff_request_parse_chunk request n
      (bytes (data_packet r tot c l [] FF_REQUEST_OPTION_TYPE_EOL data) @ rest) = Inr request' \<and>
    state request' = FF_REQUEST_STATE_RECEIVED \<and>
    ff_request_vectorise_payload request' = Inl OutOfBounds"
proof -
  let ?buff = "bytes data @ rest" and ?n = "of_nat (length data) :: 32 word"
  let ?node = "chunk_node c l ?n ?buff"
  let ?request = "request\<lparr>payload := payload request @ [?node],
    received_length := received_length request + ucast l\<rparr>"
  have c: "c \<noteq> 0" using wrap(1) unat_lt_16 [of l] by auto
  have n': "unat n < 2 ^ 31" "unat ?n = length data"
    using n unat_lt_16 [of l] by (simp_all add: data_packet_def wire_options_simps unat_of_nat)
  have data: "ff_request_parse_data_chunk request n
      (bytes (data_packet r tot c l [] FF_REQUEST_OPTION_TYPE_EOL data) @ rest) = add_chunk request c l ?n ?buff"
    using parse_data_chunk_wire [of request r tot c l data "[]" FF_REQUEST_OPTION_TYPE_EOL n rest]
      ok req wrap n n' c by (simp add: request_ok_def unat_wrapped_offset packet_options_ok_def)
  have disj: "\<forall>cur\<in>set (payload request). \<not> overlaps_existing_node ?node cur"
    using apart by (auto simp: overlaps_existing_node_def chunk_node_def)
  have full: "received_length request + ucast l = payload_length request"
    using left tot req(3) by (simp add: word_unat_eq_iff unat_word_ariths)
  have "add_chunk request c l ?n ?buff = Inr (?request\<lparr>state := FF_REQUEST_STATE_RECEIVED\<rparr>)"
    using add_chunk_eq [of request ?n ?buff c l] ok disj full n'(2) by (auto simp: request_ok_def Let_def)
  moreover have "ff_request_vectorise_payload (?request\<lparr>state := FF_REQUEST_STATE_RECEIVED\<rparr>) = Inl OutOfBounds"
  proof (rule vectorise_outside [where node = ?node])
    show "list_all node_ok (payload (?request\<lparr>state := FF_REQUEST_STATE_RECEIVED\<rparr>))"
      using ok n' n(1) by (simp add: request_ok_def payload_ok_def node_ok_def chunk_node_def)
    show "unat (payload_length (?request\<lparr>state := FF_REQUEST_STATE_RECEIVED\<rparr>)) < unat (pl_offset ?node) + unat (pl_length ?node)"
      using tot unat_wrapped_offset(1) [OF wrap(1)] req(3) by (simp add: chunk_node_def)
  qed (use ne in simp_all)
  ultimately show ?thesis
    using data req(1) by (simp add: ff_request_parse_chunk_def)
qed

definition sample_half :: ff_request where
  "sample_half = ff_request_alloc\<lparr>version := 1, request_id := 7, payload_length := 10, received_length := 5,
     payload := [\<lparr>pl_offset = 0, pl_length = 5, pl_value = bytes [1, 2, 3, 4, 5], pl_live = True\<rparr>]\<rparr>"

theorem wrapped_offset_heap_overflow_witness:
  "\<exists>request'. ff_request_parse_chunk sample_half 28
      (bytes (data_packet 7 10 0xFFFFFFFF 5 [] FF_REQUEST_OPTION_TYPE_EOL [1, 2, 3, 4, 5]) @ []) = Inr request' \<and>
    state request' = FF_REQUEST_STATE_RECEIVED \<and>
    ff_request_vectorise_payload request' = Inl OutOfBounds"
proof (rule wrapped_offset_heap_overflow)
  show "request_ok sample_half"
    by (simp add: sample_half_def request_ok_def options_ok_def payload_ok_def node_ok_def
        ff_request_alloc_def FF_REQUEST_MAX_OPTIONS_def readable_def bytes_def)
qed (simp_all add: sample_half_def data_packet_def wire_options_simps)

end
