(* ===== verification/Server_Inv.thy ===== *)
theory Server_Inv
  imports Server_Worker Packet_Safety
begin

text \<open>
  The invariant of the shared state under every interleaving of the main thread, the workers and
  the clean-up thread: every entry of the table points to its own live request, which carries the
  id it is stored under, and a request no worker has is well formed.
\<close>

section \<open>The id of a request\<close>

text \<open>Parsing keeps the id that was set by the first chunk and the source; processing keeps them too.\<close>

abbreviation same_id :: "ff_request \<Rightarrow> ff_request \<Rightarrow> bool" where
  "same_id request \<equiv> \<lambda>request'. request_id request' = request_id request \<and> source request' = source request"

lemma parse_options_id: "res_all (\<lambda>(request', m). same_id request request') (ff_request_parse_options request n buff)"
  unfolding ff_request_parse_options_def Let_def
  by (intro res_all_bind) (auto split: sum.splits)

lemma parse_options_idD: "ff_request_parse_options request n buff = Inr (request', m) \<Longrightarrow> same_id request request'"
  using res_allD [OF parse_options_id] by fastforce

lemma add_chunk_id: "res_all (same_id request) (add_chunk request c l n buff)"
  unfolding add_chunk_def
  by (intro res_all_bind) (auto simp: receiving_fail_def res_simps split: option.splits if_splits)

lemma add_chunk_id' [intro!]: "same_id request q \<Longrightarrow> res_all (same_id request) (add_chunk q c l n buff)"
  using add_chunk_id [of q] by (auto simp: res_all_def)

lemma parse_data_chunk_id: "res_all (same_id request) (ff_request_parse_data_chunk request n buff)"
  unfolding ff_request_parse_data_chunk_def Let_def receiving_fail_def
  by (auto simp: res_simps split: option.splits if_splits dest!: parse_options_idD)

lemma parse_chunk_id:
  assumes "ff_request_parse_chunk request n buff = Inr request'"
    and "ff_request_is_raw_http n buff = Inr False" and "ff_request_parse_id n buff = Inr i"
    and "request_id request = i \<or> version request = 0"
  shows "state request' = FF_REQUEST_STATE_RECEIVING_FAIL \<or> request_id request' = i"
proof (cases "version request = 0 \<and> \<not> unat n < header_size")
  case True
  then obtain h where h: "load_header buff = Inr h"
    using assms(1,2) by (auto simp: ff_request_parse_chunk_def ff_request_parse_first_chunk_def res_simps)
  then have "ntohll (h_request_id h) = i"
    using assms(2,3) by (auto simp: ff_request_parse_id_def load_header_def res_simps)
  then show ?thesis
    using assms(1,2) True h
    by (auto simp: ff_request_parse_chunk_def ff_request_parse_first_chunk_def dest!: res_allD [OF parse_data_chunk_id])
next
  case False
  then show ?thesis
    using assms res_allD [OF parse_data_chunk_id, of request n buff request']
    by (auto simp: ff_request_parse_chunk_def ff_request_parse_first_chunk_def receiving_fail_def split: if_splits)
qed

lemma parse_chunk_source:
  "res_all (\<lambda>request'. source request' = source request) (ff_request_parse_chunk request n buff)"
  unfolding ff_request_parse_chunk_def ff_request_parse_first_chunk_def ff_request_parse_raw_http_def receiving_fail_def
  using parse_data_chunk_id by (auto simp: res_all_def res_simps)

lemma vectorise_id: "res_all (same_id request) (ff_request_vectorise_payload request)"
  unfolding ff_request_vectorise_payload_def
  by (auto split: list.splits)

lemma decrypt_gcm_id:
  "res_all (\<lambda>r. \<forall>request'. r = Some request' \<longrightarrow> same_id request request')
     (ff_decrypt_request_aes_256_gcm evp pbkdf2 request config iv tag)"
  unfolding ff_decrypt_request_aes_256_gcm_def Let_def
  by (auto split: option.splits)

lemma decrypt_gcm_idD:
  "ff_decrypt_request_aes_256_gcm evp pbkdf2 request config iv tag = Inr (Some request') \<Longrightarrow> same_id request request'"
  using res_allD [OF decrypt_gcm_id] by blast

lemma decrypt_id: "res_all (same_id request) (ff_decrypt_request evp pbkdf2 request config)"
  unfolding ff_decrypt_request_def Let_def
  by (auto split: option.splits dest!: decrypt_gcm_idD)

lemma options_from_payload_id: "res_all (same_id request) (ff_request_parse_options_from_payload request)"
  unfolding ff_request_parse_options_from_payload_def Let_def
  by (auto split: list.splits dest!: parse_options_idD)

lemma send_id:
  "res_all (\<lambda>r. \<forall>request' transport out. r = Some (request', transport, out) \<longrightarrow> same_id request request')
     (ff_http_send_request net tls request)"
  unfolding ff_http_send_request_def
  by (auto split: option.splits)

section \<open>The invariant\<close>

abbreviation worked_on :: "proxy \<Rightarrow> addr set" where
  "worked_on s \<equiv> fst ` set (workers s)"

text \<open>The entries \<open>es\<close> of the table. The requests at the addresses \<open>X\<close> are being received, so what
  they hold is left open.\<close>

definition entry_ok :: "proxy \<Rightarrow> 64 word \<Rightarrow> addr \<Rightarrow> bool" where
  "entry_ok s i a \<longleftrightarrow>
     (\<exists>request. heap s a = Some request \<and> request_id request = i \<and> (a \<notin> worked_on s \<longrightarrow> request_ok request))"

definition proxy_ok_but :: "addr set \<Rightarrow> proxy \<Rightarrow> (64 word \<times> addr) list \<Rightarrow> bool" where
  "proxy_ok_but X s es \<longleftrightarrow>
     stores (requests s) es \<and> distinct (map snd es) \<and>
     (\<forall>(i, a)\<in>set es. i \<noteq> 0 \<and> a \<noteq> 0 \<and> a \<in> dom (heap s) \<and> (a \<notin> X \<longrightarrow> entry_ok s i a)) \<and>
     0 < next_request s \<and> (\<forall>a\<in>dom (heap s) \<union> worked_on s. a < next_request s) \<and>
     (\<forall>(a, c)\<in>set (workers s). c = Free_Request \<longrightarrow> a \<notin> snd ` set es) \<and>
     length (buffer s) = FF_PROXY_BUFF_SIZE"

abbreviation proxy_ok :: "proxy \<Rightarrow> (64 word \<times> addr) list \<Rightarrow> bool" where
  "proxy_ok \<equiv> proxy_ok_but {}"

lemma proxy_okD:
  assumes "proxy_ok_but X s es"
  shows "stores (requests s) es" "distinct (map snd es)" "0 < next_request s" "length (buffer s) = FF_PROXY_BUFF_SIZE"
    and "(i, a) \<in> set es \<Longrightarrow> i \<noteq> 0 \<and> a \<noteq> 0 \<and> a \<in> dom (heap s) \<and> (a \<notin> X \<longrightarrow> entry_ok s i a)"
    and "a \<in> dom (heap s) \<Longrightarrow> a < next_request s" "a \<in> worked_on s \<Longrightarrow> a < next_request s"
    and "(a, Free_Request) \<in> set (workers s) \<Longrightarrow> a \<notin> snd ` set es"
  using assms unfolding proxy_ok_but_def by auto

lemma proxy_okI:
  assumes "stores (requests s) es" "distinct (map snd es)" "0 < next_request s" "length (buffer s) = FF_PROXY_BUFF_SIZE"
    and "\<And>i a. (i, a) \<in> set es \<Longrightarrow> i \<noteq> 0 \<and> a \<noteq> 0 \<and> a \<in> dom (heap s)"
    and "\<And>i a. (i, a) \<in> set es \<Longrightarrow> a \<notin> X \<Longrightarrow> entry_ok s i a"
    and "\<And>a. a \<in> dom (heap s) \<Longrightarrow> a < next_request s" "\<And>a. a \<in> worked_on s \<Longrightarrow> a < next_request s"
    and "\<And>a. (a, Free_Request) \<in> set (workers s) \<Longrightarrow> a \<notin> snd ` set es"
  shows "proxy_ok_but X s es"
  using assms unfolding proxy_ok_but_def by blast

text \<open>The operations keep it.\<close>

lemma proxy_ok_remove:
  assumes "proxy_ok_but X s es"
  obtains table where "remove_item s i = Inr (s\<lparr>requests := table\<rparr>)"
    "proxy_ok_but X (s\<lparr>requests := table\<rparr>) (AList.delete i es)"
proof -
  obtain table where t: "ff_hash_table_remove_item (requests s) i = Inr table" "stores table (AList.delete i es)"
    using ht.remove_law [OF proxy_okD(1) [OF assms]] by blast
  have "proxy_ok_but X (s\<lparr>requests := table\<rparr>) (AList.delete i es)"
    using assms t(2) unfolding proxy_ok_but_def AList.delete_eq entry_ok_def
    by (auto simp: distinct_map_filter)
  with t(1) that show thesis by (simp add: remove_item_def)
qed

lemma proxy_ok_forget:
  assumes ok: "proxy_ok_but X s es" and a: "a \<notin> snd ` set es"
  shows "proxy_ok_but (X - {a}) (s\<lparr>heap := (heap s)(a := None)\<rparr>) es"
proof (rule proxy_okI)
  fix i b assume e: "(i, b) \<in> set es"
  then have "b \<noteq> a" using a by force
  then show "i \<noteq> 0 \<and> b \<noteq> 0 \<and> b \<in> dom (heap (s\<lparr>heap := (heap s)(a := None)\<rparr>))"
    using proxy_okD(5) [OF ok e] by simp
  assume "b \<notin> X - {a}"
  with \<open>b \<noteq> a\<close> show "entry_ok (s\<lparr>heap := (heap s)(a := None)\<rparr>) i b"
    using proxy_okD(5) [OF ok e] by (simp add: entry_ok_def)
qed (use proxy_okD [OF ok] in \<open>auto split: if_splits\<close>)

lemma proxy_ok_free:
  assumes "proxy_ok_but X s es" and "a \<notin> snd ` set es" and "free_request s a = Inr s'"
  shows "proxy_ok_but (X - {a}) s' es"
  using proxy_ok_forget [OF assms(1,2)] assms(3) by (auto simp: free_request_def res_simps)

lemma proxy_ok_write:
  assumes ok: "proxy_ok_but X s es" and a: "heap s a = Some request"
    and r': "a \<notin> X \<Longrightarrow> same_id request request' \<and> (a \<notin> worked_on s \<longrightarrow> request_ok request')"
  shows "proxy_ok_but X (write_request s a request') es"
proof (rule proxy_okI)
  fix i b assume e: "(i, b) \<in> set es"
  show "i \<noteq> 0 \<and> b \<noteq> 0 \<and> b \<in> dom (heap (write_request s a request'))"
    using proxy_okD(5) [OF ok e] by simp
  assume "b \<notin> X"
  then show "entry_ok (write_request s a request') i b"
    using proxy_okD(5) [OF ok e] a r' by (cases "b = a") (auto simp: entry_ok_def)
next
  fix b assume "b \<in> dom (heap (write_request s a request'))"
  then show "b < next_request (write_request s a request')"
    using proxy_okD(6) [OF ok, of b] proxy_okD(6) [OF ok, of a] a by (auto split: if_splits)
qed (use proxy_okD [OF ok] in auto)

lemma snd_unique: "distinct (map snd es) \<Longrightarrow> (i, a) \<in> set es \<Longrightarrow> (j, a) \<in> set es \<Longrightarrow> j = i"
  by (induction es) force+

lemma proxy_ok_settle:
  assumes ok: "proxy_ok_but {a} s es" and a: "(i, a) \<in> set es" and e: "entry_ok s i a"
  shows "proxy_ok s es"
proof (rule proxy_okI)
  fix j b assume jb: "(j, b) \<in> set es"
  show "j \<noteq> 0 \<and> b \<noteq> 0 \<and> b \<in> dom (heap s)" using proxy_okD(5) [OF ok jb] by simp
  show "entry_ok s j b"
  proof (cases "b = a")
    case True
    then have "j = i" using snd_unique [OF proxy_okD(2) [OF ok] a] jb by simp
    then show ?thesis using e True by simp
  qed (use proxy_okD(5) [OF ok jb] in simp)
qed (use proxy_okD [OF ok] in auto)

lemma proxy_ok_workers:
  assumes ok: "proxy_ok_but X s es" and new: "\<forall>a\<in>fst ` set ws. a < next_request s"
    and old: "worked_on s \<subseteq> fst ` set ws \<union> - snd ` set es"
    and last: "\<forall>(a, c)\<in>set ws. c = Free_Request \<longrightarrow> a \<notin> snd ` set es"
  shows "proxy_ok_but X (s\<lparr>workers := ws\<rparr>) es"
proof (rule proxy_okI)
  fix i a assume e: "(i, a) \<in> set es"
  show "i \<noteq> 0 \<and> a \<noteq> 0 \<and> a \<in> dom (heap (s\<lparr>workers := ws\<rparr>))" using proxy_okD(5) [OF ok e] by simp
  assume "a \<notin> X"
  moreover have "a \<notin> fst ` set ws \<Longrightarrow> a \<notin> worked_on s" using old e by force
  ultimately show "entry_ok (s\<lparr>workers := ws\<rparr>) i a"
    using proxy_okD(5) [OF ok e] by (auto simp: entry_ok_def)
qed (use proxy_okD [OF ok] new last in auto)

lemma proxy_ok_fields [simp]:
  "proxy_ok_but X (s\<lparr>outbox := out\<rparr>) es = proxy_ok_but X s es"
  "proxy_ok_but X (s\<lparr>requests_to_remove := as\<rparr>) es = proxy_ok_but X s es"
  "length b = FF_PROXY_BUFF_SIZE \<Longrightarrow> length (buffer s) = FF_PROXY_BUFF_SIZE \<Longrightarrow>
     proxy_ok_but X (s\<lparr>buffer := b\<rparr>) es = proxy_ok_but X s es"
  by (simp_all add: proxy_ok_but_def entry_ok_def)

section \<open>The main thread keeps the invariant\<close>

lemma alist_update_new: "map_of es i = None \<Longrightarrow> AList.update i v es = es @ [(i, v)]"
  by (induction es) (auto split: if_splits)

text \<open>A request that is about to take in a chunk of the request \<open>i\<close>.\<close>

definition may_receive :: "proxy \<Rightarrow> 64 word \<Rightarrow> addr \<Rightarrow> bool" where
  "may_receive s i a \<longleftrightarrow>
     (\<exists>request. heap s a = Some request \<and> (request_id request = i \<or> version request = 0) \<and>
        (a \<notin> worked_on s \<longrightarrow> request_ok request))"

lemma lookup_known:
  assumes ok: "proxy_ok s es" and i: "map_of es i = Some a"
  shows "lookup_request s now src i = Inr (a, s)" "proxy_ok_but {a} s es" "(i, a) \<in> set es" "may_receive s i a"
proof -
  show ia: "(i, a) \<in> set es" using i by (rule map_of_SomeD)
  have "ff_hash_table_get_item (requests s) i = Inr a"
    using ht.get_law [OF proxy_okD(1) [OF ok], of i] i by simp
  then show "lookup_request s now src i = Inr (a, s)"
    using proxy_okD(5) [OF ok ia] by (simp add: lookup_request_def)
  show "proxy_ok_but {a} s es"
    using ok unfolding proxy_ok_but_def by auto
  show "may_receive s i a"
    using proxy_okD(5) [OF ok ia] by (auto simp: entry_ok_def may_receive_def)
qed

lemma lookup_new:
  assumes ok: "proxy_ok s es" and i: "map_of es i = None" "i \<noteq> 0"
  obtains s' where "lookup_request s now src i = Inr (next_request s, s')"
    "proxy_ok_but {next_request s} s' (es @ [(i, next_request s)])" "may_receive s' i (next_request s)"
    "workers s' = workers s" "buffer s' = buffer s"
    "heap s' (next_request s) = Some (ff_request_alloc\<lparr>received_at := now, source := take 16 src\<rparr>)"
proof -
  let ?a = "next_request s" and ?r = "ff_request_alloc\<lparr>received_at := now, source := take 16 src\<rparr>"
  obtain table where t: "ff_hash_table_put_item (requests s) i ?a = Inr table" "stores table (es @ [(i, ?a)])"
    using ht.put_law [OF proxy_okD(1) [OF ok], of i ?a] alist_update_new [OF i(1)] by metis
  let ?s = "s\<lparr>heap := (heap s)(?a \<mapsto> ?r), next_request := Suc ?a, requests := table\<rparr>"
  have fresh: "?a \<notin> dom (heap s)" "?a \<notin> worked_on s" "?a \<notin> snd ` set es"
    using proxy_okD(5) [OF ok] proxy_okD(6,7) [OF ok, of ?a] by auto
  have get: "ff_hash_table_get_item (requests s) i = Inr 0"
    using ht.get_law [OF proxy_okD(1) [OF ok], of i] i(1) by simp
  have "lookup_request s now src i = Inr (?a, ?s)"
    using get t(1) by (simp add: lookup_request_def alloc_request_def)
  moreover have "proxy_ok_but {?a} ?s (es @ [(i, ?a)])"
  proof (rule proxy_okI)
    fix j b assume e: "(j, b) \<in> set (es @ [(i, ?a)])"
    show "j \<noteq> 0 \<and> b \<noteq> 0 \<and> b \<in> dom (heap ?s)"
      using e proxy_okD(5) [OF ok, of j b] proxy_okD(3) [OF ok] i(2) by auto
    assume "b \<notin> {?a}"
    then show "entry_ok ?s j b"
      using e proxy_okD(5) [OF ok, of j b] by (auto simp: entry_ok_def)
  next
    fix b assume "(b, Free_Request) \<in> set (workers ?s)"
    then show "b \<notin> snd ` set (es @ [(i, ?a)])"
      using proxy_okD(8) [OF ok, of b] fresh(2) by force
  qed (use proxy_okD [OF ok] t(2) fresh(3) in \<open>auto simp: less_Suc_eq split: if_splits\<close>)
  moreover have "may_receive ?s i ?a"
    using request_ok_alloc by (simp add: may_receive_def request_ok_def options_ok_def payload_ok_def ff_request_alloc_def)
  ultimately show thesis by (intro that [of ?s]) simp_all
qed

lemma alloc_raw_ok:
  assumes ok: "proxy_ok s es"
  shows "proxy_ok (snd (alloc_request s request)) es"
proof (rule proxy_okI)
  fix i a assume e: "(i, a) \<in> set es"
  have "a \<noteq> next_request s" using proxy_okD(5,6) [OF ok] e by blast
  then show "i \<noteq> 0 \<and> a \<noteq> 0 \<and> a \<in> dom (heap (snd (alloc_request s request)))"
      and "entry_ok (snd (alloc_request s request)) i a"
    using proxy_okD(5) [OF ok e] by (auto simp: alloc_request_def entry_ok_def)
qed (use proxy_okD [OF ok] in \<open>auto simp: alloc_request_def less_Suc_eq split: if_splits\<close>)

text \<open>What happens to a request after a packet, whether or not it is in the table.\<close>

lemma start_worker_ok:
  assumes ok: "proxy_ok_but X s es" and "a < next_request s"
  shows "proxy_ok_but X (s\<lparr>workers := workers s @ [(a, Vectorise)]\<rparr>) es"
  using proxy_okD(7,8) [OF ok] assms(2) by (intro proxy_ok_workers [OF ok]) auto

lemma packet_parsed_raw:
  assumes ok: "proxy_ok s es" and a: "a \<in> dom (heap s)" "a \<notin> snd ` set es" and s': "packet_parsed s 0 a = Inr s'"
  shows "proxy_ok s' es"
proof -
  obtain request where r: "read_request s a = Inr request"
    using s' by (auto simp: packet_parsed_def res_simps)
  show ?thesis
  proof (cases "state request")
    case FF_REQUEST_STATE_RECEIVED
    then show ?thesis
      using s' r start_worker_ok [OF ok] proxy_okD(6) [OF ok a(1)] by (auto simp: packet_parsed_def)
  next
    case FF_REQUEST_STATE_RECEIVING_FAIL
    then have "free_request s a = Inr s'" using s' r by (simp add: packet_parsed_def)
    then show ?thesis using proxy_ok_free [OF ok a(2)] by simp
  qed (use s' r ok in \<open>auto simp: packet_parsed_def\<close>)
qed

lemma packet_parsed_ok:
  assumes ok: "proxy_ok_but {a} s es" and ia: "(i, a) \<in> set es"
    and r: "heap s a = Some request" "state request = FF_REQUEST_STATE_RECEIVING_FAIL \<or> request_id request = i"
      "a \<notin> worked_on s \<longrightarrow> request_ok request"
    and s': "packet_parsed s i a = Inr s'"
  shows "\<exists>es'. proxy_ok s' es'"
proof -
  have ne: "i \<noteq> 0" "a \<noteq> 0" using proxy_okD(5) [OF ok ia] by auto
  have read: "read_request s a = Inr request" using r(1) ne by (simp add: read_request_Inr)
  show ?thesis
  proof (cases "state request = FF_REQUEST_STATE_RECEIVING_FAIL")
    case True
    obtain table where t: "remove_item s i = Inr (s\<lparr>requests := table\<rparr>)"
        "proxy_ok_but {a} (s\<lparr>requests := table\<rparr>) (AList.delete i es)"
      using proxy_ok_remove [OF ok] by blast
    have "a \<notin> snd ` set (AList.delete i es)"
      using snd_unique [OF proxy_okD(2) [OF ok] ia] by (auto simp: AList.delete_eq)
    moreover have "free_request (s\<lparr>requests := table\<rparr>) a = Inr s'"
      using True read t(1) ne s' by (simp add: packet_parsed_def)
    ultimately show ?thesis using proxy_ok_free [OF t(2)] by fastforce
  next
    case False
    then have "entry_ok s i a" using r by (auto simp: entry_ok_def)
    then have all: "proxy_ok s es" by (rule proxy_ok_settle [OF ok ia])
    have "a < next_request s" using proxy_okD(6) [OF ok] r(1) by blast
    then show ?thesis
      using False read s' all start_worker_ok [OF all]
      by (cases "state request") (auto simp: packet_parsed_def)
  qed
qed

lemma lookup_ok:
  assumes ok: "proxy_ok s es" and i: "i \<noteq> 0"
  obtains a s' es' request where "lookup_request s now src i = Inr (a, s')" "proxy_ok_but {a} s' es'"
    "(i, a) \<in> set es'" "heap s' a = Some request" "request_id request = i \<or> version request = 0"
    "a \<notin> worked_on s' \<longrightarrow> request_ok request" "source request \<noteq> take 16 src \<longrightarrow> proxy_ok s' es'"
    "workers s' = workers s" "a \<in> worked_on s' \<longrightarrow> ff_hash_table_get_item (requests s) i = Inr a"
proof (cases "map_of es i")
  case None
  have fresh: "next_request s \<notin> worked_on s" using proxy_okD(7) [OF ok] by blast
  obtain s' where l: "lookup_request s now src i = Inr (next_request s, s')"
      "proxy_ok_but {next_request s} s' (es @ [(i, next_request s)])" "may_receive s' i (next_request s)"
      "workers s' = workers s" "buffer s' = buffer s"
      "heap s' (next_request s) = Some (ff_request_alloc\<lparr>received_at := now, source := take 16 src\<rparr>)"
    by (rule lookup_new [OF ok None i])
  show thesis
    by (rule that [OF l(1,2) _ l(6) _ _ _ l(4)]) (use l(3,4,6) fresh in \<open>auto simp: may_receive_def\<close>)
next
  case (Some a)
  have get: "ff_hash_table_get_item (requests s) i = Inr a"
    using ht.get_law [OF proxy_okD(1) [OF ok], of i] Some by simp
  obtain request where r: "heap s a = Some request" "request_id request = i \<or> version request = 0"
      "a \<notin> worked_on s \<longrightarrow> request_ok request"
    using lookup_known(4) [OF ok Some] by (auto simp: may_receive_def)
  show thesis
    by (rule that [OF lookup_known(1-3) [OF ok Some] r]) (use ok get in auto)
qed

lemma known_packet_ok:
  assumes ok: "proxy_ok s es" and n: "unat n \<le> length bs" "unat n < 2 ^ 16"
    and raw: "ff_request_is_raw_http n (bytes bs @ rest) = Inr False"
    and i: "ff_request_parse_id n (bytes bs @ rest) = Inr i" "i \<noteq> 0"
    and s': "ff_proxy_process_incoming_packet s now src (bytes bs @ rest) n = Inr s'"
  shows "\<exists>es'. proxy_ok s' es'"
proof -
  let ?buff = "bytes bs @ rest"
  obtain a s1 es1 request where l: "lookup_request s now src i = Inr (a, s1)" "proxy_ok_but {a} s1 es1" "(i, a) \<in> set es1"
    and r: "heap s1 a = Some request" "request_id request = i \<or> version request = 0"
      "a \<notin> worked_on s1 \<longrightarrow> request_ok request" "source request \<noteq> take 16 src \<longrightarrow> proxy_ok s1 es1"
    using lookup_ok [OF ok i(2), of now src] by metis
  have a: "a \<noteq> 0" using proxy_okD(5) [OF l(2,3)] by simp
  show ?thesis
  proof (cases "source request = take 16 src")
    case False
    then show ?thesis
      using s' raw i l(1) r a by (auto simp: ff_proxy_process_incoming_packet_def read_request_def)
  next
    case True
    then obtain request' where r': "ff_request_parse_chunk request n ?buff = Inr request'"
        "packet_parsed (write_request s1 a request') i a = Inr s'"
      using s' raw i l(1) r(1) a by (auto simp: ff_proxy_process_incoming_packet_def read_request_def res_simps)
    have "a \<notin> worked_on s1 \<longrightarrow> request_ok request'"
      using r(3) r'(1) parse_chunk_safe [OF _ n, of request rest] by fastforce
    moreover have "state request' = FF_REQUEST_STATE_RECEIVING_FAIL \<or> request_id request' = i"
      using parse_chunk_id [OF r'(1) raw i(1) r(2)] .
    moreover have "proxy_ok_but {a} (write_request s1 a request') es1"
      using proxy_ok_write [OF l(2) r(1)] by simp
    ultimately show ?thesis
      using packet_parsed_ok [OF _ l(3) _ _ _ r'(2)] by simp
  qed
qed

lemma raw_packet_ok:
  assumes ok: "proxy_ok s es" and raw: "ff_request_is_raw_http n buff = Inr True"
    and s': "ff_proxy_process_incoming_packet s now src buff n = Inr s'"
  shows "proxy_ok s' es"
proof -
  obtain request where r: "ff_request_parse_chunk ff_request_alloc n buff = Inr request"
    using s' raw by (auto simp: ff_proxy_process_incoming_packet_def res_simps)
  let ?s = "snd (alloc_request s request)"
  have "packet_parsed ?s 0 (next_request s) = Inr s'"
    using s' raw r by (simp add: ff_proxy_process_incoming_packet_def alloc_request_def)
  moreover have "next_request s \<in> dom (heap ?s)" by (simp add: alloc_request_def)
  moreover have "next_request s \<notin> snd ` set es"
    using proxy_okD(5,6) [OF ok] by fastforce
  ultimately show ?thesis using packet_parsed_raw [OF alloc_raw_ok [OF ok]] by blast
qed

lemma incoming_packet_ok:
  assumes ok: "proxy_ok s es" and n: "unat n \<le> length bs" "unat n < 2 ^ 16"
    and s': "ff_proxy_process_incoming_packet s now src (bytes bs @ rest) n = Inr s'"
  shows "\<exists>es'. proxy_ok s' es'"
proof -
  obtain raw where raw: "ff_request_is_raw_http n (bytes bs @ rest) = Inr raw"
    using is_raw_http_bytes [OF n(1)] by blast
  show ?thesis
  proof (cases raw)
    case True
    then show ?thesis using raw_packet_ok [OF ok _ s'] raw by auto
  next
    case False
    then obtain i where i: "ff_request_parse_id n (bytes bs @ rest) = Inr i"
      using s' raw by (auto simp: ff_proxy_process_incoming_packet_def res_simps)
    then show ?thesis
      using known_packet_ok [OF ok n _ i _ s'] s' raw False ok
      by (cases "i = 0") (auto simp: ff_proxy_process_incoming_packet_def)
  qed
qed

lemma receive_packet_ok:
  assumes ok: "proxy_ok s es" and s': "receive_packet s now src bs = Inr s'"
  shows "\<exists>es'. proxy_ok s' es'"
proof -
  let ?bs = "take FF_PROXY_BUFF_SIZE bs"
  have len: "length ?bs \<le> FF_PROXY_BUFF_SIZE" by simp
  then have buff: "block_write (buffer s) 0 (bytes ?bs) = Inr (bytes ?bs @ drop (length ?bs) (buffer s))"
    using proxy_okD(4) [OF ok] by (simp add: block_write_def)
  have n: "unat (of_nat (length ?bs) :: 32 word) = length ?bs"
    using len by (intro unat_of_nat_32) (simp add: FF_PROXY_BUFF_SIZE_def)
  have "proxy_ok (s\<lparr>buffer := bytes ?bs @ drop (length ?bs) (buffer s)\<rparr>) es"
    using ok proxy_okD(4) [OF ok] len by (subst proxy_ok_fields) simp_all
  then show ?thesis
    using s' buff n len
    by (intro incoming_packet_ok [where bs = ?bs and n = "of_nat (length ?bs)"])
      (auto simp: receive_packet_def Let_def FF_PROXY_BUFF_SIZE_def)
qed

section \<open>The other threads keep the invariant\<close>

text \<open>The calls of a worker change its request but not its id, except the last two.\<close>

lemma worker_step_write:
  assumes "worker_step env s a c = Inr (Some (s', c'))" and "c \<noteq> Remove_Item" "c \<noteq> Free_Request"
  shows "\<exists>request request' out. heap s a = Some request \<and> same_id request request' \<and>
    s' = (write_request s a request')\<lparr>outbox := out\<rparr> \<and> (\<exists>d. c' = Some d \<and> d \<noteq> Free_Request)"
proof -
  obtain request where r: "read_request s a = Inr request"
    using assms by (cases c) (auto simp: res_simps)
  then have h: "heap s a = Some request" by (simp add: read_request_Inr)
  have intro: ?thesis if "same_id request request'" "s' = (write_request s a request')\<lparr>outbox := out\<rparr>"
      "c' = Some d" "d \<noteq> Free_Request" for request' out d
    using that h by blast
  have same: "s = (write_request s a request)\<lparr>outbox := outbox s\<rparr>"
    using h by (simp add: write_request_def fun_upd_idem)
  show ?thesis
  proof (cases c)
    case Vectorise
    then obtain request' where "ff_request_vectorise_payload request = Inr request'"
        "s' = write_request s a request'" "c' = Some Decrypt"
      using assms(1) r by (auto simp: res_simps)
    then show ?thesis by (intro intro [of request' "outbox s" Decrypt] res_allD [OF vectorise_id]) simp_all
  next
    case Decrypt
    then obtain request' where "ff_decrypt_request (env_evp env) (env_pbkdf2 env) request (encryption (env_config env)) = Inr request'"
        "s' = write_request s a request'"
        "c' = Some (if state request' = FF_REQUEST_STATE_DECRYPTED then Parse_Options else Remove_Item)"
      using assms(1) r by (auto simp: res_simps)
    then show ?thesis by (intro intro [of request' "outbox s"] res_allD [OF decrypt_id]) (auto split: if_splits)
  next
    case Parse_Options
    then obtain request' where "ff_request_parse_options_from_payload request = Inr request'"
        "s' = write_request s a request'"
        "c' = Some (if state request' = FF_REQUEST_STATE_PARSED_OPTIONS then Validate else Remove_Item)"
      using assms(1) r by (auto simp: res_simps)
    then show ?thesis by (intro intro [of request' "outbox s"] res_allD [OF options_from_payload_id]) (auto split: if_splits)
  next
    case Validate
    then obtain valid where "s' = s" "c' = Some (if valid then Send else Remove_Item)"
      using assms(1) r by (auto simp: res_simps)
    then show ?thesis using same by (intro intro [of request "outbox s"]) (auto split: if_splits)
  next
    case Send
    then obtain request' transport out where
        "ff_http_send_request (env_net env) (env_tls env) request = Inr (Some (request', transport, out))"
        "s' = (write_request s a request')\<lparr>outbox := outbox s @ [(transport, out)]\<rparr>" "c' = Some Remove_Item"
      using assms(1) r by (auto simp: res_simps)
    then show ?thesis using res_allD [OF send_id] by (intro intro) auto
  qed (use assms in auto)
qed

lemma remove_request_ok:
  assumes ok: "proxy_ok s es" and r: "heap s a = Some request"
    and s': "(if request_id request \<noteq> 0 then remove_item s (request_id request) else Inr s) = Inr s'"
  shows "\<exists>es'. proxy_ok s' es' \<and> a \<notin> snd ` set es' \<and> workers s' = workers s"
proof (cases "request_id request = 0")
  case True
  have "a \<notin> snd ` set es"
  proof
    assume "a \<in> snd ` set es"
    then obtain i where "(i, a) \<in> set es" by auto
    then show False using proxy_okD(5) [OF ok, of i a] r True by (auto simp: entry_ok_def)
  qed
  then show ?thesis using ok s' True by auto
next
  case False
  obtain table where t: "remove_item s (request_id request) = Inr (s\<lparr>requests := table\<rparr>)"
      "proxy_ok (s\<lparr>requests := table\<rparr>) (AList.delete (request_id request) es)"
    using proxy_ok_remove [OF ok] by blast
  have "a \<notin> snd ` set (AList.delete (request_id request) es)"
  proof
    assume "a \<in> snd ` set (AList.delete (request_id request) es)"
    then obtain i where "(i, a) \<in> set es" "i \<noteq> request_id request" by (auto simp: AList.delete_eq)
    then show False using proxy_okD(5) [OF ok, of i a] r by (auto simp: entry_ok_def)
  qed
  then show ?thesis using t s' False by auto
qed

lemma set_worker_ok:
  assumes ok: "proxy_ok s es" and k: "k < length (workers s)" "workers s ! k = (a, c)"
    and d: "d = Free_Request \<longrightarrow> a \<notin> snd ` set es"
  shows "proxy_ok (s\<lparr>workers := (workers s)[k := (a, d)]\<rparr>) es"
proof (rule proxy_ok_workers [OF ok])
  have a: "a \<in> worked_on s" using k by (metis fst_conv image_eqI nth_mem)
  have "map fst ((workers s)[k := (a, d)]) = map fst (workers s)"
    using k by (metis fst_conv list_update_id map_update nth_map)
  then have same: "fst ` set ((workers s)[k := (a, d)]) = worked_on s"
    by (metis set_map)
  then show "\<forall>a\<in>fst ` set ((workers s)[k := (a, d)]). a < next_request s"
    and "worked_on s \<subseteq> fst ` set ((workers s)[k := (a, d)]) \<union> - snd ` set es"
    using proxy_okD(7) [OF ok] by auto
  show "\<forall>(b, e)\<in>set ((workers s)[k := (a, d)]). e = Free_Request \<longrightarrow> b \<notin> snd ` set es"
    using proxy_okD(8) [OF ok] d set_update_subset_insert [of "workers s" k "(a, d)"] by fastforce
qed

lemma drop_worker_ok:
  assumes ok: "proxy_ok s es" and k: "k < length (workers s)" "workers s ! k = (a, c)" and a: "a \<notin> snd ` set es"
  shows "proxy_ok (s\<lparr>workers := take k (workers s) @ drop (Suc k) (workers s)\<rparr>) es"
proof (rule proxy_ok_workers [OF ok])
  let ?ws = "take k (workers s) @ drop (Suc k) (workers s)"
  have ws: "set (workers s) = insert (a, c) (set ?ws)"
    using k by (metis id_take_nth_drop list.set(2) set_append Un_insert_right)
  then have sub: "set ?ws \<subseteq> set (workers s)" by blast
  then show "\<forall>b\<in>fst ` set ?ws. b < next_request s"
    using proxy_okD(7) [OF ok] by blast
  show "worked_on s \<subseteq> fst ` set ?ws \<union> - snd ` set es"
    using ws a by auto
  show "\<forall>(b, e)\<in>set ?ws. e = Free_Request \<longrightarrow> b \<notin> snd ` set es"
    using proxy_okD(8) [OF ok] sub by blast
qed

lemma work_ok:
  assumes ok: "proxy_ok s es" and k: "k < length (workers s)" and s': "work env s k = Inr s'"
  shows "\<exists>es'. proxy_ok s' es'"
proof -
  obtain a c where ac: "workers s ! k = (a, c)" by (cases "workers s ! k")
  have a: "a \<in> worked_on s" using k ac by (metis fst_conv image_eqI nth_mem)
  obtain r where r: "worker_step env s a c = Inr r"
    using s' ac by (auto simp: work_def res_simps)
  consider (blocked) "r = None" | (free) s1 c1 where "r = Some (s1, c1)" "c = Free_Request"
    | (remove) s1 c1 where "r = Some (s1, c1)" "c = Remove_Item"
    | (other) s1 c1 where "r = Some (s1, c1)" "c \<noteq> Remove_Item" "c \<noteq> Free_Request"
    by (cases r; cases "c = Free_Request"; cases "c = Remove_Item") auto
  then show ?thesis
  proof cases
    case blocked
    then show ?thesis using s' ac r ok by (auto simp: work_def)
  next
    case free
    have "(a, Free_Request) \<in> set (workers s)" using k ac free(2) by (metis nth_mem)
    then have out: "a \<notin> snd ` set es" by (rule proxy_okD(8) [OF ok])
    have s1: "free_request s a = Inr s1" "c1 = None" using r free by (auto simp: res_simps)
    then have "proxy_ok s1 es" using proxy_ok_free [OF ok out] by simp
    moreover have "workers s1 = workers s" using s1(1) by (auto simp: free_request_def res_simps)
    ultimately show ?thesis
      using drop_worker_ok [of s1 es k a c] out s' ac k r free(1) s1(2) by (auto simp: work_def)
  next
    case remove
    then obtain request where req: "read_request s a = Inr request"
        "(if request_id request \<noteq> 0 then remove_item s (request_id request) else Inr s) = Inr s1" "c1 = Some Free_Request"
      using r by (auto simp: res_simps)
    have "heap s a = Some request" using req(1) by (simp add: read_request_Inr)
    then obtain es1 where "proxy_ok s1 es1" "a \<notin> snd ` set es1" "workers s1 = workers s"
      using remove_request_ok [OF ok _ req(2)] by blast
    then show ?thesis
      using set_worker_ok [of s1 es1 k a c Free_Request] s' ac k r remove(1) req(3) by (auto simp: work_def)
  next
    case other
    then obtain request request' out d where w: "heap s a = Some request" "same_id request request'"
        "s1 = (write_request s a request')\<lparr>outbox := out\<rparr>" "c1 = Some d" "d \<noteq> Free_Request"
      using worker_step_write [of env s a c s1 c1] r by metis
    have "proxy_ok s1 es" using proxy_ok_write [OF ok w(1)] w(2,3) a by simp
    then show ?thesis
      using set_worker_ok [of s1 es k a c d] s' ac k r other(1) w by (auto simp: work_def)
  qed
qed

lemma clean_up_ok:
  assumes ok: "proxy_ok s es"
  shows "clean_up_scan s now = Inr s' \<Longrightarrow> \<exists>es'. proxy_ok s' es'"
    and "clean_up_remove a s = Inr s' \<Longrightarrow> \<exists>es'. proxy_ok s' es'"
proof -
  show "clean_up_scan s now = Inr s' \<Longrightarrow> \<exists>es'. proxy_ok s' es'"
    using ok by (auto simp: clean_up_scan_def res_simps)
  assume "clean_up_remove a s = Inr s'"
  then obtain request s1 where "read_request s a = Inr request" "remove_item s (request_id request) = Inr s1"
      "s' = s1\<lparr>requests_to_remove := tl (requests_to_remove s1)\<rparr>"
    by (auto simp: clean_up_remove_def res_simps)
  then show "\<exists>es'. proxy_ok s' es'"
    using proxy_ok_remove [OF ok, of "request_id request"] by (metis proxy_ok_fields(2) sum.inject(2))
qed

section \<open>Reachable states\<close>

lemma init_ok: "proxy_init = Inr s \<Longrightarrow> proxy_ok s []"
proof -
  assume "proxy_init = Inr s"
  moreover obtain table where "ff_hash_table_init 16 = Inr table" "stores table []"
    using init_stores [of 16] by auto
  ultimately show ?thesis
    by (intro proxy_okI) (auto simp: proxy_init_def block_alloc_def)
qed

lemma proxy_step_ok: "proxy_step envs s r \<Longrightarrow> proxy_ok s es \<Longrightarrow> r = Inr s' \<Longrightarrow> \<exists>es'. proxy_ok s' es'"
proof (induction rule: proxy_step.induct)
  case (packet bs s now src)
  then show ?case using receive_packet_ok by blast
next
  case (work env k s)
  then show ?case using work_ok by blast
next
  case (scan s now)
  then show ?case using clean_up_ok(1) by blast
next
  case (clean s a as)
  then show ?case using clean_up_ok(2) by blast
qed

lemma reachable_ok: "reachable envs s \<Longrightarrow> \<exists>es. proxy_ok s es"
proof (induction rule: reachable.induct)
  case (start s)
  then show ?case using init_ok by blast
next
  case (step s t)
  then show ?case using proxy_step_ok by blast
qed



section \<open>Packets for requests that no worker has\<close>

lemma packet_parsed_safe:
  assumes "proxy_ok_but X s es" and "heap s a = Some request" "a \<noteq> 0" "request_ok request"
  shows "\<exists>s'. packet_parsed s i a = Inr s'"
proof -
  have read: "read_request s a = Inr request" using assms by (simp add: read_request_Inr)
  show ?thesis
  proof (cases "state request = FF_REQUEST_STATE_RECEIVING_FAIL")
    case True
    obtain table where "remove_item s i = Inr (s\<lparr>requests := table\<rparr>)"
      using proxy_ok_remove [OF assms(1)] by blast
    moreover have "read_request (s\<lparr>requests := table\<rparr>) a = Inr request"
      using assms(2,3) by (simp add: read_request_Inr)
    ultimately show ?thesis
      using True read request_ok_free [OF assms(4)] by (auto simp: packet_parsed_def free_request_def)
  next
    case False
    then show ?thesis using read by (cases "state request") (auto simp: packet_parsed_def)
  qed
qed

lemma incoming_packet_safe:
  assumes ok: "proxy_ok s es" and n: "unat n \<le> length bs" "unat n < 2 ^ 16" "10 \<le> length bs"
    and i: "ff_request_parse_id n (bytes bs @ rest) = Inr i"
    and idle: "ff_hash_table_get_item (requests s) i = Inr g" "g \<notin> worked_on s"
  shows "\<exists>s'. ff_proxy_process_incoming_packet s now src (bytes bs @ rest) n = Inr s'"
proof -
  let ?buff = "bytes bs @ rest"
  obtain raw where raw: "ff_request_is_raw_http n ?buff = Inr raw"
    using is_raw_http_bytes [OF n(1)] by blast
  consider "raw" | "\<not> raw" "i = 0" | "\<not> raw" "i \<noteq> 0" by blast
  then show ?thesis
  proof cases
    case 1
    obtain request where r: "ff_request_parse_chunk ff_request_alloc n ?buff = Inr request" "request_ok request"
      using parse_chunk_safe [OF request_ok_alloc n(1,2), of rest] by blast
    have "\<exists>s'. packet_parsed (snd (alloc_request s request)) 0 (next_request s) = Inr s'"
      using r(2) proxy_okD(3) [OF ok] by (intro packet_parsed_safe [OF alloc_raw_ok [OF ok]]) (simp_all add: alloc_request_def)
    then show ?thesis
      using raw 1 r(1) by (simp add: ff_proxy_process_incoming_packet_def alloc_request_def)
  next
    case 2
    then show ?thesis using raw i by (simp add: ff_proxy_process_incoming_packet_def)
  next
    case 3
    obtain a s1 es1 request where l: "lookup_request s now src i = Inr (a, s1)" "proxy_ok_but {a} s1 es1" "(i, a) \<in> set es1"
      and r: "heap s1 a = Some request" "a \<notin> worked_on s1 \<longrightarrow> request_ok request"
      and w: "workers s1 = workers s" "a \<in> worked_on s1 \<longrightarrow> ff_hash_table_get_item (requests s) i = Inr a"
      using lookup_ok [OF ok 3(2), of now src] by metis
    have a: "a \<noteq> 0" using proxy_okD(5) [OF l(2,3)] by simp
    have "request_ok request" using r(2) w idle by auto
    then obtain request' where r': "ff_request_parse_chunk request n ?buff = Inr request'" "request_ok request'"
      using parse_chunk_safe [OF _ n(1,2), of request rest] by blast
    have "\<exists>s'. packet_parsed (write_request s1 a request') i a = Inr s'"
      using proxy_ok_write [OF l(2) r(1)] r'(2) a by (intro packet_parsed_safe) simp_all
    then show ?thesis
      using raw 3 i l(1) r(1) r'(1) a by (auto simp: ff_proxy_process_incoming_packet_def read_request_def)
  qed
qed

text \<open>
  C31. The main thread survives every packet. In every reachable state, a datagram of at least ten
  bytes, whatever it holds, is handled without a fault, provided that no worker is processing the
  request with its id: the look-up, a new request, the parser, the removal and the deallocation of
  a failed request all stay within live memory.
\<close>

theorem idle_packet_handled:
  assumes "reachable envs s" and "10 \<le> length bs" "length bs \<le> FF_PROXY_BUFF_SIZE"
    and "ff_request_parse_id (of_nat (length bs)) (bytes bs @ drop (length bs) (buffer s)) = Inr i"
    and "ff_hash_table_get_item (requests s) i = Inr a" and "a \<notin> fst ` set (workers s)"
  shows "\<exists>s'. receive_packet s now src bs = Inr s'"
proof -
  obtain es where ok: "proxy_ok s es" using reachable_ok [OF assms(1)] by blast
  let ?buff = "bytes bs @ drop (length bs) (buffer s)"
  have buff: "block_write (buffer s) 0 (bytes bs) = Inr ?buff"
    using proxy_okD(4) [OF ok] assms(3) by (simp add: block_write_def)
  have n: "unat (of_nat (length bs) :: 32 word) = length bs"
    using assms(3) by (intro unat_of_nat_32) (simp add: FF_PROXY_BUFF_SIZE_def)
  have "proxy_ok (s\<lparr>buffer := ?buff\<rparr>) es"
    using ok proxy_okD(4) [OF ok] assms(3) by (subst proxy_ok_fields) simp_all
  then have "\<exists>s'. ff_proxy_process_incoming_packet (s\<lparr>buffer := ?buff\<rparr>) now src ?buff (of_nat (length bs)) = Inr s'"
    using assms(2-6) n by (intro incoming_packet_safe) (auto simp: FF_PROXY_BUFF_SIZE_def)
  then show ?thesis
    using buff assms(3) by (simp add: receive_packet_def)
qed

theorem idle_packet_handled_witness:
  "\<exists>s s'. proxy_init = Inr s \<and> receive_packet s 0 [] sample_http = Inr s'"
proof -
  obtain table where t: "ff_hash_table_init 16 = Inr table" "stores table []"
    using init_stores [of 16] by auto
  then obtain s where s: "proxy_init = Inr s" "requests s = table" "workers s = []"
    by (auto simp: proxy_init_def)
  let ?buff = "bytes sample_http @ drop (length sample_http) (buffer s)"
  have len: "length sample_http = 14" by code_simp
  have "ff_request_is_raw_http (of_nat (length sample_http)) ?buff = Inr True"
    unfolding len by (simp add: ff_request_is_raw_http_def HTTP_METHODS_def sample_http_def block_read_def)
  then have id0: "ff_request_parse_id (of_nat (length sample_http)) ?buff = Inr 0"
    by (simp add: ff_request_parse_id_def)
  have get: "ff_hash_table_get_item (requests s) 0 = Inr 0"
    using ht.get_law [OF t(2), of 0] s(2) by simp
  have "reachable (\<lambda>env :: (byte list \<times> byte list) env. True) s" using s(1) by (rule reachable.start)
  then have "\<exists>s'. receive_packet s 0 [] sample_http = Inr s'"
    by (rule idle_packet_handled [OF _ _ _ id0 get]) (simp_all add: len s(3) FF_PROXY_BUFF_SIZE_def)
  then show ?thesis using s(1) by blast
qed

end
