(* ===== verification/Server_Packets.thy ===== *)
theory Server_Packets
  imports Server_Inv
begin

text \<open>
  The main thread on the packets of a well-formed request, and what goes wrong between the
  threads: a duplicate packet frees a request under its worker, and an empty datagram ends the
  server. The last section has the passes of the clean-up thread.
\<close>

section \<open>Well-formed packets\<close>

lemma chunk_packet_not_raw:
  assumes "unat n = length (chunk_packet r msg c l ws t)"
  shows "ff_request_is_raw_http n (bytes (chunk_packet r msg c l ws t) @ rest) = Inr False"
proof -
  have "chunk_packet r msg c l ws t = 0 # tl (chunk_packet r msg c l ws t)"
    by (simp add: chunk_packet_def data_packet_def wire_header_def store_be_def store_le_def upt_rec)
  then show ?thesis
    using version_1_not_raw [of n "tl (chunk_packet r msg c l ws t)" rest] assms by (metis order_refl)
qed

lemma chunk_packet_id:
  assumes "unat n = length (chunk_packet r msg c l ws t)"
  shows "ff_request_parse_id n (bytes (chunk_packet r msg c l ws t) @ rest) = Inr r"
proof -
  have "load_field (bytes (chunk_packet r msg c l ws t) @ rest) 2 8 = Inr (load_le (store_be 8 r) :: 64 word)"
    by (subst load_field_bytes) (simp_all add: chunk_packet_def data_packet_def wire_header_def)
  then show ?thesis
    by (simp add: ff_request_parse_id_def chunk_packet_not_raw [OF assms] ntohll_load)
qed

text \<open>The buffer after a packet.\<close>

definition received :: "proxy \<Rightarrow> byte list \<Rightarrow> proxy" where
  "received s bs = s\<lparr>buffer := bytes bs @ drop (length bs) (buffer s)\<rparr>"

lemma received_fields [simp]:
  "requests (received s bs) = requests s" "workers (received s bs) = workers s" "heap (received s bs) = heap s"
  "next_request (received s bs) = next_request s" "outbox (received s bs) = outbox s"
  "requests_to_remove (received s bs) = requests_to_remove s"
  "buffer (received s bs) = bytes bs @ drop (length bs) (buffer s)"
  by (simp_all add: received_def)

lemma received_ok: "proxy_ok s es \<Longrightarrow> length bs \<le> FF_PROXY_BUFF_SIZE \<Longrightarrow> proxy_ok (received s bs) es"
  using proxy_okD(4) [of "{}" s es] unfolding received_def by (subst proxy_ok_fields) simp_all

lemma receive_chunk_packet:
  assumes ok: "proxy_ok s es" and p: "p = chunk_packet r msg c l ws t" "length p \<le> FF_PROXY_BUFF_SIZE" and r: "r \<noteq> 0"
    and l: "lookup_request (received s p) now src r = Inr (a, s1)" "heap s1 a = Some request" "a \<noteq> 0"
      "source request = take 16 src"
    and parse: "ff_request_parse_chunk request (of_nat (length p)) (bytes p @ drop (length p) (buffer s)) = Inr request'"
  shows "receive_packet s now src p = packet_parsed (write_request s1 a request') r a"
proof -
  have n: "unat (of_nat (length p) :: 32 word) = length p"
    using p(2) by (intro unat_of_nat_32) (simp add: FF_PROXY_BUFF_SIZE_def)
  have "block_write (buffer s) 0 (bytes p) = Inr (bytes p @ drop (length p) (buffer s))"
    using proxy_okD(4) [OF ok] p(2) by (simp add: block_write_def)
  then have "receive_packet s now src p =
      ff_proxy_process_incoming_packet (received s p) now src (bytes p @ drop (length p) (buffer s)) (of_nat (length p))"
    using p(2) by (simp add: receive_packet_def received_def)
  also have "\<dots> = packet_parsed (write_request s1 a request') r a"
    using chunk_packet_not_raw [of "of_nat (length p)" r msg c l ws t] chunk_packet_id [of "of_nat (length p)" r msg c l ws t]
      n r l parse unfolding p(1)
    by (simp add: ff_proxy_process_incoming_packet_def read_request_def)
  finally show ?thesis .
qed

lemma reassembling_new: "reassembling r msg (ff_request_alloc\<lparr>received_at := now, source := src\<rparr>)"
  using reassembling_alloc [of r msg]
  by (simp add: reassembling_def request_ok_def options_ok_def payload_ok_def ff_request_alloc_def)

section \<open>A duplicate packet frees a request under its worker\<close>

text \<open>A packet that holds a whole message completes a new request; a second copy of it fails it.\<close>

lemma whole_packet:
  assumes p: "p = chunk_packet r msg 0 (length msg) ws t" "length p \<le> FF_PROXY_BUFF_SIZE"
    and msg: "msg \<noteq> []" and opts: "packet_options_ok 0 ws t" "length ws < FF_REQUEST_MAX_OPTIONS"
  shows "\<exists>request. ff_request_parse_chunk (ff_request_alloc\<lparr>received_at := now, source := src\<rparr>)
      (of_nat (length p)) (bytes p @ rest) = Inr request \<and> state request = FF_REQUEST_STATE_RECEIVED \<and>
      source request = src \<and>
      (\<forall>rest'. \<exists>request'. ff_request_parse_chunk request (of_nat (length p)) (bytes p @ rest') = Inr request' \<and>
         state request' = FF_REQUEST_STATE_RECEIVING_FAIL \<and> request_ok request')"
proof -
  let ?new = "ff_request_alloc\<lparr>received_at := now, source := src\<rparr>" and ?n = "of_nat (length p) :: 32 word"
  have n: "unat ?n = length p" "length p < 2 ^ 16"
    using p(2) by (simp_all add: FF_PROXY_BUFF_SIZE_def unat_of_nat_32)
  have small: "length msg < 2 ^ 16"
    using n(2) p(1) by (simp add: chunk_packet_def data_packet_def)
  have carries: "carries r msg 0 (length msg) (length ws) (?n, bytes p @ rest')" for rest'
    using n p(1) opts(1) by (auto simp: carries_def)
  have "accepts msg 0 (length msg) (length ws) ?new"
    using opts(2) by (simp add: accepts_def ff_request_alloc_def)
  then obtain request where r: "ff_request_parse_chunk ?new ?n (bytes p @ rest) = Inr request"
      "reassembling r msg request" "payload request = [message_node msg 0 (length msg)]"
      "state request = FF_REQUEST_STATE_RECEIVED"
    using parse_chunk_step [OF reassembling_new [where r = r and msg = msg and now = now and src = src] small carries [of rest]] by (auto simp: ff_request_alloc_def)
  have "unat (of_nat (length msg) :: 16 word) = length msg" using small by (rule unat_of_nat_16)
  then have "\<not> accepts msg 0 (length msg) (length ws) request"
    using r(3) msg by (simp add: accepts_def overlaps_existing_node_def message_node_def)
  then have "\<exists>request'. ff_request_parse_chunk request ?n (bytes p @ rest') = Inr request' \<and>
      state request' = FF_REQUEST_STATE_RECEIVING_FAIL \<and> request_ok request'" for rest'
    using parse_chunk_step [OF r(2) small carries [of rest']] by (auto simp: reassembling_def)
  moreover have "source request = src"
    using res_allD [OF parse_chunk_source r(1)] by simp
  ultimately show ?thesis using r(1,4) by blast
qed

lemma packet_parsed_fail:
  assumes ok: "proxy_ok_but X s es" and r: "heap s a = Some request" "a \<noteq> 0" "request_ok request"
    and fail: "state request = FF_REQUEST_STATE_RECEIVING_FAIL" and i: "i \<noteq> 0"
  obtains table where "packet_parsed s i a = Inr (s\<lparr>requests := table, heap := (heap s)(a := None)\<rparr>)"
proof -
  obtain table where t: "remove_item s i = Inr (s\<lparr>requests := table\<rparr>)"
    using proxy_ok_remove [OF ok] by blast
  have "read_request s a = Inr request" "read_request (s\<lparr>requests := table\<rparr>) a = Inr request"
    using r(1,2) by (simp_all add: read_request_Inr)
  then show thesis
    using that t fail i request_ok_free [OF r(3)] by (simp add: packet_parsed_def free_request_def)
qed

lemma init_state: obtains s where "proxy_init = Inr s" "proxy_ok s []" "workers s = []" "next_request s = 1"
proof -
  obtain table where "ff_hash_table_init 16 = Inr table" using init_stores [of 16] by auto
  then obtain s where "proxy_init = Inr s" "workers s = []" "next_request s = 1"
    by (auto simp: proxy_init_def)
  then show thesis using that init_ok by blast
qed

text \<open>The first copy starts a worker for a new request.\<close>

lemma first_packet:
  assumes ok: "proxy_ok s es" and new: "map_of es r = None" "r \<noteq> 0"
    and p: "p = chunk_packet r msg c l ws t" "length p \<le> FF_PROXY_BUFF_SIZE"
    and parse: "ff_request_parse_chunk (ff_request_alloc\<lparr>received_at := now, source := take 16 src\<rparr>)
      (of_nat (length p)) (bytes p @ drop (length p) (buffer s)) = Inr request"
  obtains s1 where "receive_packet s now src p = packet_parsed s1 r (next_request s)"
    "proxy_ok_but {next_request s} s1 (es @ [(r, next_request s)])" "heap s1 (next_request s) = Some request"
    "workers s1 = workers s" "buffer s1 = bytes p @ drop (length p) (buffer s)"
proof -
  have ok': "proxy_ok (received s p) es" using received_ok [OF ok p(2)] .
  obtain s1 where s1: "lookup_request (received s p) now src r = Inr (next_request s, s1)"
      "proxy_ok_but {next_request s} s1 (es @ [(r, next_request s)])" "workers s1 = workers s"
      "buffer s1 = bytes p @ drop (length p) (buffer s)"
      "heap s1 (next_request s) = Some (ff_request_alloc\<lparr>received_at := now, source := take 16 src\<rparr>)"
    by (rule lookup_new [OF ok' new, of now src]) simp
  have "receive_packet s now src p = packet_parsed (write_request s1 (next_request s) request) r (next_request s)"
    using s1 proxy_okD(3) [OF ok] by (intro receive_chunk_packet [OF ok p new(2) _ _ _ _ parse]) simp_all
  moreover have "proxy_ok_but {next_request s} (write_request s1 (next_request s) request) (es @ [(r, next_request s)])"
    using proxy_ok_write [OF s1(2,5)] by simp
  ultimately show thesis using s1(3,4) by (intro that [of "write_request s1 (next_request s) request"]) simp_all
qed

text \<open>
  C32. A duplicated datagram makes a worker use freed memory. The packet that completes a request
  starts its worker but leaves the request in the table. If the network delivers the same datagram
  a second time before the worker has run, the main thread takes it for an overlapping chunk,
  removes the request and frees it; the next step of the worker is a use after free.
\<close>

theorem duplicate_packet_use_after_free:
  assumes p: "p = chunk_packet r msg 0 (length msg) ws t" "length p \<le> FF_PROXY_BUFF_SIZE" and r: "r \<noteq> 0"
    and msg: "msg \<noteq> []" and opts: "packet_options_ok 0 ws t" "length ws < FF_REQUEST_MAX_OPTIONS" and env: "envs env"
  shows "\<exists>s0 s1 s2. proxy_init = Inr s0 \<and> receive_packet s0 now src p = Inr s1 \<and>
    receive_packet s1 now' src p = Inr s2 \<and> reachable envs s2 \<and> proxy_step envs s2 (Inl UseAfterFree)"
proof -
  obtain s0 where s0: "proxy_init = Inr s0" "proxy_ok s0 []" "workers s0 = []" "next_request s0 = 1"
    by (rule init_state)
  obtain request where q: "ff_request_parse_chunk (ff_request_alloc\<lparr>received_at := now, source := take 16 src\<rparr>)
        (of_nat (length p)) (bytes p @ drop (length p) (buffer s0)) = Inr request"
      "state request = FF_REQUEST_STATE_RECEIVED" "source request = take 16 src"
      "\<forall>rest'. \<exists>request'. ff_request_parse_chunk request (of_nat (length p)) (bytes p @ rest') = Inr request' \<and>
         state request' = FF_REQUEST_STATE_RECEIVING_FAIL \<and> request_ok request'"
    using whole_packet [OF p msg opts, where now = now and src = "take 16 src" and rest = "drop (length p) (buffer s0)"] by blast
  obtain s where s: "receive_packet s0 now src p = packet_parsed s r 1" "proxy_ok_but {1} s [(r, 1)]"
      "heap s 1 = Some request" "workers s = []"
    by (rule first_packet [OF s0(2) _ r p q(1)]) (use s0(3,4) in simp_all)
  let ?s1 = "s\<lparr>workers := [(1, Vectorise)]\<rparr>"
  have s1: "receive_packet s0 now src p = Inr ?s1"
    using s q(2) by (simp add: packet_parsed_def read_request_def)
  obtain es1 where ok1: "proxy_ok ?s1 es1" using receive_packet_ok [OF s0(2) s1] by blast
  have "stores (requests ?s1) [(r, 1)]" using proxy_okD(1) [OF s(2)] by simp
  then have get: "ff_hash_table_get_item (requests ?s1) r = Inr 1"
    using ht.get_law [of "requests ?s1" "[(r, 1)]" r] by simp
  obtain request' where q': "ff_request_parse_chunk request (of_nat (length p)) (bytes p @ drop (length p) (buffer ?s1)) = Inr request'"
      "state request' = FF_REQUEST_STATE_RECEIVING_FAIL" "request_ok request'"
    using q(4) by blast
  let ?s = "write_request (received ?s1 p) 1 request'"
  have "receive_packet ?s1 now' src p = packet_parsed ?s r 1"
    using get s(3) q(3) by (intro receive_chunk_packet [OF ok1 p r _ _ _ _ q'(1)]) (simp_all add: lookup_request_def)
  moreover have "proxy_ok_but {1} ?s es1"
    using received_ok [OF ok1 p(2)] s(3) by (intro proxy_ok_write [where request = request]) (auto simp: proxy_ok_but_def)
  then obtain table where "packet_parsed ?s r 1 = Inr (?s\<lparr>requests := table, heap := (heap ?s)(1 := None)\<rparr>)"
    by (rule packet_parsed_fail [of _ ?s _ 1 request' r]) (use q'(2,3) r in simp_all)
  ultimately obtain s2 where s2: "receive_packet ?s1 now' src p = Inr s2" "heap s2 1 = None" "workers s2 = [(1, Vectorise)]"
    by simp
  have "p \<noteq> []" using msg unfolding p(1) by (simp add: chunk_packet_def data_packet_def wire_header_def)
  then have "reachable envs s2"
    using reachable.start [OF s0(1), of envs] proxy_step.packet [of p envs s0 now src] proxy_step.packet [of p envs ?s1 now' src]
      s1 s2(1) reachable.step by metis
  moreover have "work env s2 0 = Inl UseAfterFree"
    using s2(2,3) by (simp add: work_def read_request_def)
  ultimately show ?thesis
    using s0(1) s1 s2 env proxy_step.work [of envs env 0 s2] by auto
qed

definition sample_env :: "(byte list \<times> byte list) env" where
  "sample_env = \<lparr>env_config = sample_started, env_evp = toy_evp, env_pbkdf2 = toy_pbkdf2, env_now = 1000,
     env_net = sample_net, env_tls = sample_tls\<rparr>"

theorem duplicate_packet_use_after_free_witness:
  "\<exists>s0 s1 s2. proxy_init = Inr s0 \<and>
    receive_packet s0 0 [] (chunk_packet 7 [1] 0 (length [1 :: byte]) [] FF_REQUEST_OPTION_TYPE_EOL) = Inr s1 \<and>
    receive_packet s1 1 [] (chunk_packet 7 [1] 0 (length [1 :: byte]) [] FF_REQUEST_OPTION_TYPE_EOL) = Inr s2 \<and>
    reachable ((=) sample_env) s2 \<and> proxy_step ((=) sample_env) s2 (Inl UseAfterFree)"
  by (rule duplicate_packet_use_after_free [OF refl])
    (simp_all add: chunk_packet_def data_packet_def wire_options_simps packet_options_ok_def FF_PROXY_BUFF_SIZE_def
      FF_REQUEST_MAX_OPTIONS_def)

text \<open>
  C33. An empty datagram ends the server. \<open>recvfrom\<close> returns 0 for a UDP datagram without data, which
  the receive loop takes for the end of the stream: whoever sends one makes \<open>ff_proxy_start\<close> leave
  its loop, free its table and return 0, whatever was received before and would arrive later.
\<close>

theorem empty_datagram_stops_server:
  assumes "reachable envs s"
  shows "\<exists>s'. receive_loop s (Datagram now src [] # rs) = Inr (Some 0, s') \<and>
    node_at (requests s') = Map.empty \<and> bucket_at (requests s') = Map.empty"
proof -
  obtain es where "proxy_ok s es" using reachable_ok [OF assms] by blast
  then have "stores (requests s) es" by (rule proxy_okD(1))
  then obtain T H ps where "table_ok (requests s) T H ps" by (auto simp: stores_def holds_def)
  then show ?thesis using hash_table_free_all by fastforce
qed

theorem empty_datagram_stops_server_witness:
  "\<exists>s s'. proxy_init = Inr s \<and> receive_loop s (Datagram 0 [] [] # [Datagram 1 [] [65]]) = Inr (Some 0, s') \<and>
    node_at (requests s') = Map.empty \<and> bucket_at (requests s') = Map.empty"
proof -
  obtain s where s: "proxy_init = Inr s" by (rule init_state)
  have "reachable ((=) sample_env) s" using s by (rule reachable.start)
  from empty_datagram_stops_server [OF this] s show ?thesis by blast
qed

section \<open>The clean-up thread\<close>

lemma stores_props:
  assumes "stores ht es"
  shows "ht_length ht = of_nat (length es)" and "distinct (map fst es)"
proof -
  obtain T H ps where "table_ok ht T H ps" and es: "es = entries ht ps"
    using assms by (auto simp: stores_def holds_def)
  then have ps: "distinct ps" "inj_on (node_id ht) (set ps)" "ht_length ht = of_nat (length ps)"
    by (auto simp: table_ok_def list_ok_def)
  then show "ht_length ht = of_nat (length es)" by (simp add: es entries_def)
  show "distinct (map fst es)" using ps by (simp add: es entries_def comp_def distinct_map)
qed

definition expired :: "proxy \<Rightarrow> int \<Rightarrow> 64 word \<times> addr \<Rightarrow> bool" where
  "expired s now e \<longleftrightarrow> has_expired now (the (heap s (snd e)))"

lemma scan_expired_eq:
  assumes "\<And>e. e \<in> set es \<Longrightarrow> snd e \<noteq> 0 \<and> heap s (snd e) \<noteq> None" and "length found + length es \<le> n"
  shows "scan_expired s now n (map snd es) found = Inr (found @ map snd (filter (expired s now) es))"
  using assms
proof (induction es arbitrary: found)
  case (Cons e es)
  obtain request where "heap s (snd e) = Some request" "snd e \<noteq> 0" using Cons.prems(1) [of e] by auto
  then show ?case
    using Cons by (simp add: read_request_def expired_def)
qed simp

lemma delete_entry:
  assumes "distinct (map fst es)" "distinct (map snd es)" "(i, a) \<in> set es"
  shows "AList.delete i es = filter (\<lambda>e. snd e \<noteq> a) es"
proof -
  have "fst e = i \<longleftrightarrow> snd e = a" if "e \<in> set es" for e
    using assms that by (metis eq_key_imp_eq_value prod.collapse snd_unique)
  then show ?thesis unfolding AList.delete_eq by (intro filter_cong) (auto simp: case_prod_beta)
qed

lemma clean_up_removes:
  assumes "proxy_ok s es" and "set found \<subseteq> snd ` set es" and "distinct found"
  shows "\<exists>s'. res_fold clean_up_remove found s = Inr s' \<and> heap s' = heap s \<and>
    proxy_ok s' (filter (\<lambda>e. snd e \<notin> set found) es)"
  using assms
proof (induction found arbitrary: s es)
  case (Cons a found)
  note ok = Cons.prems(1)
  obtain i where ia: "(i, a) \<in> set es" using Cons.prems(2) by auto
  obtain request where r: "heap s a = Some request" "request_id request = i" "a \<noteq> 0"
    using proxy_okD(5) [OF ok ia] by (auto simp: entry_ok_def)
  obtain table where t: "remove_item s i = Inr (s\<lparr>requests := table\<rparr>)" "proxy_ok (s\<lparr>requests := table\<rparr>) (AList.delete i es)"
    using proxy_ok_remove [OF ok] by blast
  let ?s = "s\<lparr>requests := table, requests_to_remove := tl (requests_to_remove s)\<rparr>" and ?es = "filter (\<lambda>e. snd e \<noteq> a) es"
  have step: "clean_up_remove a s = Inr ?s"
    using r t(1) by (simp add: clean_up_remove_def read_request_def)
  have ok': "proxy_ok ?s ?es"
    using t(2) unfolding delete_entry [OF stores_props(2) [OF proxy_okD(1) [OF ok]] proxy_okD(2) [OF ok] ia]
    by (simp only: proxy_ok_fields)
  have sub: "set found \<subseteq> snd ` set ?es"
  proof
    fix b assume b: "b \<in> set found"
    then obtain j where "(j, b) \<in> set es" using Cons.prems(2) by auto
    moreover have "b \<noteq> a" using b Cons.prems(3) by auto
    ultimately show "b \<in> snd ` set ?es" by force
  qed
  have "distinct found" using Cons.prems(3) by simp
  then obtain s' where s': "res_fold clean_up_remove found ?s = Inr s'" "heap s' = heap ?s"
      "proxy_ok s' (filter (\<lambda>e. snd e \<notin> set found) ?es)"
    using Cons.IH [OF ok' sub] by blast
  have "filter (\<lambda>e. snd e \<notin> set found) ?es = filter (\<lambda>e. snd e \<notin> set (a # found)) es"
    unfolding filter_filter by (rule filter_cong) auto
  then show ?case using step s' by simp
qed simp

lemma stored_ids:
  assumes "proxy_ok s es"
  shows "card {i. ff_hash_table_get_item (requests s) i \<noteq> Inr 0} = length es"
proof -
  have "ff_hash_table_get_item (requests s) i \<noteq> Inr 0 \<longleftrightarrow> i \<in> set (map fst es)" for i
  proof (cases "map_of es i")
    case None
    then show ?thesis
      using ht.get_law [OF proxy_okD(1) [OF assms], of i] by (simp flip: map_of_eq_None_iff)
  next
    case (Some a)
    then have "(i, a) \<in> set es" by (rule map_of_SomeD)
    with Some show ?thesis
      using ht.get_law [OF proxy_okD(1) [OF assms], of i] proxy_okD(5) [OF assms, of i a] by force
  qed
  then have "{i. ff_hash_table_get_item (requests s) i \<noteq> Inr 0} = set (map fst es)" by blast
  then show ?thesis
    using distinct_card [OF stores_props(2) [OF proxy_okD(1) [OF assms]]] by simp
qed

text \<open>
  C34. A clean-up pass removes the abandoned requests and nothing else. In every reachable state with
  fewer than \<open>2 ^ 32\<close> requests, an uninterrupted pass stays within its array, reads only live
  requests, and leaves in the table exactly the requests that are not in \<open>RECEIVING\<close> for 60 seconds
  or more, in their order. The memory of the removed requests is not freed.
\<close>

theorem clean_up_removes_expired:
  assumes "reachable envs s" and few: "card {i. ff_hash_table_get_item (requests s) i \<noteq> Inr 0} < 2 ^ 32"
  shows "\<exists>es s'. stores (requests s) es \<and> ff_proxy_clean_up_old_requests s now = Inr s' \<and>
    stores (requests s') (filter (\<lambda>(i, a). \<not> has_expired now (the (heap s a))) es) \<and> heap s' = heap s"
proof -
  obtain es where ok: "proxy_ok s es" using reachable_ok [OF assms(1)] by blast
  have small: "length es < 2 ^ 32" using few unfolding stored_ids [OF ok] .
  have "\<exists>s'. ff_proxy_clean_up_old_requests s now = Inr s' \<and>
      stores (requests s') (filter (\<lambda>(i, a). \<not> has_expired now (the (heap s a))) es) \<and> heap s' = heap s"
  proof -
    let ?found = "map snd (filter (expired s now) es)" and ?s = "s\<lparr>requests_to_remove := map snd (filter (expired s now) es)\<rparr>"
    have live: "snd e \<noteq> 0 \<and> heap s (snd e) \<noteq> None" if "e \<in> set es" for e
      using proxy_okD(5) [OF ok, of "fst e" "snd e"] that by auto
    have "0 \<notin> snd ` set es" using live by fastforce
    then have items: "table_items (requests s) = Inr (map snd es)"
      using ht.items_law [OF proxy_okD(1) [OF ok]] by (simp add: takeWhile_eq_all_conv image_iff)
    have "unat (ht_length (requests s)) = length es"
      using stores_props(1) [OF proxy_okD(1) [OF ok]] small by (simp add: unat_of_nat_32)
    then have scan: "clean_up_scan s now = Inr ?s"
      using items scan_expired_eq [OF live, of es "[]"] by (simp add: clean_up_scan_def)
    have "distinct ?found" using proxy_okD(2) [OF ok] by (simp add: distinct_map_filter)
    then obtain s' where s': "res_fold clean_up_remove ?found ?s = Inr s'" "heap s' = heap ?s"
        "proxy_ok s' (filter (\<lambda>e. snd e \<notin> set ?found) es)"
      using clean_up_removes [of ?s es ?found] ok by auto
    have "filter (\<lambda>e. snd e \<notin> set ?found) es = filter (\<lambda>(i, a). \<not> has_expired now (the (heap s a))) es"
      by (rule filter_cong) (force simp: expired_def)+
    then show ?thesis
      using scan s' proxy_okD(1) [OF s'(3)] by (auto simp: ff_proxy_clean_up_old_requests_def)
  qed
  then show ?thesis using proxy_okD(1) [OF ok] by blast
qed

theorem clean_up_removes_expired_witness:
  "\<exists>s es s'. proxy_init = Inr s \<and> stores (requests s) es \<and> ff_proxy_clean_up_old_requests s 100 = Inr s' \<and>
    stores (requests s') (filter (\<lambda>(i, a). \<not> has_expired 100 (the (heap s a))) es) \<and> heap s' = heap s"
proof -
  obtain s where s: "proxy_init = Inr s" "proxy_ok s []" by (rule init_state)
  have "reachable ((=) sample_env) s" using s(1) by (rule reachable.start)
  moreover have "card {i. ff_hash_table_get_item (requests s) i \<noteq> Inr 0} < 2 ^ 32"
    unfolding stored_ids [OF s(2)] by simp
  ultimately show ?thesis using clean_up_removes_expired s(1) by blast
qed

end
