(* ===== verification/Client_Crypto.thy ===== *)
theory Client_Crypto
  imports Crypto
begin

text \<open>
  Encryption in the C client: \<open>client/c/crypto.c\<close>. The encrypting half of OpenSSL is a second record
  of \<open>EVP\<close> calls, with the documented behaviour \<open>gcm_enc_spec\<close>: what is encrypted is what the
  decryption returns for the tag and the ciphertext. The values that \<open>RAND_bytes\<close> gives for the salt
  and the IV are arguments, \<open>None\<close> if the call fails. The lemmas show that encryption fits its
  buffer and that the server's decryption undoes it.
\<close>

section \<open>Operations\<close>

text \<open>\<open>EVP_CIPHER_CTX_new\<close>, \<open>EVP_EncryptInit_ex\<close> with the cipher, the IV length control,
  \<open>EVP_EncryptInit_ex\<close> with key and IV, \<open>EVP_EncryptUpdate\<close>, \<open>EVP_EncryptFinal_ex\<close> and the control
  that reads a tag of a given length.\<close>

record 'c evp_enc =
  enc_new :: "'c option"
  enc_init :: "'c \<Rightarrow> 'c option"
  enc_set_ivlen :: "'c \<Rightarrow> nat \<Rightarrow> 'c option"
  enc_init_key :: "'c \<Rightarrow> byte list \<Rightarrow> byte list \<Rightarrow> 'c option"
  enc_update :: "'c \<Rightarrow> byte list \<Rightarrow> ('c \<times> byte list) option"
  enc_final :: "'c \<Rightarrow> ('c \<times> byte list) option"
  enc_get_tag :: "'c \<Rightarrow> nat \<Rightarrow> byte list option"

text \<open>\<open>request->options[request->options_length++] = node\<close>, in an array of \<open>FF_REQUEST_MAX_OPTIONS\<close>
  pointers.\<close>

definition push_option :: "ff_request \<Rightarrow> ff_request_option_node \<Rightarrow> ff_request res" where
  "push_option request node =
     (let i = unat (options_length request) in
      if i < FF_REQUEST_MAX_OPTIONS
      then Inr (request\<lparr>options := take i (options request) @ node # drop (Suc i) (options request),
                        options_length := options_length request + 1\<rparr>)
      else Inl OutOfBounds)"

definition add_option :: "byte \<Rightarrow> byte list \<Rightarrow> ff_request \<Rightarrow> ff_request res" where
  "add_option t val request =
     res_bind (ff_request_option_load_buff
         (ff_request_option_node_alloc\<lparr>opt_type := t, opt_length := of_nat (length val)\<rparr>)
         (of_nat (length val)) (bytes val)) (\<lambda>node.
     push_option request node)"

text \<open>The loop of lines 161 to 171: \<open>None\<close> is the jump to \<open>error\<close>.\<close>

fun encrypt_updates ::
  "'c evp_enc \<Rightarrow> 'c \<Rightarrow> ff_request_payload_node list \<Rightarrow> block \<Rightarrow> nat \<Rightarrow> ('c \<times> block \<times> nat) option res" where
  "encrypt_updates evp ctx [] ciphertext_buff ciphertext_len = Inl NullDeref"
| "encrypt_updates evp ctx (node # nodes) ciphertext_buff ciphertext_len =
     (if \<not> pl_live node then Inl UseAfterFree
      else
        res_bind (block_reads (pl_value node) 0 (unat (pl_length node))) (\<lambda>input.
        case enc_update evp ctx input of
          None \<Rightarrow> Inr None
        | Some (ctx, out) \<Rightarrow>
            res_bind (block_write ciphertext_buff ciphertext_len (bytes out)) (\<lambda>ciphertext_buff.
            let ciphertext_len = ciphertext_len + length out in
            if nodes = [] then Inr (Some (ctx, ciphertext_buff, ciphertext_len))
            else encrypt_updates evp ctx nodes ciphertext_buff ciphertext_len)))"

text \<open>Lines 137 to 159: the context, or \<open>None\<close> for the jump to \<open>error\<close>.\<close>

definition encrypt_context :: "'c evp_enc \<Rightarrow> byte list \<Rightarrow> byte list \<Rightarrow> 'c option" where
  "encrypt_context evp key iv =
     (case enc_new evp of
        None \<Rightarrow> None
      | Some ctx \<Rightarrow>
          (case enc_init evp ctx of
             None \<Rightarrow> None
           | Some ctx \<Rightarrow>
               (case enc_set_ivlen evp ctx (length iv) of
                  None \<Rightarrow> None
                | Some ctx \<Rightarrow> enc_init_key evp ctx key iv)))"

text \<open>Lines 173 to 204: the rest of the encryption, and the ciphertext in place of the payload. The
  result has the tag.\<close>

definition encrypt_finish ::
  "'c evp_enc \<Rightarrow> 'c \<Rightarrow> block \<Rightarrow> nat \<Rightarrow> ff_request \<Rightarrow> (ff_request \<times> byte list) option res" where
  "encrypt_finish evp ctx ciphertext_buff ciphertext_len request =
     (case enc_final evp ctx of
        None \<Rightarrow> Inr None
      | Some (ctx, out) \<Rightarrow>
          res_bind (block_write ciphertext_buff ciphertext_len (bytes out)) (\<lambda>ciphertext_buff.
          let ciphertext_len = ciphertext_len + length out in
          case enc_get_tag evp ctx 16 of
            None \<Rightarrow> Inr None
          | Some tag \<Rightarrow>
              res_bind (free_payload_loop (payload request)) (\<lambda>_.
              Inr (Some (request\<lparr>payload := [ff_request_payload_node_alloc
                  \<lparr>pl_length := of_nat ciphertext_len, pl_offset := 0, pl_value := ciphertext_buff\<rparr>],
                payload_length := of_nat ciphertext_len\<rparr>, tag)))))"

text \<open>\<open>Some\<close> is the return value true, with the changed request and the IV, tag and salt.\<close>

definition ff_client_encrypt_request_aes_256_gcm_pbkdf2 ::
  "'c evp_enc \<Rightarrow> pbkdf2 \<Rightarrow> byte list option \<Rightarrow> byte list option \<Rightarrow> ff_request \<Rightarrow> ff_encryption_config \<Rightarrow>
   (ff_request \<times> byte list \<times> byte list \<times> byte list) option res" where
  "ff_client_encrypt_request_aes_256_gcm_pbkdf2 evp pbkdf2 rand_salt rand_iv request config =
     (case rand_salt of
        None \<Rightarrow> Inr None
      | Some salt \<Rightarrow>
          res_bind (ff_derive_key_pbkdf2 pbkdf2 config (bytes salt) (ff_derived_key_alloc 32)) (\<lambda>derived.
          case derived of
            None \<Rightarrow> Inr None
          | Some key \<Rightarrow>
              (case rand_iv of
                 None \<Rightarrow> Inr None
               | Some iv \<Rightarrow>
                   (case encrypt_context evp (dk_key key) iv of
                      None \<Rightarrow> Inr None
                    | Some ctx \<Rightarrow>
                        res_bind (encrypt_updates evp ctx (payload request)
                            (block_alloc (unat (payload_length request))) 0) (\<lambda>updated.
                        case updated of
                          None \<Rightarrow> Inr None
                        | Some (ctx, ciphertext_buff, ciphertext_len) \<Rightarrow>
                            res_bind (encrypt_finish evp ctx ciphertext_buff ciphertext_len request) (\<lambda>finished.
                            Inr (map_option (\<lambda>(request, tag). (request, iv, tag, salt)) finished)))))))"

text \<open>\<open>None\<close> is the return value false; the request is then unchanged. A \<open>config\<close> of \<open>None\<close> is NULL.\<close>

definition ff_client_encrypt_request ::
  "'c evp_enc \<Rightarrow> pbkdf2 \<Rightarrow> byte list option \<Rightarrow> byte list option \<Rightarrow> ff_request \<Rightarrow> ff_encryption_config option \<Rightarrow>
   ff_request option res" where
  "ff_client_encrypt_request evp pbkdf2 rand_salt rand_iv request config =
     (case config of
        None \<Rightarrow> Inr None
      | Some config \<Rightarrow>
          res_bind (ff_client_encrypt_request_aes_256_gcm_pbkdf2 evp pbkdf2 rand_salt rand_iv request config) (\<lambda>r.
          case r of
            None \<Rightarrow> Inr None
          | Some (request, iv, tag, salt) \<Rightarrow>
              res_bind (add_option FF_REQUEST_OPTION_TYPE_ENCRYPTION_MODE [FF_CRYPTO_MODE_AES_256_GCM] request) (\<lambda>request.
              res_bind (add_option FF_REQUEST_OPTION_TYPE_ENCRYPTION_IV iv request) (\<lambda>request.
              res_bind (add_option FF_REQUEST_OPTION_TYPE_ENCRYPTION_TAG tag request) (\<lambda>request.
              res_bind (add_option FF_REQUEST_OPTION_TYPE_KEY_DERIVE_MODE [FF_KEY_DERIVE_MODE_PBKDF2] request) (\<lambda>request.
              res_bind (add_option FF_REQUEST_OPTION_TYPE_KEY_DERIVE_SALT salt request) (\<lambda>request.
              Inr (Some request))))))))"

section \<open>Adding options\<close>

text \<open>A request under construction: its option nodes are those the parser would make of \<open>ws\<close>.\<close>

definition built_options :: "ff_request \<Rightarrow> (byte \<times> byte list) list \<Rightarrow> bool" where
  "built_options request ws \<longleftrightarrow>
     unat (options_length request) = length ws \<and> options request = map option_node ws"

lemma push_option_built:
  assumes "built_options request ws" and "length ws < FF_REQUEST_MAX_OPTIONS"
  shows "push_option request node =
    Inr (request\<lparr>options := map option_node ws @ [node], options_length := options_length request + 1\<rparr>)"
  using assms by (simp add: push_option_def built_options_def Let_def)

lemma unat_next_option:
  "unat (w :: 8 word) < FF_REQUEST_MAX_OPTIONS \<Longrightarrow> unat (w + 1) = Suc (unat w)"
  by (subst unat_plus_less) (simp_all add: FF_REQUEST_MAX_OPTIONS_def)

lemma add_option_built:
  assumes "built_options request ws" and "length ws < FF_REQUEST_MAX_OPTIONS" and "length val < 2 ^ 16"
  shows "\<exists>request'. add_option t val request = Inr request' \<and> built_options request' (ws @ [(t, val)]) \<and>
    payload request' = payload request \<and> payload_length request' = payload_length request"
proof -
  have "ff_request_option_load_buff (ff_request_option_node_alloc\<lparr>opt_type := t, opt_length := of_nat (length val)\<rparr>)
      (of_nat (length val)) (bytes val) = Inr (option_node (t, val))"
    using load_buff_bytes [of "of_nat (length val)" val "[]"] assms(3)
    by (simp add: ff_request_option_load_buff_def option_node_def ff_request_option_node_alloc_def unat_of_nat_32)
  moreover have "unat (options_length request + 1) = Suc (length ws)"
    using assms unat_next_option [of "options_length request"] by (simp add: built_options_def)
  ultimately show ?thesis
    using push_option_built [OF assms(1,2)] by (simp add: add_option_def built_options_def)
qed

lemma add_options_built:
  assumes "built_options request ws" and "length ws + length vs \<le> FF_REQUEST_MAX_OPTIONS"
    and "list_all (\<lambda>w. length (snd w) < 2 ^ 16) vs"
  shows "\<exists>request'. res_fold (\<lambda>(t, val). add_option t val) vs request = Inr request' \<and>
    built_options request' (ws @ vs) \<and> payload request' = payload request \<and> payload_length request' = payload_length request"
  using assms
proof (induction vs arbitrary: request ws)
  case (Cons v vs)
  obtain t val where v: "v = (t, val)" by (cases v)
  obtain r where r: "add_option t val request = Inr r" "built_options r (ws @ [v])"
      "payload r = payload request" "payload_length r = payload_length request"
    using add_option_built [OF Cons.prems(1), of val t] Cons.prems(2,3) v by auto
  show ?case
    using Cons.IH [OF r(2)] Cons.prems(2,3) r v by auto
qed simp

lemma built_options_has_options:
  assumes "built_options request ws" and "list_all wire_option_ok ws" and "length ws < FF_REQUEST_MAX_OPTIONS"
  shows "has_options request ws"
  using assms option_view_nodes [OF assms(2)]
  by (auto simp: has_options_def built_options_def options_ok_def list_all_iff option_node_ok)

section \<open>The documented behaviour of OpenSSL\<close>

text \<open>The sequence of \<open>EVP\<close> calls for one block of plaintext: \<open>EVP_EncryptUpdate\<close> returns as many bytes as
  it is given, \<open>EVP_EncryptFinal_ex\<close> adds none, and the tag has the length that is asked for and
  authenticates the ciphertext.\<close>

definition gcm_enc_spec ::
  "'c evp_enc \<Rightarrow> (byte list \<Rightarrow> byte list \<Rightarrow> byte list \<Rightarrow> byte list \<Rightarrow> byte list option) \<Rightarrow> bool" where
  "gcm_enc_spec evp dec \<longleftrightarrow>
     (\<forall>key iv c3 c4 c5 pt ct out tag.
        encrypt_context evp key iv = Some c3 \<longrightarrow> enc_update evp c3 pt = Some (c4, ct) \<longrightarrow>
        length ct = length pt \<and>
        (enc_final evp c4 = Some (c5, out) \<longrightarrow>
           out = [] \<and> (enc_get_tag evp c5 16 = Some tag \<longrightarrow> length tag = 16 \<and> dec key iv ct tag = Some pt)))"

definition gcm_enc_ready :: "'c evp_enc \<Rightarrow> bool" where
  "gcm_enc_ready evp \<longleftrightarrow>
     enc_new evp \<noteq> None \<and> (\<forall>c. enc_init evp c \<noteq> None) \<and> (\<forall>c n. enc_set_ivlen evp c n \<noteq> None) \<and>
     (\<forall>c key iv. enc_init_key evp c key iv \<noteq> None) \<and> (\<forall>c pt. enc_update evp c pt \<noteq> None) \<and>
     (\<forall>c. enc_final evp c \<noteq> None) \<and> (\<forall>c n. enc_get_tag evp c n \<noteq> None)"

lemma encrypt_context_ready:
  assumes "gcm_enc_ready evp"
  shows "\<exists>c. encrypt_context evp key iv = Some c"
proof -
  obtain c0 where c0: "enc_new evp = Some c0" using assms by (auto simp: gcm_enc_ready_def)
  obtain c1 where c1: "enc_init evp c0 = Some c1" using assms by (fastforce simp: gcm_enc_ready_def)
  obtain c2 where "enc_set_ivlen evp c1 (length iv) = Some c2" using assms by (fastforce simp: gcm_enc_ready_def)
  then show ?thesis
    using assms c0 c1 by (simp add: encrypt_context_def gcm_enc_ready_def)
qed

lemma gcm_enc_calls:
  assumes "gcm_enc_spec evp dec" and "gcm_enc_ready evp"
  obtains c3 c4 c5 ct tag where "encrypt_context evp key iv = Some c3" "enc_update evp c3 pt = Some (c4, ct)"
    "enc_final evp c4 = Some (c5, [])" "enc_get_tag evp c5 16 = Some tag"
    "length ct = length pt" "length tag = 16" "dec key iv ct tag = Some pt"
proof -
  obtain c3 where c3: "encrypt_context evp key iv = Some c3"
    using encrypt_context_ready [OF assms(2)] by blast
  obtain c4 ct where c4: "enc_update evp c3 pt = Some (c4, ct)"
    using assms(2) by (fastforce simp: gcm_enc_ready_def)
  obtain c5 out where c5: "enc_final evp c4 = Some (c5, out)"
    using assms(2) by (fastforce simp: gcm_enc_ready_def)
  obtain tag where tag: "enc_get_tag evp c5 16 = Some tag"
    using assms(2) by (fastforce simp: gcm_enc_ready_def)
  have "length ct = length pt" "out = []" "length tag = 16" "dec key iv ct tag = Some pt"
    using assms(1) c3 c4 c5 tag unfolding gcm_enc_spec_def by blast+
  then show thesis using that c3 c4 c5 tag by blast
qed

section \<open>Encryption\<close>

definition encryption_options :: "byte list \<Rightarrow> byte list \<Rightarrow> byte list \<Rightarrow> (byte \<times> byte list) list" where
  "encryption_options iv tag salt =
     [(FF_REQUEST_OPTION_TYPE_ENCRYPTION_MODE, [FF_CRYPTO_MODE_AES_256_GCM]),
      (FF_REQUEST_OPTION_TYPE_ENCRYPTION_IV, iv),
      (FF_REQUEST_OPTION_TYPE_ENCRYPTION_TAG, tag),
      (FF_REQUEST_OPTION_TYPE_KEY_DERIVE_MODE, [FF_KEY_DERIVE_MODE_PBKDF2]),
      (FF_REQUEST_OPTION_TYPE_KEY_DERIVE_SALT, salt)]"

lemma encrypt_payload:
  assumes pay: "holds_payload request pt" and len: "payload_length request = of_nat (length pt)"
    and key: "enc_key config = Some k" "pbkdf2 k salt (pbkdf2_iterations config) 32 = Some dk"
    and evp: "gcm_enc_spec evp dec" "gcm_enc_ready evp"
  shows "\<exists>ct tag. ff_client_encrypt_request_aes_256_gcm_pbkdf2 evp pbkdf2 (Some salt) (Some iv) request config =
      Inr (Some (request\<lparr>payload := [plaintext_node ct (length ct)], payload_length := of_nat (length ct)\<rparr>, iv, tag, salt)) \<and>
    length ct = length pt \<and> length tag = 16 \<and> dec dk iv ct tag = Some pt"
proof -
  obtain node rest where node: "payload request = [node]" "pl_live node" "unat (pl_length node) = length pt"
      "pl_value node = bytes pt @ rest"
    using pay by (auto simp: holds_payload_def)
  have n: "unat (payload_length request) = length pt"
    using len holds_payload_length [OF pay] by (simp add: unat_of_nat_64)
  obtain c3 c4 c5 ct tag where calls: "encrypt_context evp dk iv = Some c3" "enc_update evp c3 pt = Some (c4, ct)"
      "enc_final evp c4 = Some (c5, [])" "enc_get_tag evp c5 16 = Some tag"
      "length ct = length pt" "length tag = 16" "dec dk iv ct tag = Some pt"
    by (rule gcm_enc_calls [OF evp])
  have "ff_derive_key_pbkdf2 pbkdf2 config (bytes salt) (ff_derived_key_alloc 32) = Inr (Some \<lparr>dk_key = dk, dk_length = 32\<rparr>)"
    using key by (simp add: ff_derive_key_pbkdf2_def block_reads_all ff_derived_key_alloc_def)
  moreover have "encrypt_updates evp c3 (payload request) (block_alloc (unat (payload_length request))) 0 =
      Inr (Some (c4, bytes ct, length ct))"
    using node calls n block_write_alloc [of ct "length pt"] by (simp add: block_reads_bytes) (simp add: block_alloc_def)
  moreover have "encrypt_finish evp c4 (bytes ct) (length ct) request =
      Inr (Some (request\<lparr>payload := [plaintext_node ct (length ct)], payload_length := of_nat (length ct)\<rparr>, tag))"
    using node calls
    by (simp add: encrypt_finish_def block_write_Nil ff_request_payload_node_free_def plaintext_node_def
        ff_request_payload_node_alloc_def block_alloc_def Let_def)
  ultimately show ?thesis
    using calls by (intro exI [of _ ct] exI [of _ tag]) (simp add: ff_client_encrypt_request_aes_256_gcm_pbkdf2_def)
qed

lemma encrypt_request:
  assumes pay: "holds_payload request pt" and len: "payload_length request = of_nat (length pt)"
    and built: "built_options request ws" "length ws + 5 \<le> FF_REQUEST_MAX_OPTIONS"
    and key: "enc_key config = Some k" "pbkdf2 k salt (pbkdf2_iterations config) 32 = Some dk"
    and rand: "length salt < 2 ^ 16" "length iv < 2 ^ 16"
    and evp: "gcm_enc_spec evp dec" "gcm_enc_ready evp"
  obtains request' ct tag where
    "ff_client_encrypt_request evp pbkdf2 (Some salt) (Some iv) request (Some config) = Inr (Some request')"
    "built_options request' (ws @ encryption_options iv tag salt)" "holds_payload request' ct"
    "payload_length request' = of_nat (length ct)" "length ct = length pt" "length tag = 16"
    "dec dk iv ct tag = Some pt"
proof -
  obtain ct tag where enc: "ff_client_encrypt_request_aes_256_gcm_pbkdf2 evp pbkdf2 (Some salt) (Some iv) request config =
      Inr (Some (request\<lparr>payload := [plaintext_node ct (length ct)], payload_length := of_nat (length ct)\<rparr>, iv, tag, salt))"
      "length ct = length pt" "length tag = 16" "dec dk iv ct tag = Some pt"
    using encrypt_payload [where ?pbkdf2.0 = pbkdf2, OF pay len key evp] by blast
  let ?r = "request\<lparr>payload := [plaintext_node ct (length ct)], payload_length := of_nat (length ct)\<rparr>"
  have "built_options ?r ws" using built(1) by (simp add: built_options_def)
  then obtain r where r: "res_fold (\<lambda>(t, val). add_option t val) (encryption_options iv tag salt) ?r = Inr r"
      "built_options r (ws @ encryption_options iv tag salt)" "payload r = payload ?r" "payload_length r = payload_length ?r"
    using add_options_built [of ?r ws "encryption_options iv tag salt"] built(2) rand enc(3)
    by (auto simp: encryption_options_def)
  have "ff_client_encrypt_request evp pbkdf2 (Some salt) (Some iv) request (Some config) = Inr (Some r)"
    using r(1) by (auto simp: ff_client_encrypt_request_def enc(1) encryption_options_def res_simps)
  moreover have "holds_payload r ct"
    using r(3) plaintext_node_props(1) [where pt = ct and request = r and n = "length ct"] holds_payload_length [OF pay] enc(2)
    by (simp add: holds_payload_def)
  ultimately show thesis using that enc r(2,4) by simp
qed

section \<open>Round trip\<close>

lemma encryption_options_values:
  "mode_of FF_REQUEST_OPTION_TYPE_ENCRYPTION_MODE (encryption_options iv tag salt) = FF_CRYPTO_MODE_AES_256_GCM"
  "value_of FF_REQUEST_OPTION_TYPE_ENCRYPTION_IV (encryption_options iv tag salt) = Some iv"
  "value_of FF_REQUEST_OPTION_TYPE_ENCRYPTION_TAG (encryption_options iv tag salt) = Some tag"
  "salt \<noteq> [] \<Longrightarrow> request_key pbkdf2 k n (encryption_options iv tag salt) = pbkdf2 k salt n 32"
  by (simp_all add: mode_of_def value_of_def request_key_def encryption_options_def option_type_defs
      FF_CRYPTO_MODE_AES_256_GCM_def FF_KEY_DERIVE_MODE_PBKDF2_def)

lemma encryption_options_ok:
  "length iv < 2 ^ 16 \<Longrightarrow> length tag < 2 ^ 16 \<Longrightarrow> length salt < 2 ^ 16 \<Longrightarrow>
     list_all wire_option_ok (encryption_options iv tag salt)"
  by (simp add: encryption_options_def wire_option_ok_def option_type_defs)

text \<open>What the server makes of a request that carries these options and the ciphertext.\<close>

lemma decrypt_encrypted:
  assumes opts: "has_options request (encryption_options iv tag salt)" and pay: "holds_payload request ct"
    and len: "payload_length request = of_nat (length ct)"
    and key: "enc_key config = Some k" "pbkdf2 k salt (pbkdf2_iterations config) 32 = Some dk" "dec dk iv ct tag = Some pt"
    and ne: "iv \<noteq> []" "tag \<noteq> []" "salt \<noteq> []" and evp: "gcm_spec evp dec" "gcm_ready evp"
  shows "\<exists>n. ff_decrypt_request evp pbkdf2 request config =
    Inr (request\<lparr>state := FF_REQUEST_STATE_DECRYPTED, payload_length := of_nat (length pt),
      payload := [plaintext_node pt n]\<rparr>) \<and> length pt = length ct"
proof -
  let ?ws = "encryption_options iv tag salt"
  have auth: "authenticated pbkdf2 dec config ?ws ct pt' \<longleftrightarrow> pt' = pt" for pt'
    using key ne by (auto simp: authenticated_def encryption_options_values)
  have "length ct \<le> unat (payload_length request)"
    using len holds_payload_length [OF pay] by (simp add: unat_of_nat_64)
  from decrypt_request_cases [OF opts pay this evp(1), of pbkdf2 config] show ?thesis
    using evp(2) key(1) by (auto simp: auth in_the_clear_def)
qed


text \<open>A cipher for the witnesses: it leaves the text as it is, and the tag is the first half of the key.\<close>

definition tag_dec :: "byte list \<Rightarrow> byte list \<Rightarrow> byte list \<Rightarrow> byte list \<Rightarrow> byte list option" where
  "tag_dec key iv ct tag = (if tag = take 16 (key @ replicate 16 0) then Some ct else None)"

definition tag_evp :: "(byte list \<times> byte list) evp" where
  "tag_evp = toy_evp\<lparr>evp_final := (\<lambda>(k, t). if t = take 16 (k @ replicate 16 0) then Some [] else None)\<rparr>"

definition tag_enc :: "byte list evp_enc" where
  "tag_enc =
     \<lparr>enc_new = Some [], enc_init = Some, enc_set_ivlen = (\<lambda>c n. Some c), enc_init_key = (\<lambda>c key iv. Some key),
      enc_update = (\<lambda>c pt. Some (c, pt)), enc_final = (\<lambda>c. Some (c, [])),
      enc_get_tag = (\<lambda>c n. Some (take n (c @ replicate n 0)))\<rparr>"

lemma tag_cipher: "gcm_spec tag_evp tag_dec" "gcm_ready tag_evp" "gcm_enc_spec tag_enc tag_dec" "gcm_enc_ready tag_enc"
  by (auto simp: gcm_spec_def gcm_ready_def gcm_enc_spec_def gcm_enc_ready_def tag_evp_def toy_evp_def tag_dec_def
      tag_enc_def encrypt_context_def split: option.splits if_splits prod.splits)

definition sample_plain :: ff_request where
  "sample_plain = ff_request_alloc\<lparr>payload_length := 2,
     payload := [\<lparr>pl_offset = 0, pl_length = 2, pl_value = bytes [65, 66], pl_live = True\<rparr>]\<rparr>"


end
