(* ===== verification/Client_Config.thy ===== *)
theory Client_Config
  imports Config
begin

text \<open>
  The command line of the C client: \<open>client/c/config.c\<close> and \<open>client/c/config.h\<close>. Unlike the proxy,
  the client writes the port, the address and the HTTPS flag to its configuration while it reads
  the arguments, and reads the number of PBKDF2 iterations with \<open>sscanf\<close>. The lemmas show which
  configurations a request is made with, and that an unreadable number of iterations is ignored.
\<close>

section \<open>Data\<close>

text \<open>A configuration is cleared by \<open>memset\<close> first; 0 is no member of the log levels, so a level that
  was not set is \<open>None\<close>.\<close>

record ff_client_config =
  cc_port :: "byte list option"
  cc_ip_address :: "byte list option"
  cc_https :: bool
  cc_encryption :: ff_encryption_config
  cc_logging_level :: "ff_log_type option"

datatype ff_client_action =
    FF_CLIENT_ACTION_MAKE_REQUEST
  | FF_CLIENT_ACTION_PRINT_VERSION
  | FF_CLIENT_ACTION_PRINT_USAGE
  | FF_CLIENT_ACTION_INVALID_ARGS

datatype client_parse_arg_state =
    FF_CLIENT_PARSE_ARG_STATE_DEFAULT
  | FF_CLIENT_PARSE_ARG_PARSE_PORT
  | FF_CLIENT_PARSE_ARG_PARSE_IP
  | FF_CLIENT_PARSE_ARG_PARSE_PSK
  | FF_CLIENT_PARSE_ARG_PARSE_PBKDF2_ITERATIONS

definition default_ip_address :: "byte list" where
  "default_ip_address = map of_char ''127.0.0.1''"

definition cleared_client_config :: ff_client_config where
  "cleared_client_config =
     \<lparr>cc_port = None, cc_ip_address = None, cc_https = False,
      cc_encryption = \<lparr>enc_key = None, pbkdf2_iterations = 0\<rparr>, cc_logging_level = None\<rparr>"

text \<open>The local variables of \<open>ff_client_parse_arguments\<close>, and the configuration it writes to.\<close>

record client_parse_args =
  ca_config :: ff_client_config
  ca_state :: client_parse_arg_state
  ca_level :: ff_log_type
  ca_encryption :: ff_encryption_config

definition client_parse_args_init :: client_parse_args where
  "client_parse_args_init =
     \<lparr>ca_config = cleared_client_config, ca_state = FF_CLIENT_PARSE_ARG_STATE_DEFAULT, ca_level = FF_ERROR,
      ca_encryption = \<lparr>enc_key = None, pbkdf2_iterations = 1000\<rparr>\<rparr>"

section \<open>The loop over the arguments\<close>

text \<open>\<open>sscanf (s, "%u", &v)\<close> as glibc implements it: \<open>strtoul\<close>, limited to the range of \<open>unsigned long\<close>,
  then reduced to 32 bits. \<open>None\<close> is a matching failure, which leaves \<open>v\<close> as it is.\<close>

definition sscanf_u :: "byte list \<Rightarrow> 32 word option" where
  "sscanf_u s =
     (let (neg, ds) = number_parts s; v = digits_value ds in
      if ds = [] then None
      else if v \<ge> 2 ^ 64 then Some (of_int (2 ^ 64 - 1))
      else Some (of_int (if neg then - v else v)))"

text \<open>An argument in the default state. \<open>Some action\<close> is the jump to \<open>done\<close>.\<close>

definition client_parse_flag :: "client_parse_args \<Rightarrow> byte list \<Rightarrow> ff_client_action option \<times> client_parse_args" where
  "client_parse_flag p arg =
     (if strcasecmp_eq arg ''--help'' then (Some FF_CLIENT_ACTION_PRINT_USAGE, p)
      else if strcasecmp_eq arg ''--version'' then (Some FF_CLIENT_ACTION_PRINT_VERSION, p)
      else if strcasecmp_eq arg ''--port'' then (None, p\<lparr>ca_state := FF_CLIENT_PARSE_ARG_PARSE_PORT\<rparr>)
      else if strcasecmp_eq arg ''--ip-address'' then (None, p\<lparr>ca_state := FF_CLIENT_PARSE_ARG_PARSE_IP\<rparr>)
      else if strcasecmp_eq arg ''--pre-shared-key'' then (None, p\<lparr>ca_state := FF_CLIENT_PARSE_ARG_PARSE_PSK\<rparr>)
      else if strcasecmp_eq arg ''--pbkdf2-iterations'' then (None, p\<lparr>ca_state := FF_CLIENT_PARSE_ARG_PARSE_PBKDF2_ITERATIONS\<rparr>)
      else if strcasecmp_eq arg ''--https'' then (None, p\<lparr>ca_config := (ca_config p)\<lparr>cc_https := True\<rparr>\<rparr>)
      else if strcasecmp_eq arg ''-vvv'' then (None, p\<lparr>ca_level := FF_DEBUG\<rparr>)
      else if strcasecmp_eq arg ''-vv'' then (None, p\<lparr>ca_level := FF_INFO\<rparr>)
      else if strcasecmp_eq arg ''-v'' then (None, p\<lparr>ca_level := FF_WARNING\<rparr>)
      else (Some FF_CLIENT_ACTION_INVALID_ARGS, p))"

definition client_parse_arg :: "client_parse_args \<Rightarrow> byte list \<Rightarrow> ff_client_action option \<times> client_parse_args" where
  "client_parse_arg p arg =
     (case ca_state p of
        FF_CLIENT_PARSE_ARG_STATE_DEFAULT \<Rightarrow> client_parse_flag p arg
      | FF_CLIENT_PARSE_ARG_PARSE_PORT \<Rightarrow>
          if atoi arg \<le> 0 \<or> atoi arg > 65535 then (Some FF_CLIENT_ACTION_INVALID_ARGS, p)
          else (None, p\<lparr>ca_config := (ca_config p)\<lparr>cc_port := Some arg\<rparr>, ca_state := FF_CLIENT_PARSE_ARG_STATE_DEFAULT\<rparr>)
      | FF_CLIENT_PARSE_ARG_PARSE_IP \<Rightarrow>
          (None, p\<lparr>ca_config := (ca_config p)\<lparr>cc_ip_address := Some arg\<rparr>, ca_state := FF_CLIENT_PARSE_ARG_STATE_DEFAULT\<rparr>)
      | FF_CLIENT_PARSE_ARG_PARSE_PSK \<Rightarrow>
          (None, p\<lparr>ca_encryption := (ca_encryption p)\<lparr>enc_key := Some arg\<rparr>, ca_state := FF_CLIENT_PARSE_ARG_STATE_DEFAULT\<rparr>)
      | FF_CLIENT_PARSE_ARG_PARSE_PBKDF2_ITERATIONS \<Rightarrow>
          (let p = (case sscanf_u arg of
                      None \<Rightarrow> p
                    | Some v \<Rightarrow> p\<lparr>ca_encryption := (ca_encryption p)\<lparr>pbkdf2_iterations := v\<rparr>\<rparr>) in
           if pbkdf2_iterations (ca_encryption p) = 0 then (Some FF_CLIENT_ACTION_INVALID_ARGS, p)
           else (None, p\<lparr>ca_state := FF_CLIENT_PARSE_ARG_STATE_DEFAULT\<rparr>)))"

fun client_parse_loop :: "client_parse_args \<Rightarrow> byte list list \<Rightarrow> ff_client_action \<times> client_parse_args" where
  "client_parse_loop p [] = (FF_CLIENT_ACTION_MAKE_REQUEST, p)"
| "client_parse_loop p (arg # args) =
     (case client_parse_arg p arg of
        (Some action, p) \<Rightarrow> (action, p)
      | (None, p) \<Rightarrow> client_parse_loop p args)"

definition ff_client_parse_arguments :: "byte list list \<Rightarrow> ff_client_action \<times> ff_client_config" where
  "ff_client_parse_arguments argv =
     (let (action, p) = client_parse_loop client_parse_args_init (tl argv); config = ca_config p in
      if action = FF_CLIENT_ACTION_MAKE_REQUEST then
        if cc_port config = None then (FF_CLIENT_ACTION_INVALID_ARGS, config)
        else
          (action, config\<lparr>
             cc_ip_address := Some (case cc_ip_address config of None \<Rightarrow> default_ip_address | Some addr \<Rightarrow> addr),
             cc_encryption := ca_encryption p, cc_logging_level := Some (ca_level p)\<rparr>)
      else (action, config))"

section \<open>Accepted configurations\<close>

definition client_parse_args_ok :: "client_parse_args \<Rightarrow> bool" where
  "client_parse_args_ok p \<longleftrightarrow>
     pred_option (\<lambda>pt. 0 < atoi pt \<and> atoi pt \<le> 65535) (cc_port (ca_config p)) \<and>
     pbkdf2_iterations (ca_encryption p) \<noteq> 0"

lemma client_parse_arg_ok:
  "client_parse_args_ok p \<Longrightarrow> client_parse_arg p arg = (None, p') \<Longrightarrow> client_parse_args_ok p'"
  by (auto simp: client_parse_args_ok_def client_parse_arg_def client_parse_flag_def Let_def
      split: client_parse_arg_state.splits if_splits option.splits)

lemma client_parse_arg_not_make: "client_parse_arg p arg \<noteq> (Some FF_CLIENT_ACTION_MAKE_REQUEST, q)"
  by (auto simp: client_parse_arg_def client_parse_flag_def Let_def split: client_parse_arg_state.splits)

lemma client_parse_loop_ok:
  "client_parse_args_ok p \<Longrightarrow> client_parse_loop p args = (FF_CLIENT_ACTION_MAKE_REQUEST, p') \<Longrightarrow> client_parse_args_ok p'"
  by (induction args arbitrary: p)
    (auto split: prod.splits option.splits dest: client_parse_arg_ok simp: client_parse_arg_not_make)

text \<open>A request is only made with a port between 1 and 65535, some address and a positive number of
  PBKDF2 iterations.\<close>

lemma made_request_config:
  assumes "ff_client_parse_arguments argv = (FF_CLIENT_ACTION_MAKE_REQUEST, config)"
  shows "\<exists>pt addr. cc_port config = Some pt \<and> 0 < atoi pt \<and> atoi pt \<le> 65535 \<and>
    cc_ip_address config = Some addr \<and> pbkdf2_iterations (cc_encryption config) \<noteq> 0"
proof -
  obtain action p where loop: "client_parse_loop client_parse_args_init (tl argv) = (action, p)"
    by (cases "client_parse_loop client_parse_args_init (tl argv)")
  have action: "action = FF_CLIENT_ACTION_MAKE_REQUEST"
    using assms loop by (auto simp: ff_client_parse_arguments_def Let_def split: if_splits)
  have "client_parse_args_ok client_parse_args_init"
    by (simp add: client_parse_args_ok_def client_parse_args_init_def cleared_client_config_def)
  then have "client_parse_args_ok p" using loop action by (auto dest: client_parse_loop_ok)
  then show ?thesis
    using assms loop action
    by (cases "cc_port (ca_config p)") (auto simp: ff_client_parse_arguments_def client_parse_args_ok_def Let_def)
qed

text \<open>A number of iterations that cannot be read is ignored: the earlier value stays in force.\<close>

lemma unreadable_iterations_ignored:
  assumes "ca_state p = FF_CLIENT_PARSE_ARG_PARSE_PBKDF2_ITERATIONS" and "snd (number_parts arg) = []"
    and "pbkdf2_iterations (ca_encryption p) \<noteq> 0"
  shows "client_parse_arg p arg = (None, p\<lparr>ca_state := FF_CLIENT_PARSE_ARG_STATE_DEFAULT\<rparr>)"
  using assms by (cases "number_parts arg") (simp add: client_parse_arg_def sscanf_u_def Let_def)

end
