(* ===== verification/Client.thy ===== *)
theory Client
  imports Client_Crypto Client_Config
begin

text \<open>
  The C client: \<open>client/c/client.c\<close>, \<open>client/c/client_p.h\<close> and \<open>client/c/main.c\<close>. A file is the list
  of its bytes. The clock, OpenSSL, \<open>RAND_bytes\<close> and the network are in the environment
  \<open>client_env\<close>. The result of a request is the exit code and the datagrams that were sent, each
  a list of cells, so that memory that was never written can be seen in them.
\<close>

section \<open>Data\<close>

definition FF_CLIENT_READ_PAYLOAD_BUFFER_SIZE :: nat where "FF_CLIENT_READ_PAYLOAD_BUFFER_SIZE = 1024"
definition FF_CLIENT_MAX_PACKETS :: nat where "FF_CLIENT_MAX_PACKETS = 1024"
definition FF_CLIENT_MAX_PACKET_LENGTH :: nat where "FF_CLIENT_MAX_PACKET_LENGTH = 1300"

record ff_client_packet =
  packet_value :: block
  packet_length :: "16 word"

text \<open>The array of packets is allocated with the size of a pointer, 8, for every packet; a packet has 16
  bytes.\<close>

definition packet_slots :: nat where
  "packet_slots = 8 * FF_CLIENT_MAX_PACKETS div 16"

section \<open>Options\<close>

text \<open>The body of the loop: \<open>base\<close> is the offset of the pointer \<open>buffer\<close> in its block.\<close>

definition write_option ::
  "nat \<Rightarrow> ff_request_option_node list \<Rightarrow> nat \<Rightarrow> block \<times> 32 word \<Rightarrow> (block \<times> 32 word) res" where
  "write_option base nodes i = (\<lambda>(buffer, buff_i).
     if \<not> i < length nodes then Inl OutOfBounds
     else if \<not> opt_live (nodes ! i) then Inl UseAfterFree
     else
       let node = nodes ! i in
       res_bind (block_write buffer (base + unat buff_i) (bytes (opt_type node # store_le 2 (htons (opt_length node))))) (\<lambda>buffer.
       let buff_i = buff_i + of_nat option_header_size in
       res_bind (block_copy (opt_value node) (unat (opt_length node))) (\<lambda>cells.
       res_bind (block_write buffer (base + unat buff_i) cells) (\<lambda>buffer.
       Inr (buffer, buff_i + ucast (opt_length node))))))"

definition ff_client_write_options ::
  "nat \<Rightarrow> block \<Rightarrow> ff_request_option_node list \<Rightarrow> 8 word \<Rightarrow> (block \<times> 32 word) res" where
  "ff_client_write_options base buff nodes amount =
     res_fold (write_option base nodes) [0..<unat amount] (buff, 0)"

text \<open>\<open>next_node\<close> is NULL when the loop starts, so it never runs: the node goes after the first one.\<close>

definition ff_client_request_add_payload :: "ff_request \<Rightarrow> ff_request_payload_node \<Rightarrow> ff_request res" where
  "ff_client_request_add_payload request node =
     (let request' = request\<lparr>payload_length := payload_length request + ucast (pl_length node)\<rparr> in
      case payload request of
        [] \<Rightarrow> Inr (request'\<lparr>payload := [node]\<rparr>)
      | last_node # _ \<Rightarrow>
          if \<not> pl_live last_node then Inl UseAfterFree
          else Inr (request'\<lparr>payload :=
            [last_node, node\<lparr>pl_offset := pl_offset last_node + pl_length last_node\<rparr>]\<rparr>))"

text \<open>The option nodes of lines 96 to 118.\<close>

definition payload_option_nodes :: "int \<Rightarrow> ff_client_config \<Rightarrow> ff_request_option_node list" where
  "payload_option_nodes time config =
     (let now = htonll (of_int time) in
      (if cc_https config
       then [ff_request_option_node_alloc\<lparr>opt_type := FF_REQUEST_OPTION_TYPE_HTTPS, opt_length := 1, opt_value := bytes [1]\<rparr>]
       else []) @
      [ff_request_option_node_alloc\<lparr>opt_type := FF_REQUEST_OPTION_TYPE_TIMESTAMP, opt_length := 8,
         opt_value := bytes (store_le 8 now)\<rparr>,
       ff_request_option_node_alloc\<lparr>opt_type := FF_REQUEST_OPTION_TYPE_EOL\<rparr>])"

definition ff_client_create_payload_options :: "int \<Rightarrow> ff_request \<Rightarrow> ff_client_config \<Rightarrow> (ff_request \<times> 8 word) res" where
  "ff_client_create_payload_options time request config =
     (let options = payload_option_nodes time config;
          option_i = of_nat (length options);
          length = (\<Sum>node\<leftarrow>options. of_nat option_header_size + opt_length node)
      in res_bind (ff_client_write_options 0 (block_alloc (unat length)) options option_i) (\<lambda>(buffer, _).
         res_bind (ff_client_request_add_payload request
           (ff_request_payload_node_alloc\<lparr>pl_value := buffer, pl_length := length\<rparr>)) (\<lambda>request.
         res_bind (free_option_nodes options) (\<lambda>_. Inr (request, option_i)))))"

section \<open>The body\<close>

definition block_realloc :: "block \<Rightarrow> nat \<Rightarrow> block" where
  "block_realloc m n = take n m @ block_alloc (n - length m)"

text \<open>\<open>fread\<close> returns fewer than 1024 bytes only at the end of the file. \<open>realloc\<close> to 0 bytes, after the
  16-bit length has wrapped around, returns NULL; \<open>None\<close> is the call of \<open>exit (1)\<close>. Every chunk is
  copied to the start of the buffer.\<close>

function read_loop :: "byte list \<Rightarrow> block \<Rightarrow> 16 word \<Rightarrow> (block \<times> 16 word) option res" where
  "read_loop file val len =
     (if file = [] then Inr (Some (val, len))
      else
        let chunk = take FF_CLIENT_READ_PAYLOAD_BUFFER_SIZE file; len = len + of_nat (length chunk) in
        if len = 0 then Inr None
        else
          res_bind (block_write (block_realloc val (unat len)) 0 (bytes chunk)) (\<lambda>val.
          read_loop (drop FF_CLIENT_READ_PAYLOAD_BUFFER_SIZE file) val len))"
  by pat_completeness auto
termination
  by (relation "measure (\<lambda>(file, val, len). length file)") (auto simp: FF_CLIENT_READ_PAYLOAD_BUFFER_SIZE_def)

declare read_loop.simps [simp del]

definition ff_client_read_payload_from_file :: "ff_request \<Rightarrow> byte list \<Rightarrow> ff_request option res" where
  "ff_client_read_payload_from_file request file =
     res_bind (read_loop file (block_alloc FF_CLIENT_READ_PAYLOAD_BUFFER_SIZE) 0) (\<lambda>r.
     case r of
       None \<Rightarrow> Inr None
     | Some (val, len) \<Rightarrow>
         res_bind (ff_client_request_add_payload request
           (ff_request_payload_node_alloc\<lparr>pl_value := val, pl_length := len\<rparr>)) (\<lambda>request.
         Inr (Some request)))"

section \<open>Packets\<close>

text \<open>One pass of the loop: the packet and \<open>chunk_length\<close>. The header fields are stored at their offsets
  in the packed struct.\<close>

definition packetise_packet ::
  "ff_request \<Rightarrow> 64 word \<Rightarrow> bool \<Rightarrow> 32 word \<Rightarrow> 16 word \<Rightarrow> (ff_client_packet \<times> 16 word) res" where
  "packetise_packet request rid first chunk_offset bytes_left =
     res_bind (block_write (block_zero FF_CLIENT_MAX_PACKET_LENGTH) 0
         (bytes (store_le 2 (htons (of_int FF_VERSION_1)) @ store_le 8 (htonll rid) @
           store_le 4 (htonl (ucast (payload_length request))) @ store_le 4 (htonl chunk_offset)))) (\<lambda>buffer.
     res_bind
       (if first then
          res_bind (ff_client_write_options header_size buffer (options request) (options_length request)) (\<lambda>(buffer, n).
          Inr (buffer, of_nat header_size + ucast n))
        else
          res_bind (block_write buffer header_size (bytes [FF_REQUEST_OPTION_TYPE_EOL, 0, 0])) (\<lambda>buffer.
          Inr (buffer, of_nat header_size + of_nat option_header_size))) (\<lambda>(buffer, packet_length :: 16 word).
     let bytes_left_in_packet = of_nat FF_CLIENT_MAX_PACKET_LENGTH - packet_length;
         chunk_length = (if bytes_left > bytes_left_in_packet then bytes_left_in_packet else bytes_left)
     in
     res_bind (block_write buffer 18 (bytes (store_le 2 (htons chunk_length)))) (\<lambda>buffer.
     case payload request of
       [] \<Rightarrow> Inl NullDeref
     | node # _ \<Rightarrow>
         if \<not> pl_live node then Inl UseAfterFree
         else
           res_bind (block_copy (drop (unat chunk_offset) (pl_value node)) (unat chunk_length)) (\<lambda>cells.
           res_bind (block_write buffer (unat packet_length) cells) (\<lambda>buffer.
           Inr (\<lparr>packet_value = buffer, packet_length = packet_length + chunk_length\<rparr>, chunk_length))))))"

function packetise_loop ::
  "ff_request \<Rightarrow> 64 word \<Rightarrow> ff_client_packet list \<Rightarrow> 32 word \<Rightarrow> 16 word \<Rightarrow> ff_client_packet list res" where
  "packetise_loop request rid packets chunk_offset bytes_left =
     (if bytes_left = 0 then Inr packets
      else
        res_bind (packetise_packet request rid (packets = []) chunk_offset bytes_left) (\<lambda>(packet, chunk_length).
        if length packets < packet_slots then
          packetise_loop request rid (packets @ [packet]) (chunk_offset + ucast chunk_length) (bytes_left - chunk_length)
        else Inl OutOfBounds))"
  by pat_completeness auto
termination
  by (relation "measure (\<lambda>(request, rid, packets, chunk_offset, bytes_left). packet_slots - length packets)") auto

declare packetise_loop.simps [simp del]

text \<open>\<open>None\<close> is the call of \<open>exit (EXIT_FAILURE)\<close>.\<close>

definition ff_client_generate_request_id :: "byte list option \<Rightarrow> 64 word option" where
  "ff_client_generate_request_id rand = map_option (\<lambda>buffer. load_le (take 8 buffer)) rand"

definition ff_client_packetise_request :: "byte list option \<Rightarrow> ff_request \<Rightarrow> ff_client_packet list option res" where
  "ff_client_packetise_request rand request =
     (case ff_client_generate_request_id rand of
        None \<Rightarrow> Inr None
      | Some rid \<Rightarrow>
          res_bind (packetise_loop request rid [] 0 (ucast (payload_length request))) (\<lambda>packets. Inr (Some packets)))"

text \<open>The sum is never used by the client.\<close>

definition ff_client_calculate_request_size :: "ff_request \<Rightarrow> 32 word res" where
  "ff_client_calculate_request_size request =
     res_bind (scan_options request [0..<unat (options_length request)]
         (\<lambda>node length. Inr (length + of_nat option_header_size + ucast (opt_length node))) (of_nat header_size)) (\<lambda>length.
     Inr (length + ucast (payload_length request)))"

section \<open>Sending\<close>

text \<open>What the resolver, \<open>socket\<close> and the calls of \<open>sendto\<close>, one for each packet, return. A datagram is
  sent as a whole.\<close>

record client_net =
  client_dns_ok :: "byte list \<Rightarrow> byte list \<Rightarrow> bool"
  client_socket_ok :: bool
  sendto_result :: "nat \<Rightarrow> int"

fun send_loop :: "client_net \<Rightarrow> nat \<Rightarrow> ff_client_packet list \<Rightarrow> (bool \<times> block list) res" where
  "send_loop net i [] = Inr (True, [])"
| "send_loop net i (packet # packets) =
     res_bind (block_copy (packet_value packet) (unat (packet_length packet))) (\<lambda>datagram.
     if sendto_result net i \<le> 0 then Inr (False, [])
     else
       res_bind (send_loop net (Suc i) packets) (\<lambda>(ok, datagrams).
       Inr (ok, datagram # datagrams)))"

definition ff_client_send_request ::
  "client_net \<Rightarrow> ff_client_config \<Rightarrow> ff_client_packet list \<Rightarrow> (int \<times> block list) res" where
  "ff_client_send_request net config packets =
     (case (cc_ip_address config, cc_port config) of
        (Some addr, Some pt) \<Rightarrow>
          if \<not> client_dns_ok net addr pt \<or> \<not> client_socket_ok net then Inr (EXIT_FAILURE, [])
          else
            res_bind (send_loop net 0 packets) (\<lambda>(ok, datagrams).
            Inr (if ok then 0 else EXIT_FAILURE, datagrams))
      | _ \<Rightarrow> Inl NullDeref)"

section \<open>A request\<close>

record 'c client_env =
  ce_now :: int
  ce_evp :: "'c evp_enc"
  ce_pbkdf2 :: pbkdf2
  ce_salt :: "byte list option"
  ce_iv :: "byte list option"
  ce_id :: "byte list option"
  ce_net :: client_net

text \<open>Lines 50 to 63, after the encryption: the terminator of the options, the packets and the sending.
  The request is freed last.\<close>

definition make_packets :: "'c client_env \<Rightarrow> ff_client_config \<Rightarrow> 8 word \<Rightarrow> ff_request \<Rightarrow> (int \<times> block list) res" where
  "make_packets env config options_in_payload request =
     res_bind (push_option request (ff_request_option_node_alloc\<lparr>opt_type :=
       if options_in_payload = 0 then FF_REQUEST_OPTION_TYPE_EOL else FF_REQUEST_OPTION_TYPE_BREAK\<rparr>)) (\<lambda>request.
     res_bind (ff_client_packetise_request (ce_id env) request) (\<lambda>packets.
     case packets of
       None \<Rightarrow> Inr (EXIT_FAILURE, [])
     | Some packets \<Rightarrow>
         res_bind (ff_client_send_request (ce_net env) config packets) (\<lambda>(ret, datagrams).
         res_bind (ff_request_free request) (\<lambda>_.
         Inr (if ret = 0 then 0 else 1, datagrams)))))"

definition ff_client_make_request :: "'c client_env \<Rightarrow> ff_client_config \<Rightarrow> byte list \<Rightarrow> (int \<times> block list) res" where
  "ff_client_make_request env config file =
     res_bind (ff_client_create_payload_options (ce_now env) ff_request_alloc config) (\<lambda>(request, options_in_payload).
     res_bind (ff_client_read_payload_from_file request file) (\<lambda>r.
     case r of
       None \<Rightarrow> Inr (1, [])
     | Some request \<Rightarrow>
         res_bind (ff_request_vectorise_payload request) (\<lambda>request.
         if enc_key (cc_encryption config) \<noteq> None then
           res_bind (ff_client_encrypt_request (ce_evp env) (ce_pbkdf2 env) (ce_salt env) (ce_iv env) request
               (Some (cc_encryption config))) (\<lambda>r.
           case r of
             None \<Rightarrow> res_bind (ff_request_free request) (\<lambda>_. Inr (1, []))
           | Some request \<Rightarrow> make_packets env config options_in_payload request)
         else make_packets env config options_in_payload request)))"

text \<open>The main program: the exit code and the datagrams.\<close>

definition client_main :: "'c client_env \<Rightarrow> byte list list \<Rightarrow> byte list \<Rightarrow> (int \<times> block list) res" where
  "client_main env argv stdin =
     (case ff_client_parse_arguments argv of
        (FF_CLIENT_ACTION_MAKE_REQUEST, config) \<Rightarrow> ff_client_make_request env config stdin
      | (FF_CLIENT_ACTION_PRINT_VERSION, config) \<Rightarrow> Inr (0, [])
      | (FF_CLIENT_ACTION_PRINT_USAGE, config) \<Rightarrow> Inr (0, [])
      | (FF_CLIENT_ACTION_INVALID_ARGS, config) \<Rightarrow> Inr (EXIT_FAILURE, []))"

end
