(* ===== verification/Client_Wire.thy ===== *)
theory Client_Wire
  imports Client Reassembly
begin

text \<open>
  What the C client puts on the wire. The options are written in the encoding the parser reads, and
  the packets of a request are in-order chunk packets of its payload, each of at most 1300 bytes:
  the loop ends, stays within its buffers and within its array of packets. The body, however, is
  only right up to 1024 bytes.
\<close>

section \<open>Writing options\<close>

abbreviation wire_list :: "(byte \<times> byte list) list \<Rightarrow> byte list" where
  "wire_list ws \<equiv> concat (map wire_option ws)"

lemma block_write_at:
  "length pre = i \<Longrightarrow> length cells \<le> length rest \<Longrightarrow>
     block_write (pre @ rest) i cells = Inr (pre @ cells @ drop (length cells) rest)"
  by (simp add: block_write_def)

lemma write_option_wire:
  assumes node: "i < length nodes" "shows_option (nodes ! i) w"
    and at: "length pre = base + unat k" and room: "length (wire_option w) \<le> length rest"
    and small: "unat k + length (wire_option w) < 2 ^ 32"
  shows "write_option base nodes i (pre @ rest, k) =
    Inr (pre @ bytes (wire_option w) @ drop (length (wire_option w)) rest, k + of_nat (length (wire_option w)))"
proof -
  obtain t val where w: "w = (t, val)" by (cases w)
  have n: "opt_live (nodes ! i)" "opt_type (nodes ! i) = t" "unat (opt_length (nodes ! i)) = length val"
      "block_copy (opt_value (nodes ! i)) (length val) = Inr (bytes val)"
    using node(2) shows_option_reads(1) [OF node(2)] by (auto simp: shows_option_def option_ok_def w)
  have l: "opt_length (nodes ! i) = of_nat (length val)" by (simp flip: n(3))
  have u: "ucast (opt_length (nodes ! i)) = (of_nat (length val) :: 32 word)"
    by (simp flip: n(3))
  have k3: "unat (k + 3) = unat k + 3"
    using small w by (subst unat_plus_less) simp_all
  let ?hdr = "bytes (t # store_be 2 (of_nat (length val) :: 16 word))"
  have "block_write (pre @ rest) (base + unat k) ?hdr = Inr (pre @ ?hdr @ drop 3 rest)"
    using room w by (subst block_write_at [OF at]) simp_all
  moreover have "block_write (pre @ ?hdr @ drop 3 rest) (base + unat (k + 3)) (bytes val) =
      Inr (pre @ ?hdr @ bytes val @ drop (Suc (Suc (Suc (length val)))) rest)"
    using room w at k3 block_write_at [of "pre @ ?hdr" "base + unat (k + 3)" "bytes val" "drop 3 rest"]
    by (simp add: add.commute eval_nat_numeral)
  ultimately show ?thesis
    using node(1) n(1,2,4) n(3) [unfolded l] l u unfolding w
    by (simp add: write_option_def store_htons option_header_size_def Let_def del: bytes_simps)
      (simp add: add.assoc)
qed

lemma write_options_take:
  assumes nodes: "list_all2 shows_option nodes ws" and room: "base + length (wire_list ws) \<le> length buff"
    and small: "length (wire_list ws) < 2 ^ 32" and n: "n \<le> length nodes"
  shows "res_fold (write_option base nodes) [0..<n] (buff, 0) =
    Inr (take base buff @ bytes (wire_list (take n ws)) @ drop (base + length (wire_list (take n ws))) buff,
         of_nat (length (wire_list (take n ws))))"
  using n
proof (induction n)
  case 0
  then show ?case by simp
next
  case (Suc n)
  let ?w = "ws ! n" and ?done = "wire_list (take n ws)"
  have n: "n < length nodes" "length nodes = length ws" using Suc.prems nodes by (auto simp: list_all2_lengthD)
  then have ws: "take (Suc n) ws = take n ws @ [?w]" by (simp add: take_Suc_conv_app_nth)
  have "ws = take (Suc n) ws @ drop (Suc n) ws" by simp
  then have "length (wire_list ws) = length (wire_list (take (Suc n) ws)) + length (wire_list (drop (Suc n) ws))"
    by (metis concat_append length_append map_append)
  then have len: "length ?done + length (wire_option ?w) \<le> length (wire_list ws)" by (simp add: ws)
  have "unat (of_nat (length ?done) :: 32 word) = length ?done" using len small by (intro unat_of_nat_32) simp
  then have "write_option base nodes n ((take base buff @ bytes ?done) @ drop (base + length ?done) buff, of_nat (length ?done)) =
      Inr ((take base buff @ bytes ?done) @ bytes (wire_option ?w) @
        drop (length (wire_option ?w)) (drop (base + length ?done) buff),
        of_nat (length ?done) + of_nat (length (wire_option ?w)))"
    using list_all2_nthD [OF nodes n(1)] n(1) len room small by (intro write_option_wire) simp_all
  then show ?case
    using Suc n by (simp add: res_fold_append ws add_ac)
qed

lemma write_options_wire:
  assumes "list_all2 shows_option nodes ws" and "base + length (wire_list ws) \<le> length buff"
    and "length (wire_list ws) < 2 ^ 32" and "unat amount = length nodes"
  shows "ff_client_write_options base buff nodes amount =
    Inr (take base buff @ bytes (wire_list ws) @ drop (base + length (wire_list ws)) buff, of_nat (length (wire_list ws)))"
  using write_options_take [OF assms(1-3), of "length nodes"] assms(1,4)
  by (simp add: ff_client_write_options_def list_all2_lengthD)

lemma wire_list_options: "wire_list (ws @ [(t, [])]) = wire_options ws t"
  by (simp add: wire_options_def store_be_def store_le_def upt_rec)

section \<open>The options in the payload\<close>

text \<open>The options the client puts in front of the body.\<close>

definition client_options :: "int \<Rightarrow> ff_client_config \<Rightarrow> (byte \<times> byte list) list" where
  "client_options time config =
     (if cc_https config then [(FF_REQUEST_OPTION_TYPE_HTTPS, [1])] else []) @
     [(FF_REQUEST_OPTION_TYPE_TIMESTAMP, store_be 8 (of_int time :: 64 word))]"

lemma client_options_props:
  "list_all wire_option_ok (client_options time config)" "length (client_options time config) \<le> 2"
  "length (wire_options (client_options time config) t) \<le> 18"
  "14 \<le> length (wire_options (client_options time config) t)"
  by (simp_all add: client_options_def wire_option_ok_def option_type_defs length_wire_options)

lemma payload_option_nodes_show:
  "list_all2 shows_option (payload_option_nodes time config) (client_options time config @ [(FF_REQUEST_OPTION_TYPE_EOL, [])])"
  by (simp add: payload_option_nodes_def client_options_def shows_option_def option_ok_def readable_def
      ff_request_option_node_alloc_def store_htonll bytes_def Let_def)

lemma payload_option_nodes_length:
  "unat (\<Sum>node\<leftarrow>payload_option_nodes time config. of_nat option_header_size + opt_length node) =
     length (wire_options (client_options time config) FF_REQUEST_OPTION_TYPE_EOL)"
  by (simp add: payload_option_nodes_def client_options_def length_wire_options option_header_size_def
      ff_request_option_node_alloc_def Let_def)

lemma create_payload_options:
  assumes "payload request = []"
  shows "\<exists>n. n \<noteq> 0 \<and> ff_client_create_payload_options time request config =
    Inr (request\<lparr>payload_length := payload_length request + of_nat (length (wire_options (client_options time config) FF_REQUEST_OPTION_TYPE_EOL)),
      payload := [\<lparr>pl_offset = 0,
        pl_length = of_nat (length (wire_options (client_options time config) FF_REQUEST_OPTION_TYPE_EOL)),
        pl_value = bytes (wire_options (client_options time config) FF_REQUEST_OPTION_TYPE_EOL), pl_live = True\<rparr>]\<rparr>, n)"
proof -
  let ?nodes = "payload_option_nodes time config" and ?wire = "wire_options (client_options time config) FF_REQUEST_OPTION_TYPE_EOL"
  let ?len = "\<Sum>node\<leftarrow>?nodes. of_nat option_header_size + opt_length node :: 16 word"
  have len: "unat ?len = length ?wire" by (rule payload_option_nodes_length)
  have n: "length ?nodes \<le> 3" "?nodes \<noteq> []" by (simp_all add: payload_option_nodes_def Let_def)
  then have un: "unat (of_nat (length ?nodes) :: 8 word) = length ?nodes" by (intro unat_of_nat_8) simp
  have "ff_client_write_options 0 (block_alloc (unat ?len)) ?nodes (of_nat (length ?nodes)) =
      Inr (bytes ?wire, of_nat (length ?wire))"
    using write_options_wire [OF payload_option_nodes_show [of time config], where base = 0 and buff = "block_alloc (unat ?len)"
        and amount = "of_nat (length ?nodes)"]
      len un client_options_props(3) [of time config FF_REQUEST_OPTION_TYPE_EOL]
    unfolding wire_list_options by (simp add: block_alloc_def)
  moreover have "free_option_nodes ?nodes = Inr ()"
    by (simp add: payload_option_nodes_def ff_request_option_node_free_def ff_request_option_node_alloc_def Let_def)
  moreover have "?len = of_nat (length ?wire)" by (simp flip: len)
  moreover have "ucast ?len = (of_nat (length ?wire) :: 64 word)" by (simp flip: len)
  moreover have "(of_nat (length ?nodes) :: 8 word) \<noteq> 0" using un n by (metis length_0_conv unat_0)
  ultimately show ?thesis
    using assms by (intro exI [of _ "of_nat (length ?nodes)"])
      (simp add: ff_client_create_payload_options_def ff_client_request_add_payload_def ff_request_payload_node_alloc_def Let_def)
qed

section \<open>One packet\<close>

text \<open>A packet with the options \<open>opts\<close>, in their encoding, and \<open>l\<close> cells of the payload from \<open>c\<close> on.\<close>

definition client_packet :: "64 word \<Rightarrow> 32 word \<Rightarrow> block \<Rightarrow> byte list \<Rightarrow> nat \<times> nat \<Rightarrow> ff_client_packet" where
  "client_packet rid tot cells opts = (\<lambda>(c, l).
     \<lparr>packet_value = bytes (wire_header 1 rid tot (of_nat c) (of_nat l) @ opts) @ take l (drop c cells) @
        block_zero (1280 - length opts - l),
      packet_length = of_nat (20 + length opts + l)\<rparr>)"

lemma block_zero_add: "block_zero (m + n) = block_zero m @ block_zero n"
  by (simp add: block_zero_def replicate_add)

lemma block_zero_length [simp]: "length (block_zero n) = n" "drop m (block_zero n) = block_zero (n - m)"
  by (simp_all add: block_zero_def)

lemma packet_buffer:
  assumes hdr: "length h = 18" and opts: "length opts \<le> 1280" and cells: "length cells \<le> 1280 - length opts"
    and len: "length l2 = 2"
  shows "block_write (block_zero 1300) 0 (bytes h) = Inr (bytes h @ block_zero 1282)"
    and "block_write (bytes h @ block_zero 1282) 20 (bytes opts) = Inr (bytes (h @ [0, 0] @ opts) @ block_zero (1280 - length opts))"
    and "block_write (bytes (h @ [0, 0] @ opts) @ block_zero (1280 - length opts)) 18 (bytes l2) =
      Inr (bytes (h @ l2 @ opts) @ block_zero (1280 - length opts))"
    and "block_write (bytes (h @ l2 @ opts) @ block_zero (1280 - length opts)) (20 + length opts) cells =
      Inr (bytes (h @ l2 @ opts) @ cells @ block_zero (1280 - length opts - length cells))"
proof -
  show "block_write (block_zero 1300) 0 (bytes h) = Inr (bytes h @ block_zero 1282)"
    using hdr by (simp add: block_write_def)
  have "block_zero 1282 = bytes [0, 0] @ block_zero 1280"
    using block_zero_add [of 2 1280] by (simp add: block_zero_def numeral_2_eq_2)
  then show "block_write (bytes h @ block_zero 1282) 20 (bytes opts) = Inr (bytes (h @ [0, 0] @ opts) @ block_zero (1280 - length opts))"
    using hdr opts block_write_at [of "bytes (h @ [0, 0])" 20 "bytes opts" "block_zero 1280"] by simp
  show "block_write (bytes (h @ [0, 0] @ opts) @ block_zero (1280 - length opts)) 18 (bytes l2) =
      Inr (bytes (h @ l2 @ opts) @ block_zero (1280 - length opts))"
    using hdr len block_write_at [of "bytes h" 18 "bytes l2" "bytes ([0, 0] @ opts) @ block_zero (1280 - length opts)"] by simp
  show "block_write (bytes (h @ l2 @ opts) @ block_zero (1280 - length opts)) (20 + length opts) cells =
      Inr (bytes (h @ l2 @ opts) @ cells @ block_zero (1280 - length opts - length cells))"
    using hdr len cells block_write_at [of "bytes (h @ l2 @ opts)" "20 + length opts" cells "block_zero (1280 - length opts)"] by simp
qed

text \<open>The options of the packet: all of the request's in the first one, none in the others.\<close>

definition packet_opts :: "byte list \<Rightarrow> bool \<Rightarrow> byte list" where
  "packet_opts opts first = (if first then opts else [FF_REQUEST_OPTION_TYPE_EOL, 0, 0])"

lemma ucast_of_nat_16: "(ucast (of_nat m :: 32 word) :: 16 word) = of_nat m"
  by (simp add: word_unat_eq_iff unat_ucast_mod unat_of_nat take_bit_eq_mod mod_mod_cancel)

lemma packetise_packet_eq:
  assumes opts: "list_all2 shows_option (options request) os" "unat (options_length request) = length (options request)"
      "length (wire_list os) \<le> 1280"
    and pay: "payload request = node # nodes" "pl_live node"
    and c: "unat c = k" and n: "k + unat n \<le> length (pl_value node)"
    and o': "o' = packet_opts (wire_list os) first" and l: "l = min (unat n) (1280 - length o')"
  shows "packetise_packet request rid first c n =
    Inr (client_packet rid (ucast (payload_length request)) (pl_value node) o' (k, l), of_nat l)"
proof -
  let ?h = "store_be 2 (1 :: 16 word) @ store_be 8 rid @ store_be 4 (ucast (payload_length request) :: 32 word) @ store_be 4 c"
  let ?cells = "take l (drop k (pl_value node))"
  have o3: "length o' \<le> 1280" using opts(3) by (simp add: o' packet_opts_def)
  have cells: "length ?cells = l" using n l by simp
  have l16: "unat (of_nat l :: 16 word) = l" "unat (of_nat (20 + length o') :: 16 word) = 20 + length o'"
    using o3 l by (intro unat_of_nat_16; simp)+
  have chunk: "(if of_nat 1300 - of_nat (20 + length o') < n then of_nat 1300 - of_nat (20 + length o') else n) = (of_nat l :: 16 word)"
  proof -
    have "unat (of_nat 1300 - of_nat (20 + length o') :: 16 word) = 1280 - length o'"
      using o3 l16(2) by (subst unat_sub) (simp_all add: word_le_nat_alt)
    then show ?thesis
      using l l16(1) by (auto simp: word_less_nat_alt word_unat_eq_iff min_def)
  qed
  have buf: "block_write (block_zero 1300) 0 (bytes ?h) = Inr (bytes ?h @ block_zero 1282)"
      "block_write (bytes ?h @ block_zero 1282) 20 (bytes o') = Inr (bytes (?h @ [0, 0] @ o') @ block_zero (1280 - length o'))"
      "block_write (bytes (?h @ [0, 0] @ o') @ block_zero (1280 - length o')) 18 (bytes (store_be 2 (of_nat l :: 16 word))) =
        Inr (bytes (?h @ store_be 2 (of_nat l :: 16 word) @ o') @ block_zero (1280 - length o'))"
      "block_write (bytes (?h @ store_be 2 (of_nat l :: 16 word) @ o') @ block_zero (1280 - length o')) (20 + length o') ?cells =
        Inr (bytes (?h @ store_be 2 (of_nat l :: 16 word) @ o') @ ?cells @ block_zero (1280 - length o' - l))"
    using o3 l cells packet_buffer [of ?h o' ?cells "store_be 2 (of_nat l :: 16 word)"] by simp_all
  have written: "(if first then
        res_bind (ff_client_write_options header_size (bytes ?h @ block_zero 1282) (options request) (options_length request))
          (\<lambda>(buffer, m). Inr (buffer, of_nat header_size + ucast m))
      else res_bind (block_write (bytes ?h @ block_zero 1282) header_size (bytes [FF_REQUEST_OPTION_TYPE_EOL, 0, 0]))
          (\<lambda>buffer. Inr (buffer, of_nat header_size + of_nat option_header_size))) =
    Inr (bytes (?h @ [0, 0] @ o') @ block_zero (1280 - length o'), of_nat (20 + length o') :: 16 word)"
  proof (cases first)
    case True
    have "ff_client_write_options 20 (bytes ?h @ block_zero 1282) (options request) (options_length request) =
        Inr (bytes (?h @ [0, 0] @ o') @ block_zero (1280 - length o'), of_nat (length o'))"
      using write_options_wire [OF opts(1) _ _ opts(2), of 20 "bytes ?h @ block_zero 1282"] opts(3) True buf(2) o3 cells l
      by (simp add: o' packet_opts_def block_write_def)
    then show ?thesis
      using True by (simp add: header_size_def ucast_of_nat_16)
  next
    case False
    then show ?thesis
      using buf(2) o3 cells l by (simp add: o' packet_opts_def header_size_def option_header_size_def)
  qed
  have copy: "block_copy (drop (unat c) (pl_value node)) l = Inr ?cells"
    using cells by (simp add: block_copy_def c)
  have ver: "(of_int FF_VERSION_1 :: 16 word) = 1" by (simp add: FF_VERSION_1_def)
  have k: "(of_nat k :: 32 word) = c" using c by auto
  show ?thesis
    unfolding packetise_packet_def FF_CLIENT_MAX_PACKET_LENGTH_def store_htons store_htonll store_htonl ver buf(1)
      res_bind_simps written prod.case Let_def chunk buf(3) pay(1) list.case l16
    using pay(2) copy buf(4) by (simp add: client_packet_def wire_header_def k)
qed

section \<open>The packets of a request\<close>

text \<open>The ranges that the packets after the first one carry.\<close>

fun rest_chunks :: "nat \<Rightarrow> nat \<Rightarrow> (nat \<times> nat) list" where
  "rest_chunks c n = (if n = 0 then [] else (c, min n 1277) # rest_chunks (c + min n 1277) (n - min n 1277))"

declare rest_chunks.simps [simp del]

lemma rest_chunks_length: "length (rest_chunks c n) \<le> Suc (n div 1277)"
proof (induction c n rule: rest_chunks.induct)
  case (1 c n)
  show ?case
  proof (cases "n \<le> 1277")
    case True
    then show ?thesis by (simp add: rest_chunks.simps [of c n] rest_chunks.simps [of "c + n" 0] min_def)
  next
    case False
    then have "(n - 1277) div 1277 = n div 1277 - 1" "0 < n div 1277"
      by (simp_all add: le_div_geq) 
    then show ?thesis using 1 False by (subst rest_chunks.simps) (simp add: min_def)
  qed
qed

lemma unat_minus_of_nat:
  "l \<le> unat (n :: 16 word) \<Longrightarrow> unat (n - of_nat l) = unat n - l"
  using unat_lt_16 [of n] by (subst unat_sub) (simp_all add: word_le_nat_alt unat_of_nat_16)

lemma unat_offset:
  "unat (c :: 32 word) + l < 2 ^ 32 \<Longrightarrow> l < 2 ^ 16 \<Longrightarrow> unat (c + ucast (of_nat l :: 16 word)) = unat c + l"
  by (subst unat_plus_less) (simp_all add: unat_of_nat_16)

lemma rest_count:
  assumes "(m :: nat) \<noteq> 0"
  shows "0 < (m + 1276) div 1277" and "(m - min m 1277 + 1276) div 1277 + 1 \<le> (m + 1276) div 1277"
proof -
  show pos: "0 < (m + 1276) div 1277" using assms by (simp add: div_greater_zero_iff)
  show "(m - min m 1277 + 1276) div 1277 + 1 \<le> (m + 1276) div 1277"
  proof (cases "m \<le> 1277")
    case True
    then show ?thesis using pos by (simp add: min_def Suc_le_eq)
  next
    case False
    then have "m - 1277 + 1276 = m - 1" "m + 1276 = (m - 1) + 1277" by simp_all
    then show ?thesis using False div_add_self2 [of 1277 "m - 1"] by (simp add: min_def)
  qed
qed

lemma packetise_rest:
  assumes opts: "list_all2 shows_option (options request) os" "unat (options_length request) = length (options request)"
      "length (wire_list os) \<le> 1280"
    and pay: "payload request = node # nodes" "pl_live node"
    and c: "k = unat c" "m = unat n" "k + m \<le> length (pl_value node)" "k + m < 2 ^ 32"
    and room: "packets \<noteq> []" "length packets + (m + 1276) div 1277 \<le> packet_slots"
  shows "packetise_loop request rid packets c n =
    Inr (packets @ map (client_packet rid (ucast (payload_length request)) (pl_value node) [FF_REQUEST_OPTION_TYPE_EOL, 0, 0])
      (rest_chunks k m))"
  using c room
proof (induction m arbitrary: packets c n k rule: less_induct)
  case (less m)
  let ?p = "client_packet rid (ucast (payload_length request)) (pl_value node) [FF_REQUEST_OPTION_TYPE_EOL, 0, 0]"
  show ?case
  proof (cases "m = 0")
    case True
    then have "n = 0" using less.prems(2) by (simp add: unat_eq_zero)
    then show ?thesis using True by (subst packetise_loop.simps) (simp add: rest_chunks.simps)
  next
    case False
    let ?l = "min m 1277"
    have l: "?l \<le> m" "0 < ?l" "?l < 2 ^ 16" using False by simp_all
    have step: "packetise_packet request rid (packets = []) c n = Inr (?p (k, ?l), of_nat ?l)"
      using less.prems by (intro packetise_packet_eq [OF opts pay]) (simp_all add: packet_opts_def)
    have n: "n \<noteq> 0" using False less.prems(2) by auto
    have "packetise_loop request rid (packets @ [?p (k, ?l)]) (c + ucast (of_nat ?l :: 16 word)) (n - of_nat ?l) =
        Inr ((packets @ [?p (k, ?l)]) @ map ?p (rest_chunks (k + ?l) (m - ?l)))"
    proof (rule less.IH)
      show "m - ?l < m" using False by simp
      show "k + ?l = unat (c + ucast (of_nat ?l :: 16 word))" "m - ?l = unat (n - of_nat ?l)"
        using less.prems l by (simp_all add: unat_offset unat_minus_of_nat del: of_nat_min)
      show "k + ?l + (m - ?l) \<le> length (pl_value node)" "k + ?l + (m - ?l) < 2 ^ 32" using less.prems l by simp_all
      show "length (packets @ [?p (k, ?l)]) + (m - ?l + 1276) div 1277 \<le> packet_slots"
      proof -
        have "(m - ?l + 1276) div 1277 + 1 \<le> (m + 1276) div 1277" using rest_count(2) False by blast
        then show ?thesis using less.prems(6) by simp
      qed
    qed simp
    moreover have "0 < (m + 1276) div 1277" using rest_count(1) False by blast
    then have "length packets < packet_slots" using less.prems(6) by simp
    ultimately show ?thesis
      using step n False
      by (subst packetise_loop.simps) (simp add: rest_chunks.simps [of k m])
  qed
qed

lemma packetise_all:
  assumes opts: "list_all2 shows_option (options request) os" "unat (options_length request) = length (options request)"
      "length (wire_list os) < 1280"
    and pay: "payload request = node # nodes" "pl_live node" "payload_length request = of_nat m"
    and m: "m < 2 ^ 16" "0 < m" "m \<le> length (pl_value node)" and l: "l = min m (1280 - length (wire_list os))"
  shows "packetise_loop request rid [] 0 (ucast (payload_length request)) =
    Inr (client_packet rid (of_nat m) (pl_value node) (wire_list os) (0, l) #
      map (client_packet rid (of_nat m) (pl_value node) [FF_REQUEST_OPTION_TYPE_EOL, 0, 0]) (rest_chunks l (m - l)))"
proof -
  let ?n = "ucast (payload_length request) :: 16 word"
  let ?p = "client_packet rid (of_nat m) (pl_value node) (wire_list os) (0, l)"
  have n: "unat ?n = m" "?n \<noteq> 0" using m(1,2) by (simp_all add: pay(3) unat_ucast_mod unat_of_nat word_unat_eq_iff)
  have tot: "(ucast (payload_length request) :: 32 word) = of_nat m"
    using m(1) by (simp add: pay(3) word_unat_eq_iff unat_ucast_mod unat_of_nat)
  have lm: "l \<le> m" "l < 2 ^ 16" using l m(1) by simp_all
  have step: "packetise_packet request rid True 0 ?n = Inr (?p, of_nat l)"
    using packetise_packet_eq [OF opts(1,2) _ pay(1,2), of 0 0 ?n "wire_list os" True l rid] opts(3) n(1) m(3) l tot
    by (simp add: packet_opts_def)
  have "packetise_loop request rid [?p] (0 + ucast (of_nat l :: 16 word)) (?n - of_nat l) =
      Inr ([?p] @ map (client_packet rid (ucast (payload_length request)) (pl_value node) [FF_REQUEST_OPTION_TYPE_EOL, 0, 0])
        (rest_chunks l (m - l)))"
  proof (rule packetise_rest [OF opts(1,2) _ pay(1,2)])
    show "l = unat (0 + ucast (of_nat l :: 16 word) :: 32 word)" "m - l = unat (?n - of_nat l)"
      using lm n(1) by (simp_all add: unat_of_nat_16 unat_minus_of_nat)
    have "(m - l + 1276) div 1277 \<le> (2 ^ 16 + 1276) div 1277" using m(1) by (intro div_le_mono) simp
    then show "length [?p] + (m - l + 1276) div 1277 \<le> packet_slots"
      by (simp add: packet_slots_def FF_CLIENT_MAX_PACKETS_def)
  qed (use opts(3) m lm in simp_all)
  then show ?thesis
    using n(2) step by (subst packetise_loop.simps) (simp add: tot packet_slots_def FF_CLIENT_MAX_PACKETS_def)
qed

text \<open>A packet as the server's parser gets it: its length and the buffer.\<close>

abbreviation parser_input :: "ff_client_packet \<Rightarrow> 32 word \<times> block" where
  "parser_input p \<equiv> (ucast (packet_length p), packet_value p)"

lemma packet_length_eq:
  "length opts + l \<le> 1280 \<Longrightarrow> unat (packet_length (client_packet rid tot cells opts (c, l))) = 20 + length opts + l"
  using unat_of_nat_16 [of "20 + length opts + l"] by (simp add: client_packet_def)

lemma rest_chunks_le: "(c', l) \<in> set (rest_chunks c n) \<Longrightarrow> l \<le> 1277"
proof (induction c n rule: rest_chunks.induct)
  case (1 c n)
  then show ?case by (cases "n = 0") (auto simp: rest_chunks.simps [of c n] rest_chunks.simps [of c 0])
qed

lemma client_packet_carries:
  assumes "c + l \<le> length msg" and "length opts + l \<le> 1280" and "opts = wire_options ws t"
    and "packet_options_ok (of_nat c) ws t"
  shows "carries rid msg c l (length ws) (parser_input (client_packet rid (of_nat (length msg)) (bytes msg @ rest) opts (c, l)))"
  unfolding carries_def using assms packet_length_eq [OF assms(2)]
  by (intro exI [of _ ws] exI [of _ t] exI [of _ "block_zero (1280 - length opts - l)"])
    (simp add: chunk_packet_def data_packet_def, simp add: client_packet_def)

lemma rest_in_order:
  assumes "0 < c" and "c + n = length msg" and "length msg < 2 ^ 16"
  shows "in_order rid msg c (map (parser_input \<circ> client_packet rid (of_nat (length msg)) (bytes msg @ rest)
    [FF_REQUEST_OPTION_TYPE_EOL, 0, 0]) (rest_chunks c n))"
  using assms
proof (induction c n rule: rest_chunks.induct)
  case (1 c n)
  show ?case
  proof (cases "n = 0")
    case True
    then show ?thesis using 1 by (simp add: rest_chunks.simps)
  next
    case False
    have "packet_options_ok (of_nat c) [] FF_REQUEST_OPTION_TYPE_EOL" by (simp add: packet_options_ok_def)
    then have carr: "carries rid msg c (min n 1277) (length ([] :: (byte \<times> byte list) list)) (parser_input (client_packet rid (of_nat (length msg))
        (bytes msg @ rest) [FF_REQUEST_OPTION_TYPE_EOL, 0, 0] (c, min n 1277)))"
      using 1 by (intro client_packet_carries) (simp_all add: wire_options_simps)
    have "in_order rid msg (c + min n 1277) (map (parser_input \<circ> client_packet rid (of_nat (length msg)) (bytes msg @ rest)
        [FF_REQUEST_OPTION_TYPE_EOL, 0, 0]) (rest_chunks (c + min n 1277) (n - min n 1277)))"
      using 1 False by (intro 1(1)) simp_all
    from in_order_ConsI [OF carr _ _ this] show ?thesis
      using False by (subst rest_chunks.simps) (simp add: FF_REQUEST_MAX_OPTIONS_def del: in_order.simps)
  qed
qed

lemma option_nodes_show: "list_all (\<lambda>w. length (snd w) < 2 ^ 16) ws \<Longrightarrow> list_all2 shows_option (map option_node ws) ws"
  by (induction ws) (auto simp: shows_option_def option_node_def option_ok_def unat_of_nat_16)

lemma packetise_built:
  assumes built: "built_options request (ws @ [(t, [])])" "list_all wire_option_ok ws" "length (wire_options ws t) < 1280"
    and pay: "payload request = node # nodes" "pl_live node" "payload_length request = of_nat m"
    and m: "m < 2 ^ 16" "0 < m" "m \<le> length (pl_value node)" and l: "l = min m (1280 - length (wire_options ws t))"
  shows "ff_client_packetise_request (Some rand) request =
    Inr (Some (client_packet (load_le (take 8 rand)) (of_nat m) (pl_value node) (wire_options ws t) (0, l) #
      map (client_packet (load_le (take 8 rand)) (of_nat m) (pl_value node) [FF_REQUEST_OPTION_TYPE_EOL, 0, 0]) (rest_chunks l (m - l))))"
proof -
  have "list_all (\<lambda>w. length (snd w) < 2 ^ 16) (ws @ [(t, [])])"
    using built(2) by (auto simp: list_all_iff wire_option_ok_def)
  then have "list_all2 shows_option (options request) (ws @ [(t, [])])"
    using built(1) option_nodes_show [of "ws @ [(t, [])]"] by (simp add: built_options_def)
  moreover have "unat (options_length request) = length (options request)" using built(1) by (simp add: built_options_def)
  moreover have "l = min m (1280 - length (wire_list (ws @ [(t, [])])))" unfolding wire_list_options by (rule l)
  ultimately show ?thesis
    using packetise_all [OF _ _ _ pay m, of "ws @ [(t, [])]" l "load_le (take 8 rand)"] built(3)
    unfolding wire_list_options by (simp add: ff_client_packetise_request_def ff_client_generate_request_id_def)
qed

text \<open>
  C36. Packetising a request ends and loses nothing. For a non-empty payload below \<open>2 ^ 16\<close> bytes and
  options that leave room in the first packet, the loop of \<open>ff_client_packetise_request\<close> ends after at
  most 53 packets, far from the end of the array, each of at most \<open>FF_CLIENT_MAX_PACKET_LENGTH\<close>
  bytes; in this order they are exactly the chunk packets of the payload that the server's parser
  reassembles.
\<close>

theorem packetise_in_order:
  assumes "built_options request (ws @ [(t, [])])" "list_all wire_option_ok ws" "length ws < FF_REQUEST_MAX_OPTIONS"
    and "t = FF_REQUEST_OPTION_TYPE_EOL \<or> t = FF_REQUEST_OPTION_TYPE_BREAK" and "length (wire_options ws t) < 1280"
    and "holds_payload request msg" "payload_length request = of_nat (length msg)" "msg \<noteq> []"
  shows "\<exists>packets. ff_client_packetise_request (Some rand) request = Inr (Some packets) \<and>
    in_order (load_le (take 8 rand)) msg 0 (map parser_input packets) \<and>
    list_all (\<lambda>p. unat (packet_length p) \<le> FF_CLIENT_MAX_PACKET_LENGTH) packets \<and> length packets \<le> 53"
proof -
  let ?id = "load_le (take 8 rand) :: 64 word" and ?opts = "wire_options ws t" and ?m = "length msg"
  let ?l = "min ?m (1280 - length ?opts)"
  obtain node rest where node: "payload request = [node]" "pl_live node" "pl_value node = bytes msg @ rest"
    using assms(6) by (auto simp: holds_payload_def)
  have m: "?m < 2 ^ 16" "0 < ?m" using holds_payload_length [OF assms(6)] assms(8) by simp_all
  let ?first = "client_packet ?id (of_nat ?m) (bytes msg @ rest) ?opts (0, ?l)"
  let ?rest = "map (client_packet ?id (of_nat ?m) (bytes msg @ rest) [FF_REQUEST_OPTION_TYPE_EOL, 0, 0]) (rest_chunks ?l (?m - ?l))"
  have "ff_client_packetise_request (Some rand) request = Inr (Some (?first # ?rest))"
    using packetise_built [OF assms(1,2,5) node(1,2) assms(7) m _ refl] node(3) by simp
  moreover have "in_order ?id msg 0 (map parser_input (?first # ?rest))"
  proof -
    have "carries ?id msg 0 ?l (length ws) (parser_input ?first)"
      using assms(2,4,5) by (intro client_packet_carries) (auto simp: packet_options_ok_def)
    moreover have "in_order ?id msg (0 + ?l) (map parser_input ?rest)"
      using rest_in_order [of ?l "?m - ?l" msg ?id rest] m assms(5) by simp
    ultimately show ?thesis
      using in_order_ConsI [of ?id msg 0 ?l "length ws" "parser_input ?first"] m assms(3,5) by simp
  qed
  moreover have "list_all (\<lambda>p. unat (packet_length p) \<le> FF_CLIENT_MAX_PACKET_LENGTH) (?first # ?rest)"
  proof -
    have "unat (packet_length ?first) \<le> 1300"
      using assms(5) by (subst packet_length_eq) simp_all
    moreover have "unat (packet_length (client_packet ?id (of_nat ?m) (bytes msg @ rest) [FF_REQUEST_OPTION_TYPE_EOL, 0, 0] x)) \<le> 1300"
      if "x \<in> set (rest_chunks ?l (?m - ?l))" for x
      using that rest_chunks_le [of "fst x" "snd x" ?l "?m - ?l"]
        packet_length_eq [of "[FF_REQUEST_OPTION_TYPE_EOL, 0, 0]" "snd x" ?id "of_nat ?m" "bytes msg @ rest" "fst x"] by simp
    ultimately show ?thesis by (simp add: list_all_iff FF_CLIENT_MAX_PACKET_LENGTH_def)
  qed
  moreover have "length (?first # ?rest) \<le> 53"
  proof -
    have "(?m - ?l) div 1277 \<le> (2 ^ 16 - 1) div 1277" using m(1) by (intro div_le_mono) simp
    then show ?thesis using rest_chunks_length [of ?l "?m - ?l"] by simp
  qed
  ultimately show ?thesis by blast
qed

definition sample_built :: ff_request where
  "sample_built = ff_request_alloc\<lparr>options_length := 1, options := [option_node (FF_REQUEST_OPTION_TYPE_EOL, [])],
     payload_length := 3000,
     payload := [\<lparr>pl_offset = 0, pl_length = 3000, pl_value = bytes (replicate 3000 65), pl_live = True\<rparr>]\<rparr>"

theorem packetise_in_order_witness:
  "\<exists>packets. ff_client_packetise_request (Some [1, 2, 3, 4, 5, 6, 7, 8]) sample_built = Inr (Some packets) \<and>
    in_order (load_le (take 8 [1, 2, 3, 4, 5, 6, 7, 8])) (replicate 3000 65) 0 (map parser_input packets) \<and>
    list_all (\<lambda>p. unat (packet_length p) \<le> FF_CLIENT_MAX_PACKET_LENGTH) packets \<and> length packets \<le> 53"
proof (rule packetise_in_order [where ws = "[]" and t = FF_REQUEST_OPTION_TYPE_EOL])
  show "holds_payload sample_built (replicate 3000 65)"
    unfolding holds_payload_def by (rule exI [of _ "hd (payload sample_built)"]) (simp add: sample_built_def)
  show "replicate 3000 (65 :: byte) \<noteq> []" by (simp flip: length_0_conv)
qed (simp_all add: sample_built_def built_options_def FF_REQUEST_MAX_OPTIONS_def wire_options_simps)

end
