(* ===== verification/Client_Body.thy ===== *)
theory Client_Body
  imports Client_Wire
begin

text \<open>
  The request the C client makes of a body: the options in front of it, the single block they are
  copied to, and the datagrams that are sent. Up to 1024 bytes the datagram holds the body; a
  longer one is overwritten while it is read, and memory that was never written is sent instead.
\<close>

section \<open>The body\<close>

text \<open>What \<open>fread\<close> returns last.\<close>

function last_chunk :: "byte list \<Rightarrow> byte list" where
  "last_chunk body = (if length body \<le> 1024 then body else last_chunk (drop 1024 body))"
  by pat_completeness auto
termination by (relation "measure length") auto

declare last_chunk.simps [simp del]

lemma read_loop_short:
  assumes "length body \<le> 1024"
  shows "\<exists>rest. read_loop body (block_alloc 1024) 0 = Inr (Some (bytes body @ rest, of_nat (length body)))"
proof (cases "body = []")
  case True
  then show ?thesis by (simp add: read_loop.simps)
next
  case False
  have n: "unat (of_nat (length body) :: 16 word) = length body" using assms by (intro unat_of_nat_16) simp
  then have "(of_nat (length body) :: 16 word) \<noteq> 0" using False by (metis length_0_conv unat_0)
  moreover have "block_realloc (block_alloc 1024) (length body) = block_alloc (length body)"
    using assms by (simp add: block_realloc_def block_alloc_def)
  moreover have "read_loop [] v n = Inr (Some (v, n))" for v n by (simp add: read_loop.simps)
  ultimately show ?thesis
    using assms False n block_write_alloc [of body "length body"]
    by (subst read_loop.simps) (simp add: FF_CLIENT_READ_PAYLOAD_BUFFER_SIZE_def block_alloc_def)
qed

text \<open>Once a full chunk was read, every other one is written over it, and the rest of the buffer is never
  written.\<close>

lemma read_loop_long:
  assumes "body \<noteq> []" and "length c = 1024" and "1024 \<le> unat n" and "unat n + length body < 2 ^ 16"
  shows "\<exists>c'. length c' = 1024 \<and> take (length (last_chunk body)) c' = last_chunk body \<and>
    read_loop body (bytes c @ block_alloc (unat n - 1024)) n =
      Inr (Some (bytes c' @ block_alloc (unat n + length body - 1024), n + of_nat (length body)))"
  using assms
proof (induction body arbitrary: c n rule: last_chunk.induct)
  case (1 body)
  let ?chunk = "take 1024 body" and ?len = "n + of_nat (length (take 1024 body)) :: 16 word"
  let ?k = "length ?chunk"
  have chunk: "?k \<le> 1024" "?k \<le> length body" "0 < ?k" using 1 by simp_all
  have len: "unat ?len = unat n + ?k"
    using 1 chunk by (subst unat_plus_less) (simp_all add: unat_of_nat)
  then have nz: "?len \<noteq> 0" using 1 chunk by (metis add_is_0 less_numeral_extra(3) unat_0)
  have "block_realloc (bytes c @ block_alloc (unat n - 1024)) (unat ?len) = bytes c @ block_alloc (unat ?len - 1024)"
    using 1 len by (simp add: block_realloc_def block_alloc_def flip: replicate_add)
  moreover have "block_write (bytes c @ block_alloc (unat ?len - 1024)) 0 (bytes ?chunk) =
      Inr (bytes (?chunk @ drop ?k c) @ block_alloc (unat ?len - 1024))"
    using 1 by (simp add: block_write_def)
  ultimately have step: "read_loop body (bytes c @ block_alloc (unat n - 1024)) n =
      read_loop (drop 1024 body) (bytes (?chunk @ drop ?k c) @ block_alloc (unat ?len - 1024)) ?len"
    using 1 nz by (subst read_loop.simps) (simp add: FF_CLIENT_READ_PAYLOAD_BUFFER_SIZE_def Let_def)
  show ?case
  proof (cases "length body \<le> 1024")
    case True
    then have "read_loop body (bytes c @ block_alloc (unat n - 1024)) n =
        Inr (Some (bytes (body @ drop (length body) c) @ block_alloc (unat ?len - 1024), ?len))"
      unfolding step by (simp add: read_loop.simps)
    then show ?thesis
      using True 1 len by (intro exI [of _ "body @ drop (length body) c"]) (simp add: last_chunk.simps)
  next
    case False
    then obtain c' where "length c' = 1024" "take (length (last_chunk (drop 1024 body))) c' = last_chunk (drop 1024 body)"
        "read_loop (drop 1024 body) (bytes (?chunk @ drop ?k c) @ block_alloc (unat ?len - 1024)) ?len =
          Inr (Some (bytes c' @ block_alloc (unat ?len + length (drop 1024 body) - 1024), ?len + of_nat (length (drop 1024 body))))"
      using 1(1) [of "?chunk @ drop ?k c" ?len] 1(2-5) len by auto
    then show ?thesis
      using False len step by (intro exI [of _ c']) (simp add: last_chunk.simps [of body] of_nat_diff)
  qed
qed

section \<open>The request before it is encrypted\<close>

lemma vectorise_two:
  assumes "payload request = [a, b]" "pl_live a" "pl_live b" "pl_offset a = 0" "unat (pl_offset b) = unat (pl_length a)"
    and "unat (pl_length a) \<le> length (pl_value a)" "unat (pl_length b) \<le> length (pl_value b)"
    and "unat (payload_length request) = unat (pl_length a) + unat (pl_length b)"
  shows "ff_request_vectorise_payload request =
    Inr (request\<lparr>payload := [\<lparr>pl_offset = 0, pl_length = ucast (payload_length request),
      pl_value = take (unat (pl_length a)) (pl_value a) @ take (unat (pl_length b)) (pl_value b), pl_live = True\<rparr>]\<rparr>)"
  using assms
  by (simp add: ff_request_vectorise_payload_def block_copy_def block_write_def block_alloc_def
      ff_request_payload_node_free_def ff_request_payload_node_alloc_def)

abbreviation private_options :: "int \<Rightarrow> ff_client_config \<Rightarrow> byte list" where
  "private_options now config \<equiv> wire_options (client_options now config) FF_REQUEST_OPTION_TYPE_EOL"

text \<open>The first three calls of \<open>ff_client_make_request\<close>, for a body that is read as the cells \<open>val\<close>.\<close>

lemma prepare_request:
  assumes read: "read_loop body (block_alloc 1024) 0 = Inr (Some (val, of_nat (length body)))" "length body \<le> length val"
    and small: "length body + 18 < 2 ^ 16"
  obtains n r1 r2 r3 where "n \<noteq> 0" "ff_client_create_payload_options now ff_request_alloc config = Inr (r1, n)"
    "ff_client_read_payload_from_file r1 body = Inr (Some r2)" "ff_request_vectorise_payload r2 = Inr r3"
    "built_options r3 []" "payload_length r3 = of_nat (length (private_options now config) + length body)"
    "payload r3 = [\<lparr>pl_offset = 0, pl_length = of_nat (length (private_options now config) + length body),
      pl_value = bytes (private_options now config) @ take (length body) val, pl_live = True\<rparr>]"
proof -
  let ?opts = "private_options now config"
  let ?a = "\<lparr>pl_offset = 0, pl_length = of_nat (length ?opts), pl_value = bytes ?opts, pl_live = True\<rparr>"
  let ?b = "\<lparr>pl_offset = of_nat (length ?opts), pl_length = of_nat (length body), pl_value = val, pl_live = True\<rparr>"
  let ?r1 = "ff_request_alloc\<lparr>payload_length := of_nat (length ?opts), payload := [?a]\<rparr>"
  let ?r2 = "ff_request_alloc\<lparr>payload_length := of_nat (length ?opts) + of_nat (length body), payload := [?a, ?b]\<rparr>"
  have len: "length ?opts \<le> 18" by (rule client_options_props)
  have u: "unat (of_nat (length ?opts) :: 16 word) = length ?opts" "unat (of_nat (length body) :: 16 word) = length body"
      "unat (of_nat (length ?opts) + of_nat (length body) :: 64 word) = length ?opts + length body"
    using small len unat_of_nat_64 [of "length ?opts + length body"] by (simp_all add: unat_of_nat)
  obtain n where n: "n \<noteq> 0" "ff_client_create_payload_options now ff_request_alloc config = Inr (?r1, n)"
    using create_payload_options [of ff_request_alloc now config] by (auto simp: ff_request_alloc_def)
  have "(ucast (of_nat (length body) :: 16 word) :: 64 word) = of_nat (length body)"
    using u(2) by (simp add: word_unat_eq_iff unat_of_nat)
  then have r2: "ff_client_read_payload_from_file ?r1 body = Inr (Some ?r2)"
    using read(1) by (simp add: ff_client_read_payload_from_file_def ff_client_request_add_payload_def
        FF_CLIENT_READ_PAYLOAD_BUFFER_SIZE_def ff_request_payload_node_alloc_def Let_def)
  have "(ucast (of_nat (length ?opts) + of_nat (length body) :: 64 word) :: 16 word) = of_nat (length ?opts + length body)"
    using u(3) by (simp add: word_unat_eq_iff unat_ucast_mod unat_of_nat del: of_nat_add)
  then have r3: "ff_request_vectorise_payload ?r2 = Inr (?r2\<lparr>payload :=
      [\<lparr>pl_offset = 0, pl_length = of_nat (length ?opts + length body), pl_value = bytes ?opts @ take (length body) val, pl_live = True\<rparr>]\<rparr>)"
    using vectorise_two [of ?r2 ?a ?b] u read(2) by simp
  show thesis
    by (rule that [OF n r2 r3]) (simp_all add: built_options_def ff_request_alloc_def)
qed

section \<open>The datagrams\<close>

definition client_datagram :: "64 word \<Rightarrow> nat \<Rightarrow> block \<Rightarrow> byte list \<Rightarrow> nat \<times> nat \<Rightarrow> block" where
  "client_datagram rid m cells opts = (\<lambda>(c, l).
     bytes (wire_header 1 rid (of_nat m) (of_nat c) (of_nat l) @ opts) @ take l (drop c cells))"

text \<open>The network takes every datagram.\<close>

definition client_online :: "client_net \<Rightarrow> ff_client_config \<Rightarrow> bool" where
  "client_online net config \<longleftrightarrow>
     (\<exists>addr pt. cc_ip_address config = Some addr \<and> cc_port config = Some pt \<and> client_dns_ok net addr pt) \<and>
     client_socket_ok net \<and> (\<forall>i. 0 < sendto_result net i)"

lemma client_packet_copy:
  assumes "length opts + l \<le> 1280" and "c + l \<le> length cells"
  shows "block_copy (packet_value (client_packet rid (of_nat m) cells opts (c, l)))
      (unat (packet_length (client_packet rid (of_nat m) cells opts (c, l)))) = Inr (client_datagram rid m cells opts (c, l))"
  unfolding packet_length_eq [OF assms(1)]
  using assms by (simp add: block_copy_def client_packet_def client_datagram_def)

lemma rest_chunks_within: "(c', l) \<in> set (rest_chunks c n) \<Longrightarrow> c' + l \<le> c + n"
proof (induction c n rule: rest_chunks.induct)
  case (1 c n)
  then show ?case
    by (cases "n = 0") (auto simp: rest_chunks.simps [of c n] rest_chunks.simps [of c 0])
qed

lemma rest_chunks_bounds: "(c', l) \<in> set (rest_chunks c n) \<Longrightarrow> l \<le> 1277 \<and> c' + l \<le> c + n"
  using rest_chunks_le rest_chunks_within by blast

lemma send_loop_all:
  assumes "\<forall>i. 0 < sendto_result net i"
    and "list_all2 (\<lambda>p d. block_copy (packet_value p) (unat (packet_length p)) = Inr d) packets datagrams"
  shows "send_loop net i packets = Inr (True, datagrams)"
  using assms(2)
proof (induction packets arbitrary: i datagrams)
  case (Cons p packets)
  then show ?case
    using assms(1) [rule_format, of i] by (cases datagrams) (auto simp: not_le)
qed simp

lemma make_packets_eq:
  assumes built: "built_options request ws" "list_all wire_option_ok ws" "length ws < FF_REQUEST_MAX_OPTIONS"
      "length (wire_options ws FF_REQUEST_OPTION_TYPE_BREAK) < 1280"
    and pay: "payload request = [node]" "pl_live node" "payload_length request = of_nat m"
    and m: "m < 2 ^ 16" "0 < m" "m \<le> length (pl_value node)"
    and l: "l = min m (1280 - length (wire_options ws FF_REQUEST_OPTION_TYPE_BREAK))"
    and env: "n \<noteq> 0" "ce_id env = Some rand" "client_online (ce_net env) config" and rid: "rid = load_le (take 8 rand)"
  shows "make_packets env config n request =
    Inr (0, client_datagram rid m (pl_value node) (wire_options ws FF_REQUEST_OPTION_TYPE_BREAK) (0, l) #
      map (client_datagram rid m (pl_value node) [FF_REQUEST_OPTION_TYPE_EOL, 0, 0]) (rest_chunks l (m - l)))"
proof -
  let ?t = "FF_REQUEST_OPTION_TYPE_BREAK" and ?opts = "wire_options ws FF_REQUEST_OPTION_TYPE_BREAK"
  let ?r = "request\<lparr>options := map option_node ws @ [option_node (?t, [])], options_length := options_length request + 1\<rparr>"
  have node: "ff_request_option_node_alloc\<lparr>opt_type := ?t\<rparr> = option_node (?t, [])"
    by (simp add: ff_request_option_node_alloc_def option_node_def block_alloc_def)
  have r: "built_options ?r (ws @ [(?t, [])])"
    using built(1,3) unat_next_option [of "options_length request"] by (simp add: built_options_def)
  let ?first = "client_packet rid (of_nat m) (pl_value node) ?opts (0, l)"
  let ?rest = "map (client_packet rid (of_nat m) (pl_value node) [FF_REQUEST_OPTION_TYPE_EOL, 0, 0]) (rest_chunks l (m - l))"
  let ?ds = "client_datagram rid m (pl_value node) ?opts (0, l) #
      map (client_datagram rid m (pl_value node) [FF_REQUEST_OPTION_TYPE_EOL, 0, 0]) (rest_chunks l (m - l))"
  have p: "ff_client_packetise_request (Some rand) ?r = Inr (Some (?first # ?rest))"
    using packetise_built [OF r built(2,4) _ pay(2) _ m l, of "[]" rand] pay(1,3) by (simp add: rid)
  have "list_all2 (\<lambda>p d. block_copy (packet_value p) (unat (packet_length p)) = Inr d) (?first # ?rest) ?ds"
    using l m built(4)
    by (auto simp: list_all2_map1 list_all2_map2 list_all2_same client_packet_copy
        dest!: rest_chunks_bounds intro!: client_packet_copy)
  then have "send_loop (ce_net env) 0 (?first # ?rest) = Inr (True, ?ds)"
    using env(3) by (intro send_loop_all) (auto simp: client_online_def)
  then have s: "ff_client_send_request (ce_net env) config (?first # ?rest) = Inr (0, ?ds)"
    using env(3) by (auto simp: ff_client_send_request_def client_online_def simp del: send_loop.simps)
  have "options_live ?r"
    using r by (auto simp: built_options_def options_live_def list_all_iff option_node_def)
  then have "ff_request_free ?r = Inr ()" using pay(1,2) by (simp add: ff_request_free_safe)
  then show ?thesis
    using push_option_built [OF built(1,3)] env(1,2) node p s by (simp add: make_packets_def)
qed

section \<open>Bodies that are too long\<close>

lemma read_loop_overwrites:
  assumes "1024 < length body" and "length body < 2 ^ 16"
  shows "\<exists>c. length c = 1024 \<and> take (length (last_chunk body)) c = last_chunk body \<and>
    read_loop body (block_alloc 1024) 0 = Inr (Some (bytes c @ block_alloc (length body - 1024), of_nat (length body)))"
proof -
  let ?first = "take 1024 body" and ?rest = "drop 1024 body"
  have "block_realloc (block_alloc 1024) 1024 = block_alloc 1024" by (simp add: block_realloc_def block_alloc_def)
  then have "read_loop body (block_alloc 1024) 0 = read_loop ?rest (bytes ?first) 1024"
    using assms(1) block_write_alloc [of ?first 1024]
    by (subst read_loop.simps) (auto simp add: FF_CLIENT_READ_PAYLOAD_BUFFER_SIZE_def block_alloc_def min_def)
  moreover obtain c where "length c = 1024" "take (length (last_chunk ?rest)) c = last_chunk ?rest"
      "read_loop ?rest (bytes ?first @ block_alloc (unat (1024 :: 16 word) - 1024)) 1024 =
        Inr (Some (bytes c @ block_alloc (unat (1024 :: 16 word) + length ?rest - 1024), 1024 + of_nat (length ?rest)))"
    using read_loop_long [of ?rest ?first 1024] assms by auto
  moreover have "last_chunk body = last_chunk ?rest" using assms(1) by (subst last_chunk.simps) simp
  ultimately show ?thesis
    using assms(1) by (intro exI [of _ c]) (simp add: block_alloc_def of_nat_diff)
qed

text \<open>
  C38. A body of more than 1024 bytes is not sent. Each chunk that is read is copied over the first
  1024 bytes of the buffer, so what the client sends in place of the body starts with the last
  chunk of the file and, from byte 1024 on, is heap memory that was never written.
\<close>

theorem long_body_corrupted:
  assumes "1024 < length body" and "length body + 18 < 2 ^ 16" and "enc_key (cc_encryption config) = None"
    and "ce_id env = Some rand" and "client_online (ce_net env) config"
  shows "\<exists>h c k datagrams. ff_client_make_request env config body =
      Inr (0, (bytes (h @ [FF_REQUEST_OPTION_TYPE_BREAK, 0, 0] @
          wire_options (client_options (ce_now env) config) FF_REQUEST_OPTION_TYPE_EOL @ c) @ replicate k None) # datagrams) \<and>
    length h = header_size \<and> 0 < k \<and>
    length c = FF_CLIENT_READ_PAYLOAD_BUFFER_SIZE \<and> take (length (last_chunk body)) c = last_chunk body"
proof -
  let ?opts = "private_options (ce_now env) config"
  let ?m = "length ?opts + length body" and ?rid = "load_le (take 8 rand) :: 64 word"
  obtain c where c: "length c = 1024" "take (length (last_chunk body)) c = last_chunk body"
      "read_loop body (block_alloc 1024) 0 = Inr (Some (bytes c @ block_alloc (length body - 1024), of_nat (length body)))"
    using read_loop_overwrites [OF assms(1)] assms(2) by auto
  let ?v = "bytes ?opts @ bytes c @ block_alloc (length body - 1024)"
  have len: "length ?opts \<le> 18" by (rule client_options_props)
  obtain n r1 r2 r3 where r: "n \<noteq> 0" "ff_client_create_payload_options (ce_now env) ff_request_alloc config = Inr (r1, n)"
      "ff_client_read_payload_from_file r1 body = Inr (Some r2)" "ff_request_vectorise_payload r2 = Inr r3"
      "built_options r3 []" "payload_length r3 = of_nat ?m"
      "payload r3 = [\<lparr>pl_offset = 0, pl_length = of_nat ?m, pl_value = ?v, pl_live = True\<rparr>]"
    by (rule prepare_request [OF c(3) _ assms(2), of "ce_now env" config]) (use c(1) assms(1) in \<open>simp_all add: block_alloc_def\<close>)
  let ?l = "min ?m 1277"
  have "make_packets env config n r3 = Inr (0, client_datagram ?rid ?m ?v [FF_REQUEST_OPTION_TYPE_BREAK, 0, 0] (0, ?l) #
      map (client_datagram ?rid ?m ?v [FF_REQUEST_OPTION_TYPE_EOL, 0, 0]) (rest_chunks ?l (?m - ?l)))"
    by (subst make_packets_eq [OF r(5) _ _ _ r(7) _ r(6) _ _ _ refl r(1) assms(4,5) refl])
      (use len assms(1,2) c(1) in \<open>auto simp: FF_REQUEST_MAX_OPTIONS_def wire_options_simps block_alloc_def\<close>)
  moreover have "take ?l ?v = bytes (?opts @ c) @ replicate (min (length body - 1024) (253 - length ?opts)) None"
    using len assms(1) c(1) by (simp add: block_alloc_def min_def)
  ultimately have "ff_client_make_request env config body =
      Inr (0, (bytes (wire_header 1 ?rid (of_nat ?m) (of_nat 0) (of_nat ?l) @ [FF_REQUEST_OPTION_TYPE_BREAK, 0, 0] @ ?opts @ c) @
        replicate (min (length body - 1024) (253 - length ?opts)) None) #
      map (client_datagram ?rid ?m ?v [FF_REQUEST_OPTION_TYPE_EOL, 0, 0]) (rest_chunks ?l (?m - ?l)))"
    using r(2-4) assms(3) by (simp add: ff_client_make_request_def client_datagram_def)
  moreover have "0 < min (length body - 1024) (253 - length ?opts)" using len assms(1) by simp
  ultimately show ?thesis
    using c(1,2) by (intro exI conjI) (auto simp: header_size_def FF_CLIENT_READ_PAYLOAD_BUFFER_SIZE_def)
qed

definition sample_client_config :: ff_client_config where
  "sample_client_config =
     \<lparr>cc_port = Some (map of_char ''8080''), cc_ip_address = Some default_ip_address, cc_https = False,
      cc_encryption = \<lparr>enc_key = None, pbkdf2_iterations = 1000\<rparr>, cc_logging_level = Some FF_ERROR\<rparr>"

definition sample_client_env :: "byte list client_env" where
  "sample_client_env =
     \<lparr>ce_now = 1000, ce_evp = tag_enc, ce_pbkdf2 = toy_pbkdf2, ce_salt = Some (replicate 16 7), ce_iv = Some (replicate 12 9),
      ce_id = Some [1, 2, 3, 4, 5, 6, 7, 8],
      ce_net = \<lparr>client_dns_ok = (\<lambda>addr pt. True), client_socket_ok = True, sendto_result = (\<lambda>i. 1)\<rparr>\<rparr>"

lemma sample_client_online: "client_online (ce_net sample_client_env) sample_client_config"
  by (simp add: client_online_def sample_client_env_def sample_client_config_def)

theorem long_body_corrupted_witness:
  "\<exists>h c k datagrams. ff_client_make_request sample_client_env sample_client_config (replicate 2000 65 @ [66]) =
      Inr (0, (bytes (h @ [FF_REQUEST_OPTION_TYPE_BREAK, 0, 0] @
          wire_options (client_options (ce_now sample_client_env) sample_client_config) FF_REQUEST_OPTION_TYPE_EOL @ c) @
          replicate k None) # datagrams) \<and>
    length h = header_size \<and> 0 < k \<and> length c = FF_CLIENT_READ_PAYLOAD_BUFFER_SIZE \<and>
    take (length (last_chunk (replicate 2000 65 @ [66]))) c = last_chunk (replicate 2000 65 @ [66])"
  by (rule long_body_corrupted [OF _ _ _ _ sample_client_online])
    (simp_all add: sample_client_config_def sample_client_env_def)

end
