(* ===== verification/Delivery.thy ===== *)
theory Delivery
  imports Server_Packets Client_Body
begin

text \<open>
  The client and the proxy together: the datagram the C client sends for a body is received, decrypted
  and forwarded to its destination. The section on the worker follows
  \<open>ff_proxy_process_request\<close> through its calls for such a request; an empty body, which the client
  sends without complaint, makes the worker free its payload twice.
\<close>

section \<open>The datagram of a body\<close>

text \<open>Client and server have the same key and number of iterations, and OpenSSL does what it documents.\<close>

definition crypto_agrees ::
  "'a client_env \<Rightarrow> ff_client_config \<Rightarrow> 'b env \<Rightarrow>
   (byte list \<Rightarrow> byte list \<Rightarrow> byte list \<Rightarrow> byte list \<Rightarrow> byte list option) \<Rightarrow> bool" where
  "crypto_agrees cenv config env dec \<longleftrightarrow>
     cc_encryption config = encryption (env_config env) \<and> ce_pbkdf2 cenv = env_pbkdf2 env \<and>
     gcm_enc_spec (ce_evp cenv) dec \<and> gcm_enc_ready (ce_evp cenv) \<and> gcm_spec (env_evp env) dec \<and> gcm_ready (env_evp env) \<and>
     (\<exists>salt iv. ce_salt cenv = Some salt \<and> length salt = 16 \<and> ce_iv cenv = Some iv \<and> length iv = 12 \<and>
        (\<forall>k. enc_key (cc_encryption config) = Some k \<longrightarrow>
           env_pbkdf2 env k salt (pbkdf2_iterations (cc_encryption config)) 32 \<noteq> None))"

text \<open>What the server's decryption makes of a request with the options \<open>ws\<close> and the payload \<open>msg\<close>.\<close>

definition decrypts_to :: "'b env \<Rightarrow> (byte \<times> byte list) list \<Rightarrow> byte list \<Rightarrow> byte list \<Rightarrow> bool" where
  "decrypts_to env ws msg pt \<longleftrightarrow>
     (\<forall>request. has_options request ws \<longrightarrow> holds_payload request msg \<longrightarrow> payload_length request = of_nat (length msg) \<longrightarrow>
        (\<exists>n nodes. ff_decrypt_request (env_evp env) (env_pbkdf2 env) request (encryption (env_config env)) =
             Inr (request\<lparr>state := FF_REQUEST_STATE_DECRYPTED, payload_length := n, payload := nodes\<rparr>) \<and>
           holds_payload (request\<lparr>payload := nodes\<rparr>) pt))"

lemma decrypts_to_clear:
  assumes "enc_key (encryption (env_config env)) = None" and "gcm_spec (env_evp env) dec"
  shows "decrypts_to env [] msg msg"
  unfolding decrypts_to_def
proof (intro allI impI)
  fix request
  assume r: "has_options request []" "holds_payload request msg" "payload_length request = of_nat (length msg)"
  have "length msg \<le> unat (payload_length request)"
    using r(3) holds_payload_length [OF r(2)] by (simp add: unat_of_nat_64)
  from decrypt_request_cases [OF r(1,2) this assms(2), of "env_pbkdf2 env" "encryption (env_config env)"]
  have "ff_decrypt_request (env_evp env) (env_pbkdf2 env) request (encryption (env_config env)) =
      Inr (request\<lparr>state := FF_REQUEST_STATE_DECRYPTED\<rparr>)"
    using assms(1) by (auto simp: in_the_clear_def authenticated_def)
  then show "\<exists>n nodes. ff_decrypt_request (env_evp env) (env_pbkdf2 env) request (encryption (env_config env)) =
      Inr (request\<lparr>state := FF_REQUEST_STATE_DECRYPTED, payload_length := n, payload := nodes\<rparr>) \<and>
      holds_payload (request\<lparr>payload := nodes\<rparr>) msg"
    using r(2) by (intro exI [of _ "payload_length request"] exI [of _ "payload request"]) simp
qed

lemma decrypts_to_encrypted:
  assumes "enc_key (encryption (env_config env)) = Some k"
    and "env_pbkdf2 env k salt (pbkdf2_iterations (encryption (env_config env))) 32 = Some dk" "dec dk iv ct tag = Some pt"
    and "iv \<noteq> []" "tag \<noteq> []" "salt \<noteq> []" and "gcm_spec (env_evp env) dec" "gcm_ready (env_evp env)"
  shows "decrypts_to env (encryption_options iv tag salt) ct pt"
  unfolding decrypts_to_def
proof (intro allI impI)
  fix request
  assume r: "has_options request (encryption_options iv tag salt)" "holds_payload request ct"
    "payload_length request = of_nat (length ct)"
  from decrypt_encrypted [where ?pbkdf2.0 = "env_pbkdf2 env" and dec = dec, OF r assms] obtain n where
    n: "ff_decrypt_request (env_evp env) (env_pbkdf2 env) request (encryption (env_config env)) =
      Inr (request\<lparr>state := FF_REQUEST_STATE_DECRYPTED, payload_length := of_nat (length pt), payload := [plaintext_node pt n]\<rparr>)"
      "length pt = length ct" by blast
  then show "\<exists>n nodes. ff_decrypt_request (env_evp env) (env_pbkdf2 env) request (encryption (env_config env)) =
      Inr (request\<lparr>state := FF_REQUEST_STATE_DECRYPTED, payload_length := n, payload := nodes\<rparr>) \<and>
      holds_payload (request\<lparr>payload := nodes\<rparr>) pt"
    using holds_payload_length [OF r(2)] plaintext_node_props(1) [where pt = pt and n = n and request = request] by auto
qed

text \<open>One datagram, a chunk packet with the whole payload, from which the server gets the options the
  client put in front of the body, and the body.\<close>

lemma single_datagram:
  assumes "built_options request ws" "list_all wire_option_ok ws" "length ws < FF_REQUEST_MAX_OPTIONS"
    and pay: "holds_payload request msg" "payload_length request = of_nat (length msg)" "msg \<noteq> []"
    and fits: "length (wire_options ws FF_REQUEST_OPTION_TYPE_BREAK) + length msg \<le> 1280"
    and env: "n \<noteq> 0" "ce_id env = Some rand" "client_online (ce_net env) config"
  shows "make_packets env config n request =
    Inr (0, [bytes (chunk_packet (load_le (take 8 rand)) msg 0 (length msg) ws FF_REQUEST_OPTION_TYPE_BREAK)])"
proof -
  obtain node rest where node: "payload request = [node]" "pl_live node" "pl_value node = bytes msg @ rest"
    using pay(1) by (auto simp: holds_payload_def)
  have msg: "length msg < 2 ^ 16" "0 < length msg" using holds_payload_length [OF pay(1)] pay(3) by simp_all
  have "length msg = min (length msg) (1280 - length (wire_options ws FF_REQUEST_OPTION_TYPE_BREAK))" using fits by simp
  from make_packets_eq [OF assms(1-3) _ node(1,2) pay(2) msg _ this env refl]
  show ?thesis
    using fits node(3) msg(2) by (simp add: rest_chunks.simps client_datagram_def chunk_packet_def data_packet_def)
qed

text \<open>The options of the packet that carries a body, and their sizes.\<close>

definition public_options :: "(byte \<times> byte list) list \<Rightarrow> bool" where
  "public_options ws \<longleftrightarrow>
     list_all wire_option_ok ws \<and> length ws \<le> 5 \<and> length (wire_options ws FF_REQUEST_OPTION_TYPE_BREAK) \<le> 64 \<and>
     list_all (\<lambda>w. fst w \<noteq> FF_REQUEST_OPTION_TYPE_HTTPS \<and> fst w \<noteq> FF_REQUEST_OPTION_TYPE_TIMESTAMP) ws"

lemma public_options_Nil: "public_options []"
  by (simp add: public_options_def wire_options_simps)

lemma public_options_encryption:
  "length iv = 12 \<Longrightarrow> length tag = 16 \<Longrightarrow> length salt = 16 \<Longrightarrow> public_options (encryption_options iv tag salt)"
  using encryption_options_ok [of iv tag salt]
  by (simp add: public_options_def) (simp add: encryption_options_def option_type_defs length_wire_options)

lemma client_sends:
  assumes body: "length body \<le> 1024" and id: "ce_id cenv = Some rand" and online: "client_online (ce_net cenv) config"
    and agrees: "crypto_agrees cenv config env dec"
  obtains ws msg where "ff_client_make_request cenv config body =
      Inr (0, [bytes (chunk_packet (load_le (take 8 rand)) msg 0 (length msg) ws FF_REQUEST_OPTION_TYPE_BREAK)])"
    "public_options ws" "length msg = length (private_options (ce_now cenv) config) + length body"
    "decrypts_to env ws msg (private_options (ce_now cenv) config @ body)"
proof -
  let ?opts = "private_options (ce_now cenv) config" and ?pt = "private_options (ce_now cenv) config @ body"
  have opts: "length ?opts \<le> 18" "14 \<le> length ?opts" by (rule client_options_props)+
  obtain rest where "read_loop body (block_alloc 1024) 0 = Inr (Some (bytes body @ rest, of_nat (length body)))"
    using read_loop_short [OF body] by blast
  then obtain n r1 r2 r3 where r: "n \<noteq> 0" "ff_client_create_payload_options (ce_now cenv) ff_request_alloc config = Inr (r1, n)"
      "ff_client_read_payload_from_file r1 body = Inr (Some r2)" "ff_request_vectorise_payload r2 = Inr r3"
      "built_options r3 []" "payload_length r3 = of_nat (length ?opts + length body)"
      "payload r3 = [\<lparr>pl_offset = 0, pl_length = of_nat (length ?opts + length body),
        pl_value = bytes ?opts @ take (length body) (bytes body @ rest), pl_live = True\<rparr>]"
    by (rule prepare_request) (use body in simp_all)
  have "unat (of_nat (length ?opts + length body) :: 16 word) = length ?opts + length body"
    using body opts by (intro unat_of_nat_16) simp
  then have pay: "holds_payload r3 ?pt" using r(7) by (simp add: holds_payload_def)
  have len: "payload_length r3 = of_nat (length ?pt)" using r(6) by simp
  have ne: "?pt \<noteq> []" using opts by auto
  show thesis
  proof (cases "enc_key (cc_encryption config)")
    case None
    have "make_packets cenv config n r3 =
        Inr (0, [bytes (chunk_packet (load_le (take 8 rand)) ?pt 0 (length ?pt) [] FF_REQUEST_OPTION_TYPE_BREAK)])"
      by (rule single_datagram [OF r(5) _ _ pay len ne _ r(1) id online])
        (use body opts in \<open>simp_all add: FF_REQUEST_MAX_OPTIONS_def wire_options_simps\<close>)
    moreover have "decrypts_to env [] ?pt ?pt"
      using agrees None by (intro decrypts_to_clear) (auto simp: crypto_agrees_def)
    ultimately show thesis
      using None r(2-4) public_options_Nil by (intro that [of ?pt "[]"]) (simp_all add: ff_client_make_request_def)
  next
    case (Some k)
    obtain salt iv dk where rand: "ce_salt cenv = Some salt" "length salt = 16" "ce_iv cenv = Some iv" "length iv = 12"
        "env_pbkdf2 env k salt (pbkdf2_iterations (cc_encryption config)) 32 = Some dk"
      using agrees Some by (auto simp: crypto_agrees_def)
    have cfg: "cc_encryption config = encryption (env_config env)" "ce_pbkdf2 cenv = env_pbkdf2 env"
      and evp: "gcm_enc_spec (ce_evp cenv) dec" "gcm_enc_ready (ce_evp cenv)" "gcm_spec (env_evp env) dec" "gcm_ready (env_evp env)"
      using agrees by (simp_all add: crypto_agrees_def)
    obtain r4 ct tag where e:
        "ff_client_encrypt_request (ce_evp cenv) (env_pbkdf2 env) (Some salt) (Some iv) r3 (Some (cc_encryption config)) = Inr (Some r4)"
        "built_options r4 ([] @ encryption_options iv tag salt)" "holds_payload r4 ct"
        "payload_length r4 = of_nat (length ct)" "length ct = length ?pt" "length tag = 16" "dec dk iv ct tag = Some ?pt"
      by (rule encrypt_request [where ?pbkdf2.0 = "env_pbkdf2 env", OF pay len r(5) _ Some rand(5) _ _ evp(1,2), of iv])
        (simp_all add: rand FF_REQUEST_MAX_OPTIONS_def)
    have pub: "public_options (encryption_options iv tag salt)" using rand e(6) by (intro public_options_encryption)
    have "make_packets cenv config n r4 = Inr (0, [bytes (chunk_packet (load_le (take 8 rand)) ct 0 (length ct)
        (encryption_options iv tag salt) FF_REQUEST_OPTION_TYPE_BREAK)])"
      by (rule single_datagram [OF _ _ _ e(3,4) _ _ r(1) id online])
        (use body opts pub e(2,5) ne in \<open>auto simp: public_options_def FF_REQUEST_MAX_OPTIONS_def\<close>)
    moreover have "decrypts_to env (encryption_options iv tag salt) ct ?pt"
      using Some rand e(6,7) evp(3,4) cfg by (intro decrypts_to_encrypted [where k = k and dk = dk and dec = dec]) auto
    ultimately show thesis
      using Some r(2-4) pub e(1,5) rand(1,3) cfg(2)
      by (intro that [of ct "encryption_options iv tag salt"]) (simp_all add: ff_client_make_request_def)
  qed
qed

section \<open>Receiving it\<close>

lemma whole_request:
  assumes p: "p = chunk_packet r msg 0 (length msg) ws t" "length p \<le> FF_PROXY_BUFF_SIZE"
    and msg: "msg \<noteq> []" and opts: "packet_options_ok 0 ws t" "length ws < FF_REQUEST_MAX_OPTIONS"
  obtains request where
    "ff_request_parse_chunk (ff_request_alloc\<lparr>received_at := now, source := src\<rparr>) (of_nat (length p)) (bytes p @ rest) = Inr request"
    "state request = FF_REQUEST_STATE_RECEIVED" "payload request = [message_node msg 0 (length msg)]"
    "has_options request ws" "payload_contains_options request \<longleftrightarrow> t = FF_REQUEST_OPTION_TYPE_BREAK"
    "payload_length request = of_nat (length msg)" "request_id request = r"
proof -
  let ?new = "ff_request_alloc\<lparr>received_at := now, source := src\<rparr>" and ?l = "length msg"
  let ?request = "(add_options ws t (start_request r msg ?new))\<lparr>payload := [message_node msg 0 ?l],
    received_length := of_nat ?l, state := FF_REQUEST_STATE_RECEIVED\<rparr>"
  have n: "unat (of_nat (length p) :: 32 word) = length p" "length p < 2 ^ 16"
    using p(2) by (simp_all add: FF_PROXY_BUFF_SIZE_def unat_of_nat_32)
  have small: "?l < 2 ^ 16" using n(2) p(1) by (simp add: chunk_packet_def data_packet_def)
  have u: "unat (of_nat ?l :: 32 word) = ?l" "(ucast (of_nat ?l :: 16 word) :: 64 word) = of_nat ?l"
    using small by (simp_all add: unat_of_nat_32 word_unat_eq_iff unat_of_nat)
  have opts0: "options (start_request r msg ?new) = []" "payload (start_request r msg ?new) = []"
      "payload_length (start_request r msg ?new) = of_nat ?l" "request_id (start_request r msg ?new) = r"
      "options_length (start_request r msg ?new) = 0"
    by (simp_all add: start_request_def ff_request_alloc_def)
  have "add_chunk (add_options ws t (start_request r msg ?new)) (of_nat 0) (of_nat ?l) (of_nat ?l) (bytes (take ?l (drop 0 msg)) @ rest) =
      Inr ?request"
    using load_buff_bytes [of "of_nat ?l" msg rest] u opts0
    by (simp add: add_chunk_def ff_request_payload_load_buff_def ff_request_payload_node_alloc_def message_node_def add_options_def)
  then have parse: "ff_request_parse_chunk ?new (of_nat (length p)) (bytes p @ rest) = Inr ?request"
    using parse_chunk_carries [OF reassembling_new [where r = r and msg = msg and now = now and src = src] small,
        of 0 ?l ws t "of_nat (length p)" rest] n opts opts0(1) p(1) by (simp add: Let_def)
  have ws: "list_all wire_option_ok ws" using opts(1) by (simp add: packet_options_ok_def)
  have "options_ok (start_request r msg ?new)"
    using opts0 by (simp add: options_ok_def FF_REQUEST_MAX_OPTIONS_def)
  then have "options_ok (add_options ws t (start_request r msg ?new))"
    using ws opts(2) opts0(1) by (intro add_options_ok) simp_all
  then have "has_options ?request ws"
    using opts0 option_view_nodes [OF ws] by (simp add: has_options_def options_ok_def add_options_def)
  then show thesis
    by (rule that [OF parse, rotated 2]) (simp_all add: opts0, simp add: add_options_def)
qed

lemma packet_parsed_outbox: "res_all (\<lambda>s'. outbox s' = outbox s) (packet_parsed s i a)"
  unfolding packet_parsed_def
  by (rule res_all_bind)
    (auto simp: free_request_def remove_item_def res_simps split: ff_request_state.split)

lemma lookup_request_outbox: "res_all (\<lambda>(a, s'). outbox s' = outbox s) (lookup_request s now src i)"
  unfolding lookup_request_def alloc_request_def by auto

lemma incoming_packet_outbox: "res_all (\<lambda>s'. outbox s' = outbox s) (ff_proxy_process_incoming_packet s now src buff n)"
proof -
  have parsed: "res_all (\<lambda>s'. outbox s' = outbox s) (packet_parsed t i a)" if "outbox t = outbox s" for t i a
    using packet_parsed_outbox [of t i a] that by simp
  have "res_all (\<lambda>s'. outbox s' = outbox s) (if i = 0 then Inr s
       else
         res_bind (lookup_request s now src i) (\<lambda>(a, s).
         res_bind (read_request s a) (\<lambda>request.
         if source request \<noteq> take 16 src then Inr s
         else
           res_bind (ff_request_parse_chunk request n buff) (\<lambda>request.
           packet_parsed (write_request s a request) i a))))" for i
    using res_allD [OF lookup_request_outbox]
    by (auto intro!: parsed simp: write_request_def)
  then show ?thesis
    unfolding ff_proxy_process_incoming_packet_def by (auto intro!: parsed simp: alloc_request_def)
qed

lemma receive_packet_outbox: "receive_packet s now src bs = Inr s' \<Longrightarrow> outbox s' = outbox s"
  by (auto simp: receive_packet_def Let_def res_simps dest!: res_allD [OF incoming_packet_outbox])

lemma receive_whole:
  assumes ok: "proxy_ok s es" and new: "map_of es r = None" "r \<noteq> 0"
    and p: "p = chunk_packet r msg 0 (length msg) ws t" "length p \<le> FF_PROXY_BUFF_SIZE"
    and msg: "msg \<noteq> []" and opts: "packet_options_ok 0 ws t" "length ws < FF_REQUEST_MAX_OPTIONS"
  obtains s1 request where "receive_packet s now src p = Inr s1" "workers s1 = workers s @ [(next_request s, Vectorise)]"
    "outbox s1 = outbox s" "heap s1 (next_request s) = Some request" "next_request s \<noteq> 0"
    "stores (requests s1) (es @ [(r, next_request s)])" "payload request = [message_node msg 0 (length msg)]"
    "has_options request ws" "payload_contains_options request \<longleftrightarrow> t = FF_REQUEST_OPTION_TYPE_BREAK"
    "payload_length request = of_nat (length msg)" "request_id request = r"
proof -
  let ?a = "next_request s"
  obtain request where q: "ff_request_parse_chunk (ff_request_alloc\<lparr>received_at := now, source := take 16 src\<rparr>)
        (of_nat (length p)) (bytes p @ drop (length p) (buffer s)) = Inr request"
      "state request = FF_REQUEST_STATE_RECEIVED" "payload request = [message_node msg 0 (length msg)]"
      "has_options request ws" "payload_contains_options request \<longleftrightarrow> t = FF_REQUEST_OPTION_TYPE_BREAK"
      "payload_length request = of_nat (length msg)" "request_id request = r"
    by (rule whole_request [OF p msg opts])
  obtain t1 where t1: "receive_packet s now src p = packet_parsed t1 r ?a" "proxy_ok_but {?a} t1 (es @ [(r, ?a)])"
      "heap t1 ?a = Some request" "workers t1 = workers s"
    by (rule first_packet [OF ok new p q(1)])
  have a: "?a \<noteq> 0" using proxy_okD(3) [OF ok] by simp
  let ?s1 = "t1\<lparr>workers := workers s @ [(?a, Vectorise)]\<rparr>"
  have s1: "receive_packet s now src p = Inr ?s1"
    using t1 q(2) a by (simp add: packet_parsed_def read_request_def)
  show thesis
    by (rule that [OF s1 _ receive_packet_outbox [OF s1] _ a _ q(3-7)]) (use t1(3) proxy_okD(1) [OF t1(2)] in simp_all)
qed

section \<open>Processing it\<close>

lemma cleanup_frees:
  assumes "heap s a = Some request" "a \<noteq> 0" "request_id request = r" "r \<noteq> 0" "stores (requests s) es"
  obtains table where "stores table (AList.delete r es)"
    "cleanup_request s a = res_bind (ff_request_free request) (\<lambda>_. Inr (s\<lparr>requests := table, heap := (heap s)(a := None)\<rparr>))"
proof -
  obtain table where t: "ff_hash_table_remove_item (requests s) r = Inr table" "stores table (AList.delete r es)"
    using ht.remove_law [OF assms(5)] by blast
  then show thesis
    using that assms(1-4) by (simp add: cleanup_request_def read_request_def remove_item_def free_request_def)
qed

text \<open>The first two calls: the payload is a single node, and decryption gives the options and the body.\<close>

lemma worker_decrypts:
  assumes req: "heap s a = Some request" "a \<noteq> 0" "payload request = [message_node msg 0 (length msg)]"
      "has_options request ws" "payload_length request = of_nat (length msg)"
    and small: "length msg < 2 ^ 16" and dec: "decrypts_to env ws msg pt"
  obtains n nodes where "read_request s a = Inr request" "ff_request_vectorise_payload request = Inr request"
    "ff_decrypt_request (env_evp env) (env_pbkdf2 env) request (encryption (env_config env)) =
      Inr (request\<lparr>state := FF_REQUEST_STATE_DECRYPTED, payload_length := n, payload := nodes\<rparr>)"
    "holds_payload (request\<lparr>payload := nodes\<rparr>) pt"
proof -
  have "holds_payload request msg"
    using req(3) small by (simp add: holds_payload_def message_node_def unat_of_nat_16)
  then obtain n nodes where "ff_decrypt_request (env_evp env) (env_pbkdf2 env) request (encryption (env_config env)) =
      Inr (request\<lparr>state := FF_REQUEST_STATE_DECRYPTED, payload_length := n, payload := nodes\<rparr>)"
      "holds_payload (request\<lparr>payload := nodes\<rparr>) pt"
    using dec [unfolded decrypts_to_def, rule_format, OF req(4) _ req(5)] by blast
  then show thesis
    by (intro that) (use req in \<open>simp_all add: read_request_def ff_request_vectorise_payload_def message_node_def\<close>)
qed

lemma client_timestamp:
  assumes "public_options ws"
  shows "request_timestamp (ws @ client_options t config) = of_int t"
    and "map_of (ws @ client_options t config) FF_REQUEST_OPTION_TYPE_HTTPS = Some [1] \<longleftrightarrow> cc_https config"
proof -
  have "find timestamp_option ws = None"
    using assms by (auto simp: public_options_def timestamp_option_def list_all_iff find_None_iff)
  then have "find timestamp_option (ws @ vs) = find timestamp_option vs" for vs by (induction ws) (auto split: if_splits)
  then show "request_timestamp (ws @ client_options t config) = of_int t"
    by (simp add: request_timestamp_def client_options_def timestamp_option_def option_type_defs)
  have "map_of ws FF_REQUEST_OPTION_TYPE_HTTPS = None"
    using assms by (auto simp: public_options_def list_all_iff map_of_eq_None_iff)
  then show "map_of (ws @ client_options t config) FF_REQUEST_OPTION_TYPE_HTTPS = Some [1] \<longleftrightarrow> cc_https config"
    by (simp add: map_add_def client_options_def option_type_defs)
qed

lemma timestamp_accepted:
  assumes "has_options request ws" "request_timestamp ws = of_int t" "0 \<le> t" "t < 2 ^ 64" "0 \<le> now" "now < 2 ^ 64"
    and "\<bar>now - t\<bar> \<le> uint (timestamp_fudge_factor config)"
  shows "ff_proxy_validate_request_timestamp now request config = Inr True"
proof -
  have "uint (of_int now :: 64 word) = now" "uint (of_int t :: 64 word) = t"
    using assms(3-6) by (simp_all add: unsigned_of_int take_bit_int_eq_self)
  then show ?thesis
    using timestamp_distance [of "of_int t" "of_int now" "timestamp_fudge_factor config"] assms(7)
    by (simp add: ff_proxy_validate_request_timestamp_def timestamp_scan [OF assms(1)] assms(2) Let_def)
qed

lemma private_options_parsed:
  assumes opts: "has_options request ws" "public_options ws" and flag: "payload_contains_options request"
    and pay: "holds_payload request (private_options t config @ body)" and body: "body \<noteq> []"
  obtains request' where "ff_request_parse_options_from_payload request = Inr request'"
    "state request' = FF_REQUEST_STATE_PARSED_OPTIONS" "has_options request' (ws @ client_options t config)"
    "holds_payload request' body" "payload_length request' = of_nat (length body)" "request_id request' = request_id request"
proof -
  let ?cws = "client_options t config"
  let ?r = "(add_options ?cws FF_REQUEST_OPTION_TYPE_EOL request)\<lparr>state := FF_REQUEST_STATE_PARSED_OPTIONS,
    payload_length := of_nat (length body),
    payload := [\<lparr>pl_offset = 0, pl_length = of_nat (length body), pl_value = bytes body @ block_alloc (length body * 7), pl_live = True\<rparr>]\<rparr>"
  have ok: "options_ok request" using opts(1) by (rule has_options_ok)
  have n: "length (options request) = length ws"
    using opts(1) by (auto simp: has_options_def dest: map_eq_imp_length_eq)
  have room: "length (options request) + length ?cws < FF_REQUEST_MAX_OPTIONS"
    using opts(2) client_options_props(2) [of t config] unfolding n by (simp add: public_options_def FF_REQUEST_MAX_OPTIONS_def)
  have "ff_request_parse_options_from_payload request = Inr ?r"
    by (rule body_options_parsed [OF ok flag pay body client_options_props(1) room])
  moreover have "has_options ?r (ws @ ?cws)"
    using add_options_ok [OF ok client_options_props(1) room, of FF_REQUEST_OPTION_TYPE_EOL] opts(1)
      option_view_nodes [OF client_options_props(1), of t config]
    by (simp add: has_options_def options_ok_def) (simp add: add_options_def)
  moreover have "length body < 2 ^ 16" using holds_payload_length [OF pay] by simp
  ultimately show thesis by (intro that [of ?r]) (simp_all add: holds_payload_def unat_of_nat_16)
qed

lemma worker_delivers:
  assumes req: "heap s a = Some request" "a \<noteq> 0" "payload request = [message_node msg 0 (length msg)]"
      "has_options request ws" "payload_length request = of_nat (length msg)"
    and small: "length msg < 2 ^ 16" and dec: "decrypts_to env ws msg (private_options t config @ body)"
    and more: "payload_contains_options request" "request_id request = r" "r \<noteq> 0" "stores (requests s) es"
    and ws: "public_options ws" and body: "body \<noteq> []"
    and clock: "0 \<le> t" "t < 2 ^ 64" "0 \<le> env_now env" "env_now env < 2 ^ 64"
      "\<bar>env_now env - t\<bar> \<le> uint (timestamp_fudge_factor (env_config env))"
    and host: "\<And>request. holds_payload request body \<Longrightarrow> payload_length request = of_nat (length body) \<Longrightarrow>
      ff_http_get_destination_host request = Inr (Some host)"
    and serves: "if cc_https config then tls_serves (env_tls env) (length body) else plain_serves (env_net env) host (length body)"
  shows "\<exists>s2. ff_proxy_process_request env s a = Inr (Some s2) \<and>
    outbox s2 = outbox s @ [(if cc_https config then Tls else Plain, body)] \<and>
    stores (requests s2) (AList.delete r es) \<and> heap s2 = (heap s)(a := None)"
proof -
  obtain n nodes where d: "read_request s a = Inr request" "ff_request_vectorise_payload request = Inr request"
      "ff_decrypt_request (env_evp env) (env_pbkdf2 env) request (encryption (env_config env)) =
        Inr (request\<lparr>state := FF_REQUEST_STATE_DECRYPTED, payload_length := n, payload := nodes\<rparr>)"
      "holds_payload (request\<lparr>payload := nodes\<rparr>) (private_options t config @ body)"
    by (rule worker_decrypts [OF req small dec])
  define r2 where "r2 = request\<lparr>state := FF_REQUEST_STATE_DECRYPTED, payload_length := n, payload := nodes\<rparr>"
  have r2: "has_options r2 ws" "holds_payload r2 (private_options t config @ body)" "payload_contains_options r2"
      "state r2 = FF_REQUEST_STATE_DECRYPTED" "request_id r2 = r"
    using req(4) d(4) more(1,2) by (simp_all add: r2_def has_options_def options_ok_def holds_payload_def)
  obtain r3 where r3: "ff_request_parse_options_from_payload r2 = Inr r3" "state r3 = FF_REQUEST_STATE_PARSED_OPTIONS"
      "has_options r3 (ws @ client_options t config)" "holds_payload r3 body" "payload_length r3 = of_nat (length body)"
      "request_id r3 = r"
    using private_options_parsed [OF r2(1) ws r2(3,2) body] r2(5) by metis
  have v: "ff_proxy_validate_request_timestamp (env_now env) r3 (env_config env) = Inr True"
    by (rule timestamp_accepted [OF r3(3) client_timestamp(1) [OF ws] clock])
  let ?r4 = "r3\<lparr>state := FF_REQUEST_STATE_SENT\<rparr>" and ?tr = "if cc_https config then Tls else Plain"
  have snd: "ff_http_send_request (env_net env) (env_tls env) r3 = Inr (Some (?r4, ?tr, body))"
    using client_timestamp(2) [OF ws] by (intro request_delivered [OF r3(3-5) body host [OF r3(4,5)] _ serves]) simp
  let ?s = "(write_request s a ?r4)\<lparr>outbox := outbox s @ [(?tr, body)]\<rparr>"
  obtain table where c: "stores table (AList.delete r es)"
      "cleanup_request ?s a = res_bind (ff_request_free ?r4) (\<lambda>_. Inr (?s\<lparr>requests := table, heap := (heap ?s)(a := None)\<rparr>))"
    by (rule cleanup_frees [of ?s a ?r4 r es]) (use req(2) more r3(6) in \<open>simp_all add: write_request_def\<close>)
  have "ff_request_free ?r4 = Inr ()"
    by (rule holds_payload_free [of _ body]) (use has_options_ok [OF r3(3)] r3(4) in \<open>simp_all add: options_ok_def\<close>)
  then show ?thesis
    using d(1,2) d(3) [folded r2_def] r2(4) r3(1,2) v snd c by (simp add: ff_proxy_process_request_def write_request_def)
qed

lemma worker_double_frees:
  assumes req: "heap s a = Some request" "a \<noteq> 0" "payload request = [message_node msg 0 (length msg)]"
      "has_options request ws" "payload_length request = of_nat (length msg)"
    and small: "length msg < 2 ^ 16" and dec: "decrypts_to env ws msg (private_options t config)"
    and more: "payload_contains_options request" "request_id request = r" "r \<noteq> 0" "stores (requests s) es"
    and ws: "public_options ws"
  shows "ff_proxy_process_request env s a = Inl UseAfterFree"
proof -
  let ?cws = "client_options t config"
  obtain n nodes where d: "read_request s a = Inr request" "ff_request_vectorise_payload request = Inr request"
      "ff_decrypt_request (env_evp env) (env_pbkdf2 env) request (encryption (env_config env)) =
        Inr (request\<lparr>state := FF_REQUEST_STATE_DECRYPTED, payload_length := n, payload := nodes\<rparr>)"
      "holds_payload (request\<lparr>payload := nodes\<rparr>) (private_options t config)"
    by (rule worker_decrypts [OF req small dec])
  define r2 where "r2 = request\<lparr>state := FF_REQUEST_STATE_DECRYPTED, payload_length := n, payload := nodes\<rparr>"
  have r2: "options_ok r2" "payload_contains_options r2" "state r2 = FF_REQUEST_STATE_DECRYPTED" "request_id r2 = r"
      "length (options r2) = length ws"
    using req(4) more(1,2) by (auto simp: r2_def has_options_def options_ok_def dest: map_eq_imp_length_eq)
  obtain node rest where node: "payload r2 = [node]" "pl_live node"
      "unat (pl_length node) = length (private_options t config) + length ([] :: byte list)"
      "pl_value node = bytes (private_options t config @ []) @ rest"
    using d(4) by (auto simp: r2_def holds_payload_def)
  have room: "length (options r2) + length ?cws < FF_REQUEST_MAX_OPTIONS"
    using ws client_options_props(2) [of t config] unfolding r2(5) by (simp add: public_options_def FF_REQUEST_MAX_OPTIONS_def)
  define r3 where "r3 = (add_options ?cws FF_REQUEST_OPTION_TYPE_EOL r2)
    \<lparr>state := FF_REQUEST_STATE_PARSING_OPTIONS_FAILED, payload := [node\<lparr>pl_live := False\<rparr>]\<rparr>"
  have p: "ff_request_parse_options_from_payload r2 = Inr r3"
    unfolding r3_def by (rule body_options_failed [OF r2(1,2) node _ client_options_props(1) room]) simp
  have "options_ok r3" using add_options_ok [OF r2(1) client_options_props(1) room] by (simp add: r3_def options_ok_def)
  then have f: "ff_request_free r3 = Inl UseAfterFree"
    by (rule free_dangling_payload [where node = "node\<lparr>pl_live := False\<rparr>"]) (simp_all add: r3_def)
  obtain table where "cleanup_request (write_request s a r3) a =
      res_bind (ff_request_free r3) (\<lambda>_. Inr ((write_request s a r3)\<lparr>requests := table, heap := (heap (write_request s a r3))(a := None)\<rparr>))"
    by (rule cleanup_frees [of "write_request s a r3" a r3 r es])
      (use req(2) more r2(4) in \<open>simp_all add: write_request_def, simp_all add: r3_def\<close>)
  then show ?thesis
    using d(1,2) d(3) [folded r2_def] r2(3) p f by (simp add: ff_proxy_process_request_def r3_def)
qed

section \<open>From the client to the destination\<close>

lemma id_unused:
  assumes ok: "proxy_ok s es" and "ff_hash_table_get_item (requests s) r = Inr 0"
  shows "map_of es r = None"
proof (cases "map_of es r")
  case (Some a)
  then have "a \<noteq> 0" using proxy_okD(5) [OF ok, of r a] by (auto dest: map_of_SomeD)
  then show ?thesis using Some ht.get_law [OF proxy_okD(1) [OF ok], of r] assms(2) by simp
qed simp

lemma client_packet_length:
  assumes "public_options ws" and "length msg \<le> 1042"
  shows "length (chunk_packet r msg 0 (length msg) ws FF_REQUEST_OPTION_TYPE_BREAK) \<le> FF_PROXY_BUFF_SIZE"
    and "packet_options_ok 0 ws FF_REQUEST_OPTION_TYPE_BREAK" and "length ws < FF_REQUEST_MAX_OPTIONS"
  using assms
  by (simp_all add: chunk_packet_def data_packet_def public_options_def packet_options_ok_def FF_PROXY_BUFF_SIZE_def
      FF_REQUEST_MAX_OPTIONS_def)


text \<open>A client and a server with the key \<open>[5]\<close>, and a destination that takes the sample request.\<close>

definition shared_encryption :: ff_encryption_config where
  "shared_encryption = \<lparr>enc_key = Some [5], pbkdf2_iterations = 1000\<rparr>"

definition keyed_client :: ff_client_config where
  "keyed_client = sample_client_config\<lparr>cc_encryption := shared_encryption\<rparr>"

definition keyed_env :: "(byte list \<times> byte list) env" where
  "keyed_env = sample_env\<lparr>env_evp := tag_evp, env_config := sample_started\<lparr>encryption := shared_encryption\<rparr>\<rparr>"

lemmas keyed_defs = keyed_client_def keyed_env_def shared_encryption_def sample_client_config_def sample_client_env_def
  sample_env_def sample_started_def

lemma keyed_agrees: "crypto_agrees sample_client_env keyed_client keyed_env tag_dec"
  using tag_cipher by (simp add: crypto_agrees_def keyed_defs toy_pbkdf2_def)

lemma keyed_online: "client_online (ce_net sample_client_env) keyed_client"
  by (simp add: client_online_def keyed_defs)

lemma sample_id: "ce_id sample_client_env = Some [1, 2, 3, 4, 5, 6, 7, 8]" "load_le (take 8 [1, 2, 3, 4, 5, 6, 7, 8]) \<noteq> (0 :: 64 word)"
  by (simp add: sample_client_env_def) code_simp

lemma sample_served: "plain_serves sample_net (map of_char ''a.b'') (length sample_text)"
  unfolding plain_serves_def sample_text_length
proof (intro conjI)
  show "\<exists>cs cs'. write_results sample_net = cs @ cs' \<and> list_all (\<lambda>c. 0 < c) cs \<and> sum_list cs = int 28"
    by (intro exI [of _ "[20, 8]"] exI [of _ "[]"]) (simp add: sample_net_def)
  show "\<exists>r results. recv_results sample_net = Some r # results \<and> http_response r"
    using sample_response by (simp add: sample_net_def http_response_def FF_HTTP_RESPONSE_BUFF_SIZE_def)
qed (simp_all add: sample_net_def)

lemma init_unused: "proxy_init = Inr s \<Longrightarrow> ff_hash_table_get_item (requests s) r = Inr 0"
  using ht.get_law [OF proxy_okD(1) [OF init_ok], of s r] by simp




section \<open>The main program\<close>

text \<open>
  C40. The result of \<open>getaddrinfo\<close> is not checked. The argument parser reads a port with \<open>atoi\<close>, which
  accepts trailing characters, and keeps the text; for a text that \<open>getaddrinfo\<close> rejects, the server
  goes on to read the address list, a pointer nothing has been assigned to, instead of ending with the exit code of a failure.
\<close>

theorem unresolved_port_uninitialised:
  assumes "0 < atoi pt" "atoi pt \<le> 65535" and "\<not> getaddrinfo_ok net default_listen_address pt"
  shows "main inet_pton net config [prog, c_string ''--port'', pt] rs = Inl Uninitialised"
proof -
  obtain s where s: "proxy_init = Inr s" by (rule init_state)
  have "parse_loop inet_pton (parse_args_init config) [c_string ''--port'', pt] =
      (FF_ACTION_START_PROXY, (parse_args_init config)\<lparr>pa_port := Some pt\<rparr>)"
    using assms(1,2)
    by (simp add: parse_loop_flag parse_flag_simps parse_loop_Cons parse_values parse_args_init_def del: parse_loop.simps(2))
  then show ?thesis
    using assms(3) by (simp add: main_def ff_parse_arguments_def ff_proxy_start_def s parse_args_init_def del: parse_loop.simps(2))
qed

definition numeric_listener :: listener where
  "numeric_listener = \<lparr>getaddrinfo_ok = (\<lambda>addr pt. list_all (\<lambda>b. 48 \<le> b \<and> b \<le> 57) pt), listen_socket_ok = True, bind_ok = True\<rparr>"

theorem unresolved_port_uninitialised_witness:
  "main (\<lambda>v6 a. True) numeric_listener zero_config [c_string ''ff'', c_string ''--port'', c_string ''80x''] [] = Inl Uninitialised"
proof -
  have "atoi (c_string ''80x'') = 80" by code_simp
  then show ?thesis
    by (intro unresolved_port_uninitialised) (simp_all add: numeric_listener_def c_string_def)
qed

end
