(* ===== verification/Spec2Isabelle.thy ===== *)
theory Spec2Isabelle
  imports Delivery
begin

text \<open>FF proxy: verification development (skeleton).\<close>

end
